(* ===== verification/Prelude.thy ===== *)
theory Prelude
  imports Main "HOL-Library.Word"
begin

section \<open>Shared vocabulary: failures, results, assertions\<close>

text \<open>
  The C++ code fails in three ways, which every model of this library keeps apart:
  \<^item> \<open>SERVER_ASSERT\<close> and \<open>SERVER_ASSERT_INFO\<close> (source/macro.hpp) log and then call
    \<open>assert\<close>, which aborts the process (the build does not define \<open>NDEBUG\<close>);
  \<^item> a C++ exception leaves the function;
  \<^item> a null or dangling pointer is followed, or a vector is indexed out of range. C++ leaves
    that undefined, and the model stops there with a value of its own.
  A fourth value, \<open>OutsideModel\<close>, marks the few situations the model does not follow further;
  each use says which.
  An operation returns a \<open>res\<close>: \<open>Inl\<close> of the failure or \<open>Inr\<close> of the result.
  What the code writes to its own log is part of the state in theory \<open>Utilities\<close> only.
\<close>

datatype server_error =
    AssertionFailed string
  | StdException string
  | BadAccess string
  | OutsideModel string

type_synonym 'a res = "server_error + 'a"

text \<open>\<open>rbind\<close> runs the rest of a function unless the first part has failed.\<close>

definition rbind :: "'a res \<Rightarrow> ('a \<Rightarrow> 'b res) \<Rightarrow> 'b res" where
  "rbind r f = (case r of Inl e \<Rightarrow> Inl e | Inr x \<Rightarrow> f x)"

text \<open>\<open>server_assert x w k\<close> is the macro followed by the code \<open>k\<close> after it.\<close>

definition server_assert :: "bool \<Rightarrow> string \<Rightarrow> 'a res \<Rightarrow> 'a res" where
  "server_assert x w k = (if x then k else Inl (AssertionFailed w))"

named_theorems step_defs "definitions of the operations, for unfolding a whole step"
named_theorems frame "what an operation leaves unchanged"

lemma rbind_Inr [simp]: "rbind (Inr x) f = f x"
  by (simp add: rbind_def)

lemma rbind_Inl [simp]: "rbind (Inl e) f = Inl e"
  by (simp add: rbind_def)

lemma rbind_eq_Inr [simp]: "rbind r f = Inr y \<longleftrightarrow> (\<exists>x. r = Inr x \<and> f x = Inr y)"
  by (cases r) simp_all

lemma rbindE:
  assumes "rbind r f = Inr y"
  obtains x where "r = Inr x" "f x = Inr y"
  using assms by auto

lemma rbind_eq_Inl: "rbind r f = Inl e \<longleftrightarrow> r = Inl e \<or> (\<exists>x. r = Inr x \<and> f x = Inl e)"
  by (cases r) simp_all

lemma rbind_assoc: "rbind (rbind r f) g = rbind r (\<lambda>x. rbind (f x) g)"
  by (cases r) simp_all

lemma server_assert_True [simp]: "server_assert True w k = k"
  by (simp add: server_assert_def)

lemma server_assert_False [simp]: "server_assert False w k = Inl (AssertionFailed w)"
  by (simp add: server_assert_def)

lemma server_assert_eq_Inr [simp]: "server_assert x w k = Inr y \<longleftrightarrow> x \<and> k = Inr y"
  by (simp add: server_assert_def)

lemma server_assert_eq_Inl:
  "server_assert x w k = Inl e \<longleftrightarrow> (if x then k = Inl e else e = AssertionFailed w)"
  by (auto simp: server_assert_def)

text \<open>The result is not a failure.\<close>

definition is_ok :: "'a res \<Rightarrow> bool" where
  "is_ok r = (case r of Inl _ \<Rightarrow> False | Inr _ \<Rightarrow> True)"

lemma is_ok_Inr [simp]: "is_ok (Inr x)"
  by (simp add: is_ok_def)

lemma is_ok_Inl [simp]: "\<not> is_ok (Inl e)"
  by (simp add: is_ok_def)

lemma is_ok_iff: "is_ok r \<longleftrightarrow> (\<exists>x. r = Inr x)"
  by (cases r) simp_all

lemma is_ok_rbind [simp]: "is_ok (rbind r f) \<longleftrightarrow> (\<exists>x. r = Inr x \<and> is_ok (f x))"
  by (cases r) simp_all

lemma is_ok_server_assert [simp]: "is_ok (server_assert x w k) \<longleftrightarrow> x \<and> is_ok k"
  by (cases x) simp_all

subsection \<open>Counters that stay below the wrap-around\<close>

lemma unat_plus_one:
  "unat (w :: 'a::len word) + 1 < 2 ^ LENGTH('a) \<Longrightarrow> unat (w + 1) = unat w + 1"
  by (simp add: unat_word_ariths)

lemma unat_minus_one_word: "w \<noteq> 0 \<Longrightarrow> unat (w - 1) = unat w - 1" for w :: "'a::len word"
  by (rule unat_minus_one)

end
