(* ===== verification/Fibers.thy ===== *)
theory Fibers
  imports Prelude
begin

section \<open>Fibers (source/fiber.hpp, source/fiber.cpp)\<close>

text \<open>
  The class \<open>Fiber\<close>: its objects, the thread-local pointers of fiber.cpp and scheduler.cpp,
  the operations on them and the control flow of \<open>mainFunc\<close>/\<open>callerMainFunc\<close>.
  \<^item> \<open>fiber_state\<close> is \<open>enum class State\<close>; \<open>fiber\<close> is the object's members.
  \<^item> A \<open>callback\<close> stands for a \<open>std::function<void()>\<close>. Client code is not part of the
    repository: a client callback is the sequence of calls into the framework that one execution
    of it makes, ended by its return or by an exception. The two callbacks the framework binds
    itself, \<open>Scheduler::idle\<close> and \<open>Scheduler::run\<close>, have constructors of their own.
  \<^item> A \<open>ucontext_t\<close> is an entry point (after \<open>makecontext\<close>) or a saved continuation together
    with the stack it runs on. A stack is the one \<open>malloc\<close>ed for a sub fiber (\<open>Heap\<close>) or a
    thread's own (\<open>Native\<close>).
  \<^item> \<open>proc\<close> is the process: the objects by address, the static counters, and for every thread
    its thread-local variables and what its CPU executes (\<open>cpu_stack\<close>, \<open>cpu\<close>).
  \<open>getcontext\<close>, \<open>makecontext\<close>, \<open>swapcontext\<close> and \<open>malloc\<close> are taken not to fail.
  Reference counts of \<open>shared_ptr\<close> are not modelled: the destructor is the operation
  \<open>Fiber_delete\<close>, and an object nobody refers to any more otherwise stays in the table.
\<close>

type_synonym tid = int
type_synonym faddr = nat

datatype fiber_state =
    State_INIT | State_HOLD | State_EXEC | State_TERM | State_READY | State_EXCEPT

datatype client_op =
    OpYieldToReady
  | OpYieldToHold
  | OpScheduleCb "client_op list" int
  | OpScheduleFiber faddr int
  | OpScheduleThis int
  | OpThrow string

datatype callback = Client "client_op list" | SchedulerIdle | SchedulerRun

datatype entry = MainFunc | CallerMainFunc

datatype stack = Native tid | Heap faddr

text \<open>
  What remains to be executed on a stack: \<open>KEntry e\<close>, the function \<open>e\<close> from its start;
  \<open>KBody e cur cb\<close>, inside \<open>cur->m_cb()\<close> with \<open>cb\<close> left; \<open>KYield e cur a cb\<close>, inside
  \<open>yieldToReady\<close> or \<open>yieldToHold\<close> of the fiber \<open>a\<close>, whose state is stored and whose
  \<open>swapOut\<close> is next; \<open>KEpilogue e cur\<close>, after the try block; \<open>KNever cur\<close>, after the last
  switch, where the code asserts false; \<open>KRun ret\<close>, in \<open>Scheduler::run\<close>, called by a thread of
  the pool (\<open>None\<close>) or as \<open>m_cb\<close> of a fiber; \<open>KStopSwap\<close>, in \<open>Scheduler::stop\<close> before
  it takes over the list of threads; \<open>KJoin us\<close>, in \<open>stop\<close> with the threads \<open>us\<close> left to join;
  \<open>KOutside\<close>, client code that is not a fiber; \<open>KExit\<close>, the thread has ended.
\<close>

datatype cont =
    KEntry entry
  | KBody entry faddr callback
  | KYield entry faddr faddr callback
  | KEpilogue entry faddr
  | KNever faddr
  | KRun "(entry \<times> faddr) option"
  | KStopSwap
  | KJoin "tid list"
  | KOutside
  | KExit

datatype ctx = CtxGot | CtxEntry entry | CtxSaved stack cont

record fiber =
  m_id :: "64 word"
  m_stackSize :: "32 word"
  m_state :: fiber_state
  m_ctx :: ctx
  m_stack :: bool
  m_cb :: "callback option"

record thread_local =
  t_fiber :: "faddr option"
  t_threadFiber :: "faddr option"
  t_scheduler :: bool
  t_mainFiber :: "faddr option"
  cpu_stack :: stack
  cpu :: cont

record proc =
  s_fiber_id :: "64 word"
  s_fiber_count :: "64 word"
  g_fiberStackSize :: "32 word"
  heap :: "faddr \<Rightarrow> fiber option"
  brk :: faddr
  tls :: "tid \<Rightarrow> thread_local"

text \<open>The static initialisers: no object, no main fiber on any thread.\<close>

definition init_tls :: "tid \<Rightarrow> thread_local" where
  "init_tls t = \<lparr>t_fiber = None, t_threadFiber = None, t_scheduler = False, t_mainFiber = None,
                 cpu_stack = Native t, cpu = KOutside\<rparr>"

definition init_proc :: proc where
  "init_proc = \<lparr>s_fiber_id = 0, s_fiber_count = 0, g_fiberStackSize = 1024 * 1024,
                heap = (\<lambda>_. None), brk = 0, tls = init_tls\<rparr>"

subsection \<open>Access to objects and thread-locals\<close>

text \<open>Following a \<open>Fiber*\<close>, which may be null or dangling.\<close>

definition fiber_at :: "faddr option \<Rightarrow> 'z proc_scheme \<Rightarrow> fiber res" where
  "fiber_at p s =
     (case p of
        None \<Rightarrow> Inl (BadAccess ''null Fiber*'')
      | Some a \<Rightarrow> (case heap s a of None \<Rightarrow> Inl (BadAccess ''dangling Fiber*'') | Some f \<Rightarrow> Inr f))"

definition put_fiber :: "faddr \<Rightarrow> fiber \<Rightarrow> 'z proc_scheme \<Rightarrow> 'z proc_scheme" where
  "put_fiber a f s = s\<lparr>heap := (heap s)(a := Some f)\<rparr>"

definition set_tls :: "tid \<Rightarrow> (thread_local \<Rightarrow> thread_local) \<Rightarrow> 'z proc_scheme \<Rightarrow> 'z proc_scheme" where
  "set_tls t g s = s\<lparr>tls := (tls s)(t := g (tls s t))\<rparr>"

definition set_cpu :: "tid \<Rightarrow> cont \<Rightarrow> 'z proc_scheme \<Rightarrow> 'z proc_scheme" where
  "set_cpu t k s = set_tls t (cpu_update (\<lambda>_. k)) s"

definition setThis :: "tid \<Rightarrow> faddr option \<Rightarrow> 'z proc_scheme \<Rightarrow> 'z proc_scheme" where
  "setThis t f s = set_tls t (t_fiber_update (\<lambda>_. f)) s"

definition getFiberId :: "tid \<Rightarrow> 'z proc_scheme \<Rightarrow> 64 word res" where
  "getFiberId t s =
     (case t_fiber (tls s t) of
        None \<Rightarrow> Inr 0
      | Some a \<Rightarrow> rbind (fiber_at (Some a) s) (\<lambda>f. Inr (m_id f)))"

definition totalFibers :: "'z proc_scheme \<Rightarrow> 64 word" where
  "totalFibers s = s_fiber_count s"

subsection \<open>Construction, destruction, reset\<close>

text \<open>\<open>Fiber::Fiber()\<close>, the constructor of a thread's main fiber; returns the object's address.\<close>

definition Fiber_main :: "tid \<Rightarrow> 'z proc_scheme \<Rightarrow> faddr \<times> 'z proc_scheme" where
  "Fiber_main t s =
     (let a = brk s;
          s1 = put_fiber a \<lparr>m_id = 0, m_stackSize = 0, m_state = State_EXEC, m_ctx = CtxGot,
                            m_stack = False, m_cb = None\<rparr> (s\<lparr>brk := Suc a\<rparr>);
          s2 = setThis t (Some a) s1
      in (a, s2\<lparr>s_fiber_count := s_fiber_count s2 + 1\<rparr>))"

text \<open>
  \<open>Fiber::Fiber(cb, stackSize, useCaller)\<close>. \<open>stackSize\<close> is a \<open>size_t\<close>, \<open>m_stackSize\<close> a
  \<open>uint32_t\<close>: the conversion keeps the low 32 bits.
\<close>

definition Fiber_new ::
    "callback option \<Rightarrow> 64 word \<Rightarrow> bool \<Rightarrow> 'z proc_scheme \<Rightarrow> faddr \<times> 'z proc_scheme" where
  "Fiber_new cb stackSize useCaller s =
     (let a = brk s;
          i = s_fiber_id s + 1;
          sz = (if stackSize \<noteq> 0 then ucast stackSize else g_fiberStackSize s);
          s1 = s\<lparr>s_fiber_id := i, s_fiber_count := s_fiber_count s + 1, brk := Suc a\<rparr>
      in (a, put_fiber a \<lparr>m_id = i, m_stackSize = sz, m_state = State_INIT,
                          m_ctx = CtxEntry (if useCaller then CallerMainFunc else MainFunc),
                          m_stack = True, m_cb = cb\<rparr> s1))"

text \<open>\<open>Fiber::~Fiber()\<close>, run by the thread \<open>t\<close>, and the end of the object's lifetime.\<close>

definition Fiber_delete :: "tid \<Rightarrow> faddr \<Rightarrow> 'z proc_scheme \<Rightarrow> 'z proc_scheme res" where
  "Fiber_delete t a s =
     (let s1 = s\<lparr>s_fiber_count := s_fiber_count s - 1\<rparr>;
          gone = (\<lambda>s. s\<lparr>heap := (heap s)(a := None)\<rparr>)
      in rbind (fiber_at (Some a) s1) (\<lambda>f.
           if m_stack f
           then server_assert (m_state f = State_TERM \<or> m_state f = State_EXCEPT
                                \<or> m_state f = State_INIT) ''m_state'' (Inr (gone s1))
           else server_assert (m_cb f = None) ''!m_cb''
                  (server_assert (m_state f = State_EXEC) ''m_state == State::EXEC''
                    (Inr (gone (if t_fiber (tls s1 t) = Some a then setThis t None s1 else s1))))))"

text \<open>\<open>Fiber::reset(cb)\<close>: always enters through \<open>mainFunc\<close> afterwards.\<close>

definition Fiber_reset :: "faddr \<Rightarrow> callback option \<Rightarrow> 'z proc_scheme \<Rightarrow> 'z proc_scheme res" where
  "Fiber_reset a cb s =
     rbind (fiber_at (Some a) s) (\<lambda>f.
       server_assert (m_stack f) ''m_stack''
         (server_assert (m_state f = State_TERM \<or> m_state f = State_EXCEPT
                          \<or> m_state f = State_INIT) ''m_state''
           (Inr (put_fiber a (f\<lparr>m_cb := cb, m_ctx := CtxEntry MainFunc,
                                m_state := State_INIT\<rparr>) s))))"

text \<open>\<open>Fiber::getThis()\<close>: makes the thread's main fiber when there is none yet.\<close>

definition getThis :: "tid \<Rightarrow> 'z proc_scheme \<Rightarrow> (faddr \<times> 'z proc_scheme) res" where
  "getThis t s =
     (case t_fiber (tls s t) of
        Some a \<Rightarrow> rbind (fiber_at (Some a) s) (\<lambda>_. Inr (a, s))
      | None \<Rightarrow>
          (let (a, s1) = Fiber_main t s
           in server_assert (t_fiber (tls s1 t) = Some a) ''t_fiber == main_fiber.get()''
                (Inr (a, set_tls t (t_threadFiber_update (\<lambda>_. Some a)) s1))))"

subsection \<open>Switching\<close>

text \<open>
  Loading the context \<open>c\<close> of the fiber \<open>b\<close> into the CPU: an entry point starts on the stack
  \<open>m_stack\<close> of the fiber, a saved context continues where it was.
\<close>

definition resume :: "faddr \<Rightarrow> ctx \<Rightarrow> thread_local \<Rightarrow> thread_local" where
  "resume b c l =
     (case c of
        CtxGot \<Rightarrow> l
      | CtxEntry e \<Rightarrow> l\<lparr>cpu_stack := Heap b, cpu := KEntry e\<rparr>
      | CtxSaved st k \<Rightarrow> l\<lparr>cpu_stack := st, cpu := k\<rparr>)"

text \<open>
  \<open>swapcontext(&from->m_ctx, &to->m_ctx)\<close> on thread \<open>t\<close>: the running stack with its
  continuation \<open>k\<close> is saved in \<open>from\<close>, then the context of \<open>to\<close> is resumed. A context that
  only \<open>getcontext\<close> has filled is never meant to be resumed.
\<close>

definition swapcontext ::
    "tid \<Rightarrow> faddr option \<Rightarrow> faddr option \<Rightarrow> cont \<Rightarrow> 'z proc_scheme \<Rightarrow> 'z proc_scheme res" where
  "swapcontext t from_p to_p k s =
     rbind (fiber_at from_p s) (\<lambda>ff.
       let s1 = put_fiber (the from_p) (ff\<lparr>m_ctx := CtxSaved (cpu_stack (tls s t)) k\<rparr>) s
       in rbind (fiber_at to_p s1) (\<lambda>tf.
            if m_ctx tf = CtxGot then Inl (BadAccess ''context was never saved'')
            else Inr (set_tls t (resume (the to_p) (m_ctx tf)) s1)))"

definition Fiber_call :: "tid \<Rightarrow> faddr \<Rightarrow> cont \<Rightarrow> 'z proc_scheme \<Rightarrow> 'z proc_scheme res" where
  "Fiber_call t a k s =
     (let s1 = setThis t (Some a) s
      in rbind (fiber_at (Some a) s1) (\<lambda>f.
           server_assert (m_state f \<noteq> State_EXEC) ''m_state != State::EXEC''
             (swapcontext t (t_threadFiber (tls s1 t)) (Some a) k
               (put_fiber a (f\<lparr>m_state := State_EXEC\<rparr>) s1))))"

definition Fiber_back :: "tid \<Rightarrow> faddr \<Rightarrow> cont \<Rightarrow> 'z proc_scheme \<Rightarrow> 'z proc_scheme res" where
  "Fiber_back t a k s =
     (let s1 = setThis t (t_threadFiber (tls s t)) s
      in rbind (fiber_at (Some a) s1) (\<lambda>f.
           server_assert (m_state f \<noteq> State_EXEC) ''m_state != State::EXEC''
             (swapcontext t (Some a) (t_threadFiber (tls s1 t)) k s1)))"

definition swapIn :: "tid \<Rightarrow> faddr \<Rightarrow> cont \<Rightarrow> 'z proc_scheme \<Rightarrow> 'z proc_scheme res" where
  "swapIn t a k s =
     (let s1 = setThis t (Some a) s
      in rbind (fiber_at (Some a) s1) (\<lambda>f.
           server_assert (m_state f \<noteq> State_EXEC) ''m_state != State::EXEC''
             (swapcontext t (t_mainFiber (tls s1 t)) (Some a) k
               (put_fiber a (f\<lparr>m_state := State_EXEC\<rparr>) s1))))"

definition swapOut :: "tid \<Rightarrow> faddr \<Rightarrow> cont \<Rightarrow> 'z proc_scheme \<Rightarrow> 'z proc_scheme res" where
  "swapOut t a k s =
     (let s1 = setThis t (t_mainFiber (tls s t)) s
      in swapcontext t (Some a) (t_mainFiber (tls s1 t)) k s1)"

text \<open>
  \<open>yieldToReady\<close> and \<open>yieldToHold\<close> first store the new state, then switch. Another thread can
  run between the two, so the first part is an operation of its own.
\<close>

definition yield_store :: "fiber_state \<Rightarrow> tid \<Rightarrow> 'z proc_scheme \<Rightarrow> (faddr \<times> 'z proc_scheme) res" where
  "yield_store st t s =
     server_assert (t_fiber (tls s t) \<noteq> t_threadFiber (tls s t)) ''t_fiber != t_threadFiber.get()''
       (rbind (getThis t s) (\<lambda>(a, s1).
          rbind (fiber_at (Some a) s1) (\<lambda>f. Inr (a, put_fiber a (f\<lparr>m_state := st\<rparr>) s1))))"

definition yieldToReady :: "tid \<Rightarrow> cont \<Rightarrow> 'z proc_scheme \<Rightarrow> 'z proc_scheme res" where
  "yieldToReady t k s = rbind (yield_store State_READY t s) (\<lambda>(a, s1). swapOut t a k s1)"

definition yieldToHold :: "tid \<Rightarrow> cont \<Rightarrow> 'z proc_scheme \<Rightarrow> 'z proc_scheme res" where
  "yieldToHold t k s = rbind (yield_store State_HOLD t s) (\<lambda>(a, s1). swapOut t a k s1)"

subsection \<open>The entry functions\<close>

text \<open>
  \<open>mainFunc\<close> and \<open>callerMainFunc\<close> differ only in their last switch, \<open>swapOut\<close> against
  \<open>back\<close>. Calling an empty \<open>std::function\<close> throws \<open>std::bad_function_call\<close>, which the
  handler catches.
\<close>

definition mainFunc_catch :: "entry \<Rightarrow> faddr \<Rightarrow> tid \<Rightarrow> 'z proc_scheme \<Rightarrow> 'z proc_scheme res" where
  "mainFunc_catch e cur t s =
     rbind (fiber_at (Some cur) s) (\<lambda>f.
       Inr (set_cpu t (KEpilogue e cur) (put_fiber cur (f\<lparr>m_state := State_EXCEPT\<rparr>) s)))"

definition mainFunc_enter :: "entry \<Rightarrow> tid \<Rightarrow> 'z proc_scheme \<Rightarrow> 'z proc_scheme res" where
  "mainFunc_enter e t s =
     rbind (getThis t s) (\<lambda>(cur, s1).
       rbind (fiber_at (Some cur) s1) (\<lambda>f.
         case m_cb f of
           None \<Rightarrow> mainFunc_catch e cur t s1
         | Some cb \<Rightarrow> Inr (set_cpu t (KBody e cur cb) s1)))"

definition mainFunc_return :: "entry \<Rightarrow> faddr \<Rightarrow> tid \<Rightarrow> 'z proc_scheme \<Rightarrow> 'z proc_scheme res" where
  "mainFunc_return e cur t s =
     rbind (fiber_at (Some cur) s) (\<lambda>f.
       Inr (set_cpu t (KEpilogue e cur)
             (put_fiber cur (f\<lparr>m_cb := None, m_state := State_TERM\<rparr>) s)))"

definition mainFunc_leave :: "entry \<Rightarrow> faddr \<Rightarrow> tid \<Rightarrow> 'z proc_scheme \<Rightarrow> 'z proc_scheme res" where
  "mainFunc_leave e cur t s =
     (case e of
        MainFunc \<Rightarrow> swapOut t cur (KNever cur) s
      | CallerMainFunc \<Rightarrow> Fiber_back t cur (KNever cur) s)"

subsection \<open>Reading after writing\<close>

lemma fiber_at_eq_Inr [simp]:
  "fiber_at p s = Inr f \<longleftrightarrow> (\<exists>a. p = Some a \<and> heap s a = Some f)"
  by (auto simp: fiber_at_def split: option.splits)

lemma fiber_at_None [simp]: "fiber_at None s = Inl (BadAccess ''null Fiber*'')"
  by (simp add: fiber_at_def)

lemma put_fiber_sel [simp]:
  "heap (put_fiber a f s) = (heap s)(a := Some f)"
  "tls (put_fiber a f s) = tls s"
  "brk (put_fiber a f s) = brk s"
  "s_fiber_id (put_fiber a f s) = s_fiber_id s"
  "s_fiber_count (put_fiber a f s) = s_fiber_count s"
  "g_fiberStackSize (put_fiber a f s) = g_fiberStackSize s"
  by (simp_all add: put_fiber_def)

lemma set_tls_sel [simp]:
  "heap (set_tls t g s) = heap s"
  "tls (set_tls t g s) = (tls s)(t := g (tls s t))"
  "brk (set_tls t g s) = brk s"
  "s_fiber_id (set_tls t g s) = s_fiber_id s"
  "s_fiber_count (set_tls t g s) = s_fiber_count s"
  "g_fiberStackSize (set_tls t g s) = g_fiberStackSize s"
  by (simp_all add: set_tls_def)

lemma setThis_sel [simp]:
  "heap (setThis t p s) = heap s"
  "tls (setThis t p s) = (tls s)(t := (tls s t)\<lparr>t_fiber := p\<rparr>)"
  "brk (setThis t p s) = brk s"
  "s_fiber_id (setThis t p s) = s_fiber_id s"
  "s_fiber_count (setThis t p s) = s_fiber_count s"
  "g_fiberStackSize (setThis t p s) = g_fiberStackSize s"
  by (simp_all add: setThis_def)

lemma set_cpu_sel [simp]:
  "heap (set_cpu t k s) = heap s"
  "tls (set_cpu t k s) = (tls s)(t := (tls s t)\<lparr>cpu := k\<rparr>)"
  "brk (set_cpu t k s) = brk s"
  "s_fiber_id (set_cpu t k s) = s_fiber_id s"
  "s_fiber_count (set_cpu t k s) = s_fiber_count s"
  "g_fiberStackSize (set_cpu t k s) = g_fiberStackSize s"
  by (simp_all add: set_cpu_def)

text \<open>The part of an update that the extension fields of the state see: nothing.\<close>

lemma proc_more_frame [simp, frame]:
  "proc.more (put_fiber a f s) = proc.more s"
  "proc.more (set_tls t g s) = proc.more s"
  "proc.more (setThis t p s) = proc.more s"
  "proc.more (set_cpu t k s) = proc.more s"
  by (simp_all add: put_fiber_def set_tls_def setThis_def set_cpu_def)

lemma resume_simps [simp]:
  "resume b (CtxEntry e) l = l\<lparr>cpu_stack := Heap b, cpu := KEntry e\<rparr>"
  "resume b (CtxSaved st k) l = l\<lparr>cpu_stack := st, cpu := k\<rparr>"
  by (simp_all add: resume_def)

lemma resume_sel [simp]:
  "t_fiber (resume b c l) = t_fiber l" "t_threadFiber (resume b c l) = t_threadFiber l"
  "t_scheduler (resume b c l) = t_scheduler l" "t_mainFiber (resume b c l) = t_mainFiber l"
  by (simp_all add: resume_def split: ctx.split)

lemma swapcontext_neq:
  "heap s a = Some ff \<Longrightarrow> heap s b = Some tf \<Longrightarrow> a \<noteq> b \<Longrightarrow> m_ctx tf \<noteq> CtxGot \<Longrightarrow>
   swapcontext t (Some a) (Some b) k s =
     Inr (set_tls t (resume b (m_ctx tf))
           (put_fiber a (ff\<lparr>m_ctx := CtxSaved (cpu_stack (tls s t)) k\<rparr>) s))"
  by (simp add: swapcontext_def Let_def fiber_at_def)

lemma swapcontextE:
  assumes "swapcontext t from_p to_p k s = Inr s'"
  obtains a ff b tf where "from_p = Some a" "heap s a = Some ff" "to_p = Some b"
    "(heap (put_fiber a (ff\<lparr>m_ctx := CtxSaved (cpu_stack (tls s t)) k\<rparr>) s)) b = Some tf"
    "m_ctx tf \<noteq> CtxGot"
    "s' = set_tls t (resume b (m_ctx tf))
            (put_fiber a (ff\<lparr>m_ctx := CtxSaved (cpu_stack (tls s t)) k\<rparr>) s)"
proof -
  from assms obtain a ff where a: "from_p = Some a" "heap s a = Some ff"
    by (auto simp: swapcontext_def)
  let ?s1 = "put_fiber a (ff\<lparr>m_ctx := CtxSaved (cpu_stack (tls s t)) k\<rparr>) s"
  from assms a obtain b tf where b: "to_p = Some b" "heap ?s1 b = Some tf"
    and "m_ctx tf \<noteq> CtxGot" "s' = set_tls t (resume b (m_ctx tf)) ?s1"
    by (auto simp: swapcontext_def Let_def simp del: put_fiber_sel(1) split: if_splits)
  with a b show thesis by (rule_tac that)
qed

subsection \<open>The table of objects\<close>

text \<open>
  \<open>fibers_ok\<close>: addresses come from \<open>brk\<close>; \<open>s_fiber_count\<close> counts the objects; a main fiber has
  id 0; the ids of sub fibers are positive, at most \<open>s_fiber_id\<close>, and no two objects share one.
\<close>

definition fibers_ok :: "'z proc_scheme \<Rightarrow> bool" where
  "fibers_ok s \<longleftrightarrow>
     finite (dom (heap s)) \<and> (\<forall>a f. heap s a = Some f \<longrightarrow> a < brk s) \<and>
     s_fiber_count s = of_nat (card (dom (heap s))) \<and>
     (\<forall>a f. heap s a = Some f \<longrightarrow>
        (if m_stack f then 0 < m_id f \<and> m_id f \<le> s_fiber_id s else m_id f = 0)) \<and>
     (\<forall>a b f g. heap s a = Some f \<longrightarrow> heap s b = Some g \<longrightarrow> m_stack f \<longrightarrow> m_id f = m_id g \<longrightarrow> a = b)"

text \<open>\<open>same_objects\<close>: what switching, yielding and resetting leave alone.\<close>

definition shape :: "fiber \<Rightarrow> 64 word \<times> 32 word \<times> bool" where
  "shape f = (m_id f, m_stackSize f, m_stack f)"

definition same_objects :: "'z proc_scheme \<Rightarrow> 'z proc_scheme \<Rightarrow> bool" where
  "same_objects s s' \<longleftrightarrow>
     (\<forall>a. map_option shape (heap s' a) = map_option shape (heap s a)) \<and> brk s' = brk s \<and>
     s_fiber_id s' = s_fiber_id s \<and> s_fiber_count s' = s_fiber_count s"

lemma same_objects_refl [simp]: "same_objects s s"
  by (simp add: same_objects_def)

lemma same_objects_trans: "same_objects s s' \<Longrightarrow> same_objects s' s'' \<Longrightarrow> same_objects s s''"
  by (simp add: same_objects_def)

lemma same_objects_put [intro]:
  "heap s a = Some f \<Longrightarrow> shape f' = shape f \<Longrightarrow> same_objects s (put_fiber a f' s)"
  by (auto simp: same_objects_def)

lemma same_objects_tls [simp]:
  "same_objects s (set_tls t g s') = same_objects s s'"
  "same_objects s (setThis t p s') = same_objects s s'"
  "same_objects s (set_cpu t k s') = same_objects s s'"
  "same_objects (setThis t p s) s' = same_objects s s'"
  by (simp_all add: same_objects_def)

lemma shape_update [simp]:
  "shape (f\<lparr>m_ctx := c\<rparr>) = shape f" "shape (f\<lparr>m_state := st\<rparr>) = shape f"
  "shape (f\<lparr>m_cb := cb\<rparr>) = shape f"
  by (simp_all add: shape_def)

lemma same_objects_dom: "same_objects s s' \<Longrightarrow> dom (heap s') = dom (heap s)"
  unfolding same_objects_def dom_def by (metis map_option_is_None)

lemma same_objects_fiber:
  assumes "same_objects s s'" and "heap s' a = Some f'"
  obtains f where "heap s a = Some f" "m_id f = m_id f'" "m_stack f = m_stack f'"
proof -
  from assms have "map_option shape (heap s a) = Some (shape f')"
    unfolding same_objects_def by (metis option.simps(9))
  then show thesis by (auto simp: shape_def intro: that)
qed

lemma fibers_okD:
  assumes "fibers_ok s" and "heap s a = Some f"
  shows "a < brk s" and "if m_stack f then 0 < m_id f \<and> m_id f \<le> s_fiber_id s else m_id f = 0"
    and "heap s b = Some g \<Longrightarrow> m_stack f \<Longrightarrow> m_id f = m_id g \<Longrightarrow> a = b"
  using assms unfolding fibers_ok_def by blast+

lemma fibers_ok_same_objects:
  assumes ok: "fibers_ok s" and so: "same_objects s s'"
  shows "fibers_ok s'"
proof -
  have eqs: "brk s' = brk s" "s_fiber_id s' = s_fiber_id s" "s_fiber_count s' = s_fiber_count s"
    using so by (simp_all add: same_objects_def)
  show ?thesis
    unfolding fibers_ok_def eqs same_objects_dom [OF so]
  proof (intro conjI allI impI)
    show "finite (dom (heap s))" "s_fiber_count s = of_nat (card (dom (heap s)))"
      using ok by (simp_all add: fibers_ok_def)
  next
    fix a f
    assume "heap s' a = Some f"
    with so obtain g where g: "heap s a = Some g" "m_id g = m_id f" "m_stack g = m_stack f"
      by (rule same_objects_fiber)
    from fibers_okD(1,2) [OF ok g(1)] g(2,3) show "a < brk s"
      and "if m_stack f then 0 < m_id f \<and> m_id f \<le> s_fiber_id s else m_id f = 0"
      by (simp_all split: if_splits)
  next
    fix a b f g
    assume *: "heap s' a = Some f" "heap s' b = Some g" "m_stack f" "m_id f = m_id g"
    obtain f' where f': "heap s a = Some f'" "m_id f' = m_id f" "m_stack f' = m_stack f"
      using so *(1) by (rule same_objects_fiber)
    obtain g' where g': "heap s b = Some g'" "m_id g' = m_id g" "m_stack g' = m_stack g"
      using so *(2) by (rule same_objects_fiber)
    from fibers_okD(3) [OF ok f'(1) g'(1)] f' g' * show "a = b" by simp
  qed
qed

lemma fibers_ok_fresh: "fibers_ok s \<Longrightarrow> heap s (brk s) = None"
  unfolding fibers_ok_def by (metis less_irrefl option.exhaust)

subsection \<open>Operations and the table of objects\<close>

lemma Fiber_main_fields:
  assumes "Fiber_main t s = (a, s')"
  shows "a = brk s" "brk s' = Suc a" "s_fiber_id s' = s_fiber_id s"
    "s_fiber_count s' = s_fiber_count s + 1" "g_fiberStackSize s' = g_fiberStackSize s"
    "heap s' = (heap s)(a := Some \<lparr>m_id = 0, m_stackSize = 0, m_state = State_EXEC,
                                  m_ctx = CtxGot, m_stack = False, m_cb = None\<rparr>)"
    "tls s' = (tls s)(t := (tls s t)\<lparr>t_fiber := Some a\<rparr>)" "proc.more s' = proc.more s"
  using assms by (auto simp: Fiber_main_def Let_def)

lemma Fiber_new_fields:
  assumes "Fiber_new cb sz uc s = (a, s')"
  shows "a = brk s" "brk s' = Suc a" "s_fiber_id s' = s_fiber_id s + 1"
    "s_fiber_count s' = s_fiber_count s + 1" "g_fiberStackSize s' = g_fiberStackSize s"
    "heap s' = (heap s)(a := Some \<lparr>m_id = s_fiber_id s + 1,
        m_stackSize = (if sz \<noteq> 0 then ucast sz else g_fiberStackSize s), m_state = State_INIT,
        m_ctx = CtxEntry (if uc then CallerMainFunc else MainFunc), m_stack = True, m_cb = cb\<rparr>)"
    "tls s' = tls s" "proc.more s' = proc.more s"
  using assms by (auto simp: Fiber_new_def Let_def)

lemma word_less_plus_one: "unat (w :: 64 word) + 1 < 2 ^ 64 \<Longrightarrow> w < w + 1"
  by (simp add: word_less_nat_alt unat_plus_one)

lemma fibers_ok_insert:
  assumes ok: "fibers_ok s"
    and new: "heap s' = (heap s)(brk s := Some f)" "brk s' = Suc (brk s)"
      "s_fiber_count s' = s_fiber_count s + 1"
    and id: "m_id f = (if m_stack f then s_fiber_id s' else 0)"
    and ids: "s_fiber_id s' = (if m_stack f then s_fiber_id s + 1 else s_fiber_id s)"
    and room: "m_stack f \<Longrightarrow> unat (s_fiber_id s) + 1 < 2 ^ 64"
  shows "fibers_ok s'"
proof -
  have fresh: "heap s (brk s) = None" using ok by (rule fibers_ok_fresh)
  have fin: "finite (dom (heap s))" and cnt: "s_fiber_count s = of_nat (card (dom (heap s)))"
    using ok by (simp_all add: fibers_ok_def)
  have card: "card (dom (heap s')) = Suc (card (dom (heap s)))"
    using fin fresh by (simp add: new domIff)
  have le: "s_fiber_id s \<le> s_fiber_id s'"
    and lt: "m_stack f \<Longrightarrow> s_fiber_id s < s_fiber_id s'"
    using word_less_plus_one [OF room] by (auto simp: ids)
  have old: "m_id g < s_fiber_id s' \<or> m_id g = 0" if "heap s b = Some g" "m_stack f" for b g
    using fibers_okD(2) [OF ok that(1)] lt [OF that(2)] by (auto split: if_splits)
  have pos: "m_stack f \<Longrightarrow> 0 < s_fiber_id s'"
    using lt by (metis le_less_trans word_zero_le)
  show ?thesis
    unfolding fibers_ok_def
  proof (intro conjI allI impI)
    show "finite (dom (heap s'))" using fin by (simp add: new)
    show "s_fiber_count s' = of_nat (card (dom (heap s')))"
      by (simp add: card cnt new(3))
  next
    fix a g
    assume a: "heap s' a = Some g"
    show "a < brk s'"
      using a fibers_okD(1) [OF ok] by (auto simp: new less_Suc_eq split: if_splits)
    show "if m_stack g then 0 < m_id g \<and> m_id g \<le> s_fiber_id s' else m_id g = 0"
    proof (cases "a = brk s")
      case True
      with a id pos show ?thesis by (auto simp: new)
    next
      case False
      with a have "heap s a = Some g" by (simp add: new)
      from fibers_okD(2) [OF ok this] le show ?thesis by (auto split: if_splits)
    qed
  next
    fix a b g h
    assume "heap s' a = Some g" "heap s' b = Some h" "m_stack g" "m_id g = m_id h"
    then show "a = b"
      using old id pos fibers_okD(2) [OF ok] fibers_okD(3) [OF ok]
      by (auto simp: new split: if_splits) (metis less_irrefl)+
  qed
qed

lemma fibers_ok_Fiber_main:
  assumes ok: "fibers_ok s" and new: "Fiber_main t s = (a, s')"
  shows "fibers_ok s'"
proof -
  note F = Fiber_main_fields [OF new]
  show ?thesis
    by (rule fibers_ok_insert [OF ok F(6) [unfolded F(1)]]) (simp_all add: F)
qed

lemma fibers_ok_Fiber_new:
  assumes ok: "fibers_ok s" and room: "unat (s_fiber_id s) + 1 < 2 ^ 64"
    and new: "Fiber_new cb sz uc s = (a, s')"
  shows "fibers_ok s'"
proof -
  note F = Fiber_new_fields [OF new]
  show ?thesis
    using room by (intro fibers_ok_insert [OF ok F(6) [unfolded F(1)]]) (simp_all add: F)
qed

lemma same_objects_swapcontext [frame]:
  assumes "swapcontext t from_p to_p k s = Inr s'"
  shows "same_objects s s'"
  using assms
  by (rule swapcontextE) auto

lemma swapcontext_frame [frame]:
  assumes "swapcontext t from_p to_p k s = Inr s'"
  shows "proc.more s' = proc.more s" and "u \<noteq> t \<Longrightarrow> tls s' u = tls s u"
    and "t_fiber (tls s' t) = t_fiber (tls s t)" and "t_threadFiber (tls s' t) = t_threadFiber (tls s t)"
    and "t_mainFiber (tls s' t) = t_mainFiber (tls s t)"
    and "map_option m_state (heap s' b) = map_option m_state (heap s b)"
  using assms by (auto elim!: swapcontextE)

lemma same_objects_into:
  assumes "swapcontext t p q k (put_fiber a f' (setThis t r s)) = Inr s'"
    and "heap s a = Some f" and "shape f' = shape f"
  shows "same_objects s s'"
proof -
  have "same_objects s (put_fiber a f' (setThis t r s))"
    using assms(2,3) by (auto simp: same_objects_def)
  from this same_objects_swapcontext [OF assms(1)] show ?thesis by (rule same_objects_trans)
qed

lemma same_objects_swapIn [frame]: "swapIn t a k s = Inr s' \<Longrightarrow> same_objects s s'"
  by (auto simp: swapIn_def Let_def intro: same_objects_into)

lemma same_objects_Fiber_call [frame]: "Fiber_call t a k s = Inr s' \<Longrightarrow> same_objects s s'"
  by (auto simp: Fiber_call_def Let_def intro: same_objects_into)

lemma same_objects_swapOut [frame]: "swapOut t a k s = Inr s' \<Longrightarrow> same_objects s s'"
  unfolding swapOut_def Let_def
  by (drule same_objects_swapcontext) simp

lemma same_objects_Fiber_back [frame]: "Fiber_back t a k s = Inr s' \<Longrightarrow> same_objects s s'"
  by (auto simp: Fiber_back_def Let_def dest: same_objects_swapcontext)

lemma same_objects_Fiber_reset [frame]: "Fiber_reset a cb s = Inr s' \<Longrightarrow> same_objects s s'"
  by (auto simp: Fiber_reset_def)

lemma same_objects_mainFunc_return [frame]: "mainFunc_return e c t s = Inr s' \<Longrightarrow> same_objects s s'"
  by (auto simp: mainFunc_return_def intro!: same_objects_put)

lemma same_objects_mainFunc_catch [frame]: "mainFunc_catch e c t s = Inr s' \<Longrightarrow> same_objects s s'"
  by (auto simp: mainFunc_catch_def intro!: same_objects_put)

lemma same_objects_mainFunc_leave [frame]: "mainFunc_leave e c t s = Inr s' \<Longrightarrow> same_objects s s'"
  by (auto simp: mainFunc_leave_def split: entry.splits
      intro: same_objects_swapOut same_objects_Fiber_back)

lemma getThis_Some [simp]:
  "t_fiber (tls s t) = Some a \<Longrightarrow> getThis t s = rbind (fiber_at (Some a) s) (\<lambda>_. Inr (a, s))"
  by (simp add: getThis_def)

lemma fibers_ok_getThis: "fibers_ok s \<Longrightarrow> getThis t s = Inr (a, s') \<Longrightarrow> fibers_ok s'"
  by (auto simp: getThis_def split: option.splits prod.splits
      intro: fibers_ok_same_objects [OF fibers_ok_Fiber_main])

lemma fibers_ok_Fiber_delete:
  assumes ok: "fibers_ok s" and del: "Fiber_delete t a s = Inr s'"
  shows "fibers_ok s'" and "dom (heap s') = dom (heap s) - {a}"
proof -
  from del obtain f where f: "heap s a = Some f"
    by (auto simp: Fiber_delete_def Let_def)
  have h: "heap s' = (heap s)(a := None)" and eqs: "brk s' = brk s" "s_fiber_id s' = s_fiber_id s"
    "s_fiber_count s' = s_fiber_count s - 1"
    using del by (auto simp: Fiber_delete_def Let_def split: if_splits)
  show dom: "dom (heap s') = dom (heap s) - {a}"
    using h by auto
  have fin: "finite (dom (heap s))" and c: "s_fiber_count s = of_nat (card (dom (heap s)))"
    using ok by (simp_all add: fibers_ok_def)
  have "card (dom (heap s)) = Suc (card (dom (heap s) - {a}))"
    using fin f by (metis card_Suc_Diff1 domI)
  then have "s_fiber_count s' = of_nat (card (dom (heap s')))"
    using eqs(3) c dom by simp
  then show "fibers_ok s'"
    using ok fin unfolding fibers_ok_def eqs(1,2) dom by (simp add: h)
qed

text \<open>
  No operation of this theory touches the extension fields of the state (the scheduler's members)
  or another thread's variables.
\<close>

lemma proc_more_eqD:
  "proc.more s' = proc.more s \<Longrightarrow>
   s' = s\<lparr>s_fiber_id := s_fiber_id s', s_fiber_count := s_fiber_count s',
          g_fiberStackSize := g_fiberStackSize s', heap := heap s', brk := brk s', tls := tls s'\<rparr>"
  by (cases s rule: proc.cases_scheme; cases s' rule: proc.cases_scheme) simp

definition thread_local_only :: "tid \<Rightarrow> 'z proc_scheme \<Rightarrow> 'z proc_scheme \<Rightarrow> bool" where
  "thread_local_only t s s' \<longleftrightarrow>
     proc.more s' = proc.more s \<and> (\<forall>u. u \<noteq> t \<longrightarrow> tls s' u = tls s u) \<and>
     g_fiberStackSize s' = g_fiberStackSize s"

lemma thread_local_only_refl [simp]: "thread_local_only t s s"
  by (simp add: thread_local_only_def)

lemma thread_local_only_simps [simp]:
  "thread_local_only t s (put_fiber a f s') = thread_local_only t s s'"
  "thread_local_only t s (set_tls t g s') = thread_local_only t s s'"
  "thread_local_only t s (setThis t p s') = thread_local_only t s s'"
  "thread_local_only t s (set_cpu t k s') = thread_local_only t s s'"
  by (auto simp: thread_local_only_def)

lemma thread_local_only_trans:
  "thread_local_only t s s' \<Longrightarrow> thread_local_only t s' s'' \<Longrightarrow> thread_local_only t s s''"
  by (simp add: thread_local_only_def)

lemma thread_local_only_swapcontext [frame]:
  "swapcontext t p q k s' = Inr s'' \<Longrightarrow> thread_local_only t s s' \<Longrightarrow> thread_local_only t s s''"
  by (erule swapcontextE) simp

lemma thread_local_only_ops [frame]:
  "swapIn t a k s = Inr s' \<Longrightarrow> thread_local_only t s s'"
  "swapOut t a k s = Inr s' \<Longrightarrow> thread_local_only t s s'"
  "Fiber_call t a k s = Inr s' \<Longrightarrow> thread_local_only t s s'"
  "Fiber_back t a k s = Inr s' \<Longrightarrow> thread_local_only t s s'"
  "Fiber_reset a cb s = Inr s' \<Longrightarrow> thread_local_only t s s'"
  by (auto simp: swapIn_def swapOut_def Fiber_call_def Fiber_back_def Fiber_reset_def Let_def
      elim!: thread_local_only_swapcontext)

lemma thread_local_only_new [frame]:
  "Fiber_new cb sz uc s = (a, s') \<Longrightarrow> thread_local_only t s s'"
  "Fiber_main t s = (a, s') \<Longrightarrow> thread_local_only t s s'"
  by (auto simp: thread_local_only_def Fiber_new_def Fiber_main_def Let_def)

lemma thread_local_only_getThis [frame]:
  "getThis t s = Inr (a, s') \<Longrightarrow> thread_local_only t s s'"
  by (auto simp: getThis_def split: option.splits prod.splits dest: thread_local_only_new(2))

lemma thread_local_only_yield_store [frame]:
  "yield_store st t s = Inr (a, s') \<Longrightarrow> thread_local_only t s s'"
  by (auto simp: yield_store_def dest: thread_local_only_getThis)

lemma thread_local_only_mainFunc [frame]:
  "mainFunc_return e cur t s = Inr s' \<Longrightarrow> thread_local_only t s s'"
  "mainFunc_catch e cur t s = Inr s' \<Longrightarrow> thread_local_only t s s'"
  "mainFunc_leave e cur t s = Inr s' \<Longrightarrow> thread_local_only t s s'"
  by (auto simp: mainFunc_return_def mainFunc_catch_def mainFunc_leave_def
      split: entry.splits intro: thread_local_only_ops)

lemma thread_local_only_mainFunc_enter [frame]:
  assumes "mainFunc_enter e t s = Inr s'"
  shows "thread_local_only t s s'"
proof -
  from assms obtain p where g: "getThis t s = Inr p"
    and r: "(case p of (cur, s1) \<Rightarrow> rbind (fiber_at (Some cur) s1) (\<lambda>f.
         case m_cb f of
           None \<Rightarrow> mainFunc_catch e cur t s1
         | Some cb \<Rightarrow> Inr (set_cpu t (KBody e cur cb) s1))) = Inr s'"
    unfolding mainFunc_enter_def by (rule rbindE)
  obtain cur s1 where p: "p = (cur, s1)" by (cases p)
  from r have "thread_local_only t s1 s'"
    by (auto simp: p split: option.splits intro: thread_local_only_mainFunc)
  with thread_local_only_getThis g p show ?thesis by (blast intro: thread_local_only_trans)
qed

subsection \<open>Switching forth and back\<close>

lemma swapIn_ok:
  assumes "t_mainFiber (tls s t) = Some m" "heap s m = Some mf" "heap s a = Some f" "a \<noteq> m"
    and "m_state f \<noteq> State_EXEC" "m_ctx f \<noteq> CtxGot"
  shows "swapIn t a k s =
    Inr (set_tls t (resume a (m_ctx f))
          (put_fiber m (mf\<lparr>m_ctx := CtxSaved (cpu_stack (tls s t)) k\<rparr>)
            (put_fiber a (f\<lparr>m_state := State_EXEC\<rparr>) (setThis t (Some a) s))))"
  using assms by (simp add: swapIn_def Let_def fiber_at_def swapcontext_neq)

lemma swapOut_ok:
  assumes "t_mainFiber (tls s t) = Some m" "heap s m = Some mf" "heap s a = Some f" "a \<noteq> m"
    and "m_ctx mf \<noteq> CtxGot"
  shows "swapOut t a k s =
    Inr (set_tls t (resume m (m_ctx mf))
          (put_fiber a (f\<lparr>m_ctx := CtxSaved (cpu_stack (tls s t)) k\<rparr>) (setThis t (Some m) s)))"
  using assms by (simp add: swapOut_def Let_def swapcontext_neq)

lemma yield_store_ok:
  assumes "t_fiber (tls s t) = Some a" "t_threadFiber (tls s t) \<noteq> Some a" "heap s a = Some f"
  shows "yield_store st t s = Inr (a, put_fiber a (f\<lparr>m_state := st\<rparr>) s)"
  using assms by (simp add: yield_store_def fiber_at_def server_assert_def)

subsection \<open>Properties\<close>

text \<open>
  A new sub fiber gets the next id, which no object of the process has, an address no object
  has, the state INIT and the entry function its \<open>useCaller\<close> argument asks for, and the table
  of objects stays consistent (\<open>s_fiber_count\<close> counts the objects, ids are unique), as long as
  the 64-bit id counter has not wrapped around.
\<close>

theorem Fiber_new_fresh:
  assumes ok: "fibers_ok s" and room: "unat (s_fiber_id s) + 1 < 2 ^ 64"
    and new: "Fiber_new cb sz uc s = (a, s')"
  shows "heap s a = None \<and> fibers_ok s' \<and> totalFibers s' = totalFibers s + 1 \<and>
    (\<exists>f. heap s' a = Some f \<and> m_state f = State_INIT \<and> m_cb f = cb \<and>
         m_ctx f = CtxEntry (if uc then CallerMainFunc else MainFunc) \<and>
         unat (m_id f) = unat (s_fiber_id s) + 1 \<and>
         (\<forall>b g. heap s b = Some g \<longrightarrow> m_id g \<noteq> m_id f))"
proof -
  note F = Fiber_new_fields [OF new]
  have "m_id g \<noteq> s_fiber_id s + 1" if "heap s b = Some g" for b g
    using fibers_okD(2) [OF ok that] word_less_plus_one [OF room] by (auto split: if_splits)
  moreover have "fibers_ok s'" using ok room new by (rule fibers_ok_Fiber_new)
  moreover have "heap s a = None" using fibers_ok_fresh [OF ok] by (simp add: F)
  ultimately show ?thesis
    using room by (auto simp: F unat_plus_one totalFibers_def)
qed

theorem Fiber_new_fresh_witness:
  "fibers_ok init_proc \<and>
   unat (m_id (the (heap (snd (Fiber_new (Some (Client [])) 0 False init_proc)) 0))) = 1"
proof -
  have ok: "fibers_ok init_proc" by (simp add: fibers_ok_def init_proc_def)
  have room: "unat (s_fiber_id init_proc) + 1 < 2 ^ 64" by (simp add: init_proc_def)
  have "Fiber_new (Some (Client [])) 0 False init_proc
      = (0, snd (Fiber_new (Some (Client [])) 0 False init_proc))"
    by (simp add: Fiber_new_def Let_def init_proc_def)
  from Fiber_new_fresh [OF ok room this] ok show ?thesis by (auto simp: init_proc_def)
qed

text \<open>
  C20. \<open>swapIn\<close> from a scheduler's main fiber followed by \<open>yieldToReady\<close> or \<open>yieldToHold\<close> of the
  fiber is a round trip: while it runs, the fiber is the thread's current one, in state EXEC and
  at the point where it was suspended; afterwards the caller continues on its own stack, the main
  fiber is current again, the fiber is in the state it yielded with and suspended at its new
  point on its own stack, and every other object is untouched.
\<close>

theorem swapIn_yield_roundtrip:
  assumes main: "t_mainFiber (tls s t) = Some m" "heap s m = Some mf"
    and fib: "heap s a = Some f" "a \<noteq> m" "m_state f \<noteq> State_EXEC" "m_ctx f = CtxSaved (Heap a) kf"
    and not_main: "t_threadFiber (tls s t) \<noteq> Some a"
  shows "\<exists>s1 s2. swapIn t a k s = Inr s1 \<and>
     cpu (tls s1 t) = kf \<and> cpu_stack (tls s1 t) = Heap a \<and> t_fiber (tls s1 t) = Some a \<and>
     heap s1 a = Some (f\<lparr>m_state := State_EXEC\<rparr>) \<and>
     (if ready then yieldToReady t k2 s1 else yieldToHold t k2 s1) = Inr s2 \<and>
     cpu (tls s2 t) = k \<and> cpu_stack (tls s2 t) = cpu_stack (tls s t) \<and>
     t_fiber (tls s2 t) = Some m \<and>
     heap s2 = (heap s)(m := Some (mf\<lparr>m_ctx := CtxSaved (cpu_stack (tls s t)) k\<rparr>),
       a := Some (f\<lparr>m_state := (if ready then State_READY else State_HOLD),
                    m_ctx := CtxSaved (Heap a) k2\<rparr>))"
proof -
  obtain s1 where s1: "swapIn t a k s = Inr s1"
    and h1: "heap s1 = (heap s)(m := Some (mf\<lparr>m_ctx := CtxSaved (cpu_stack (tls s t)) k\<rparr>),
        a := Some (f\<lparr>m_state := State_EXEC\<rparr>))"
    and l1: "tls s1 = (tls s)(t := (tls s t)\<lparr>t_fiber := Some a, cpu_stack := Heap a, cpu := kf\<rparr>)"
    using fib swapIn_ok [OF main fib(1-3), of k] by (auto simp: fun_upd_twist)
  let ?st = "if ready then State_READY else State_HOLD"
  let ?s2 = "put_fiber a (f\<lparr>m_state := ?st\<rparr>) s1"
  have "yield_store ?st t s1 = Inr (a, ?s2)"
    using not_main fib by (simp add: yield_store_ok [of s1 t a] l1 h1)
  moreover have "\<exists>s3. swapOut t a k2 ?s2 = Inr s3 \<and> cpu (tls s3 t) = k \<and>
      cpu_stack (tls s3 t) = cpu_stack (tls s t) \<and> t_fiber (tls s3 t) = Some m \<and>
      heap s3 = (heap s)(m := Some (mf\<lparr>m_ctx := CtxSaved (cpu_stack (tls s t)) k\<rparr>),
        a := Some (f\<lparr>m_state := ?st, m_ctx := CtxSaved (Heap a) k2\<rparr>))"
    using main fib by (simp add: swapOut_ok [of _ t m] l1 h1 fun_upd_twist)
  ultimately show ?thesis
    using s1 by (auto simp: h1 l1 yieldToReady_def yieldToHold_def)
qed

text \<open>
  A small process for the examples: on thread 7 the main fiber at address 0 runs natively, and a
  sub fiber at address 1 is suspended on its own stack, at the start of its callback.
\<close>

definition demo_proc :: proc where
  "demo_proc = init_proc\<lparr>
     s_fiber_id := 1, s_fiber_count := 2, brk := 2,
     heap := Map.empty(
       0 := Some \<lparr>m_id = 0, m_stackSize = 0, m_state = State_EXEC, m_ctx = CtxGot,
                  m_stack = False, m_cb = None\<rparr>,
       1 := Some \<lparr>m_id = 1, m_stackSize = 4096, m_state = State_HOLD,
                  m_ctx = CtxSaved (Heap 1) (KBody MainFunc 1 (Client [])),
                  m_stack = True, m_cb = Some (Client [])\<rparr>),
     tls := init_tls(7 := (init_tls 7)\<lparr>t_fiber := Some 0, t_threadFiber := Some 0,
                                       t_mainFiber := Some 0, cpu := KRun None\<rparr>)\<rparr>"

lemma fibers_ok_demo: "fibers_ok demo_proc"
proof -
  have "dom (heap demo_proc) = {0, 1}" by (auto simp: demo_proc_def)
  then show ?thesis by (auto simp: fibers_ok_def demo_proc_def split: if_splits)
qed

theorem swapIn_yield_roundtrip_witness:
  "\<exists>s1 s2. swapIn 7 1 (KRun None) demo_proc = Inr s1 \<and> yieldToReady 7 (KNever 1) s1 = Inr s2 \<and>
     t_fiber (tls s1 7) = Some 1 \<and> cpu (tls s2 7) = KRun None \<and> t_fiber (tls s2 7) = Some 0"
proof -
  have m: "t_mainFiber (tls demo_proc 7) = Some 0" "t_threadFiber (tls demo_proc 7) \<noteq> Some 1"
    by (simp_all add: demo_proc_def)
  obtain mf where mf: "heap demo_proc 0 = Some mf" by (simp add: demo_proc_def)
  obtain f where f: "heap demo_proc 1 = Some f" "m_state f \<noteq> State_EXEC"
      "m_ctx f = CtxSaved (Heap 1) (KBody MainFunc 1 (Client []))"
    by (simp add: demo_proc_def)
  from swapIn_yield_roundtrip [where ready = True, OF m(1) mf f(1) _ f(2,3) m(2), of "KRun None"]
  show ?thesis by fastforce
qed

text \<open>
  The destructor of a sub fiber aborts exactly when the fiber is suspended, ready or running
  (HOLD, READY, EXEC); otherwise it removes the object and one from the fiber count.
\<close>

theorem Fiber_delete_sub:
  assumes ok: "fibers_ok s" and f: "heap s a = Some f" "m_stack f"
  shows "(if m_state f \<in> {State_HOLD, State_READY, State_EXEC}
          then Fiber_delete t a s = Inl (AssertionFailed ''m_state'')
          else \<exists>s'. Fiber_delete t a s = Inr s' \<and> heap s' = (heap s)(a := None) \<and> fibers_ok s' \<and>
                 totalFibers s' = totalFibers s - 1 \<and> tls s' = tls s)"
proof (cases "m_state f \<in> {State_HOLD, State_READY, State_EXEC}")
  case True
  with f show ?thesis by (auto simp: Fiber_delete_def fiber_at_def server_assert_def)
next
  case False
  then have "m_state f = State_TERM \<or> m_state f = State_EXCEPT \<or> m_state f = State_INIT"
    by (cases "m_state f") simp_all
  with f obtain s' where s': "Fiber_delete t a s = Inr s'"
    and s'_def: "s' = s\<lparr>s_fiber_count := s_fiber_count s - 1, heap := (heap s)(a := None)\<rparr>"
    by (auto simp: Fiber_delete_def fiber_at_def)
  from False s' fibers_ok_Fiber_delete(1) [OF ok s'] show ?thesis
    by (simp add: s'_def totalFibers_def)
qed

theorem Fiber_delete_sub_witness:
  "Fiber_delete 7 1 demo_proc = Inl (AssertionFailed ''m_state'')"
  using Fiber_delete_sub [OF fibers_ok_demo, of 1 _ 7] by (simp add: demo_proc_def)

text \<open>
  C21. A life of a fiber. A fiber that has not started is switched to and enters \<open>mainFunc\<close>. When
  its callback returns, it is TERM and has given its callback up; when the callback throws, it is
  EXCEPT and still holds it. Either way the last switch resumes the caller with the main fiber
  current, and \<open>reset\<close> makes the object ready to start a new callback from the beginning.
\<close>

theorem mainFunc_lifecycle:
  assumes main: "t_mainFiber (tls s t) = Some m" "heap s m = Some mf"
    and fib: "heap s a = Some f" "a \<noteq> m" "m_state f \<noteq> State_EXEC" "m_ctx f = CtxEntry MainFunc"
    and cb: "m_cb f = Some cb" and stk: "m_stack f"
  shows "\<exists>s1 s2 s3 s4 s5. swapIn t a k s = Inr s1 \<and> cpu (tls s1 t) = KEntry MainFunc \<and>
     mainFunc_enter MainFunc t s1 = Inr s2 \<and> cpu (tls s2 t) = KBody MainFunc a cb \<and>
     (if throws then mainFunc_catch MainFunc a t s2 else mainFunc_return MainFunc a t s2) = Inr s3 \<and>
     cpu (tls s3 t) = KEpilogue MainFunc a \<and> mainFunc_leave MainFunc a t s3 = Inr s4 \<and>
     cpu (tls s4 t) = k \<and> cpu_stack (tls s4 t) = cpu_stack (tls s t) \<and>
     t_fiber (tls s4 t) = Some m \<and>
     map_option m_state (heap s4 a) = Some (if throws then State_EXCEPT else State_TERM) \<and>
     map_option m_cb (heap s4 a) = Some (if throws then Some cb else None) \<and>
     Fiber_reset a cb' s4 = Inr s5 \<and>
     heap s5 a = Some (f\<lparr>m_cb := cb', m_ctx := CtxEntry MainFunc, m_state := State_INIT\<rparr>)"
proof -
  let ?mf = "mf\<lparr>m_ctx := CtxSaved (cpu_stack (tls s t)) k\<rparr>"
  obtain s1 where s1: "swapIn t a k s = Inr s1"
    and h1: "heap s1 = (heap s)(m := Some ?mf, a := Some (f\<lparr>m_state := State_EXEC\<rparr>))"
    and l1: "tls s1 = (tls s)(t := (tls s t)\<lparr>t_fiber := Some a, cpu_stack := Heap a,
                                            cpu := KEntry MainFunc\<rparr>)"
    using fib swapIn_ok [OF main fib(1-3), of k] by (auto simp: fun_upd_twist)
  let ?s2 = "set_cpu t (KBody MainFunc a cb) s1"
  have s2: "mainFunc_enter MainFunc t s1 = Inr ?s2"
    using cb by (simp add: mainFunc_enter_def l1 h1 fiber_at_def)
  let ?f3 = "if throws then f\<lparr>m_state := State_EXCEPT\<rparr> else f\<lparr>m_cb := None, m_state := State_TERM\<rparr>"
  let ?s3 = "set_cpu t (KEpilogue MainFunc a) (put_fiber a ?f3 ?s2)"
  have s3: "(if throws then mainFunc_catch MainFunc a t ?s2 else mainFunc_return MainFunc a t ?s2)
      = Inr ?s3"
    by (simp add: mainFunc_catch_def mainFunc_return_def h1 fiber_at_def)
  obtain s4 where s4: "mainFunc_leave MainFunc a t ?s3 = Inr s4"
    and h4: "heap s4 a = Some (?f3\<lparr>m_ctx := CtxSaved (Heap a) (KNever a)\<rparr>)"
    and l4: "tls s4 t = (tls s t)\<lparr>t_fiber := Some m, cpu := k\<rparr>"
    using main fib by (simp add: mainFunc_leave_def swapOut_ok [of _ t m] l1 h1)
  have "Fiber_reset a cb' s4 =
      Inr (put_fiber a (f\<lparr>m_cb := cb', m_ctx := CtxEntry MainFunc, m_state := State_INIT\<rparr>) s4)"
    using stk by (simp add: Fiber_reset_def h4 fiber_at_def)
  with s1 s2 s3 s4 show ?thesis
    by (intro exI conjI) (auto simp: l1 l4 h4 cb)
qed

definition demo_fresh :: proc where
  "demo_fresh = put_fiber 1 (the (heap demo_proc 1)\<lparr>m_state := State_INIT,
                  m_ctx := CtxEntry MainFunc\<rparr>) demo_proc"

theorem mainFunc_lifecycle_witness:
  "\<exists>s1 s3 (s4 :: proc). swapIn 7 1 (KRun None) demo_fresh = Inr s1 \<and>
     mainFunc_leave MainFunc 1 7 s3 = Inr s4 \<and> cpu (tls s4 7) = KRun None \<and>
     map_option m_state (heap s4 1) = Some State_EXCEPT"
proof -
  have m: "t_mainFiber (tls demo_fresh 7) = Some 0" by (simp add: demo_fresh_def demo_proc_def)
  obtain mf where mf: "heap demo_fresh 0 = Some mf" by (simp add: demo_fresh_def demo_proc_def)
  obtain f where f: "heap demo_fresh 1 = Some f" "m_state f \<noteq> State_EXEC"
      "m_ctx f = CtxEntry MainFunc" "m_cb f = Some (Client [])" "m_stack f"
    by (simp add: demo_fresh_def demo_proc_def)
  have "(1::faddr) \<noteq> 0" by simp
  from mainFunc_lifecycle [where throws = True and k = "KRun None" and cb' = None, OF m mf f(1) this f(2-)]
  show ?thesis by (simp only: if_True) blast
qed

text \<open>
  \<open>swapIn\<close> belongs to the main fiber. If a running sub fiber \<open>a\<close> itself switches to another
  fiber \<open>b\<close>, the main fiber's context is overwritten by \<open>a\<close>'s. When \<open>b\<close> yields, \<open>a\<close> continues,
  but with the main fiber as the thread's current fiber, so the next yield of \<open>a\<close> on a worker
  thread aborts and the main fiber's own continuation is lost.
\<close>

theorem nested_swapIn_aborts:
  assumes main: "t_mainFiber (tls s t) = Some m" "t_threadFiber (tls s t) = Some m"
      "heap s m = Some mf"
    and a: "cpu_stack (tls s t) = Heap a" "a \<noteq> m"
    and b: "heap s b = Some f" "b \<noteq> m" "m_state f \<noteq> State_EXEC" "m_ctx f = CtxSaved (Heap b) kb"
  shows "\<exists>s1 s2. swapIn t b ka s = Inr s1 \<and> yieldToHold t kb' s1 = Inr s2 \<and>
     cpu_stack (tls s2 t) = Heap a \<and> cpu (tls s2 t) = ka \<and>
     map_option m_ctx (heap s2 m) = Some (CtxSaved (Heap a) ka) \<and>
     yieldToHold t k' s2 = Inl (AssertionFailed ''t_fiber != t_threadFiber.get()'')"
proof -
  have nm: "t_threadFiber (tls s t) \<noteq> Some b" using main b by simp
  obtain s1 where s1: "swapIn t b ka s = Inr s1"
    and h1: "heap s1 = (heap s)(m := Some (mf\<lparr>m_ctx := CtxSaved (Heap a) ka\<rparr>),
        b := Some (f\<lparr>m_state := State_EXEC\<rparr>))"
    and l1: "tls s1 = (tls s)(t := (tls s t)\<lparr>t_fiber := Some b, cpu_stack := Heap b, cpu := kb\<rparr>)"
    using b a swapIn_ok [OF main(1,3) b(1-3), of ka] by (auto simp: fun_upd_twist)
  obtain s2 where s2: "yieldToHold t kb' s1 = Inr s2"
    and h2: "heap s2 m = Some (mf\<lparr>m_ctx := CtxSaved (Heap a) ka\<rparr>)"
    and l2: "tls s2 t = (tls s t)\<lparr>t_fiber := Some m, cpu := ka\<rparr>"
    using main a b nm
    by (simp add: yieldToHold_def yield_store_ok [of s1 t b] swapOut_ok [of _ t m] h1 l1)
  have "yieldToHold t k' s2 = Inl (AssertionFailed ''t_fiber != t_threadFiber.get()'')"
    using main by (simp add: yieldToHold_def yield_store_def l2)
  with s1 s2 h2 l2 a show ?thesis by auto
qed

definition demo_nested :: proc where
  "demo_nested = set_tls 7 (\<lambda>l. l\<lparr>t_fiber := Some 5, cpu_stack := Heap 5\<rparr>) demo_proc"

theorem nested_swapIn_aborts_witness:
  "\<exists>s1 s2. swapIn 7 1 KOutside demo_nested = Inr s1 \<and> yieldToHold 7 KOutside s1 = Inr s2 \<and>
     cpu_stack (tls s2 7) = Heap 5 \<and>
     yieldToHold 7 KOutside s2 = Inl (AssertionFailed ''t_fiber != t_threadFiber.get()'')"
proof -
  have m: "t_mainFiber (tls demo_nested 7) = Some 0" "t_threadFiber (tls demo_nested 7) = Some 0"
    "cpu_stack (tls demo_nested 7) = Heap 5" by (simp_all add: demo_nested_def demo_proc_def)
  obtain mf where mf: "heap demo_nested 0 = Some mf" by (simp add: demo_nested_def demo_proc_def)
  obtain f where f: "heap demo_nested 1 = Some f" "m_state f \<noteq> State_EXEC"
      "m_ctx f = CtxSaved (Heap 1) (KBody MainFunc 1 (Client []))"
    by (simp add: demo_nested_def demo_proc_def)
  have "(5::faddr) \<noteq> 0" "(1::faddr) \<noteq> 0" by simp_all
  from nested_swapIn_aborts [OF m(1,2) mf m(3) this(1) f(1) this(2) f(2,3)]
  show ?thesis by blast
qed

text \<open>
  \<open>swapIn\<close> on a thread without a scheduler (\<open>Scheduler::getMainFiber()\<close> is null, as in
  tests/test_fiber.cpp) follows a null pointer, whatever fiber that has not EXEC state it is
  given.
\<close>

theorem swapIn_without_scheduler:
  assumes "t_mainFiber (tls s t) = None" and "heap s a = Some f" and "m_state f \<noteq> State_EXEC"
  shows "swapIn t a k s = Inl (BadAccess ''null Fiber*'')"
  using assms by (simp add: swapIn_def Let_def fiber_at_def swapcontext_def)

theorem swapIn_without_scheduler_witness:
  "swapIn 7 1 KOutside (set_tls 7 (t_mainFiber_update (\<lambda>_. None)) demo_proc)
     = Inl (BadAccess ''null Fiber*'')"
  by (rule swapIn_without_scheduler [where f = "the (heap demo_proc 1)"])
    (simp_all add: demo_proc_def)

end
