(* ===== verification/Schedulers.thy ===== *)
theory Schedulers
  imports Fibers
begin

section \<open>The scheduler's state and interface (source/scheduler.hpp, source/scheduler.cpp)\<close>

text \<open>
  The members of the class \<open>Scheduler\<close> are added to the process state: \<open>sys\<close> is a process with one
  scheduler object. \<open>task\<close> is \<open>FiberAndThread\<close>. A thread of the pool is known by its name and its
  kernel id. \<open>run_frame\<close> holds the local variables of an activation of \<open>Scheduler::run\<close> and where it
  is (theory \<open>SchedulerRun\<close>); a thread has at most one, so it is kept per thread.
  The virtual member functions are passed in a \<open>vtable\<close>: a derived class (\<open>IOManager\<close>) overrides
  \<open>notify\<close>, \<open>stopped\<close> and \<open>idle\<close>, and \<open>schedule\<close>, \<open>stop\<close> and \<open>run\<close> call what the object has.
  The overload \<open>schedule(begin, end)\<close> is not modelled: no code instantiates it and its body calls
  \<open>scheduleNoLock\<close> with one argument, so it does not compile.
\<close>

record task =
  ft_fiber :: "faddr option"
  ft_cb :: "callback option"
  ft_thread :: int

definition empty_task :: task where
  "empty_task = \<lparr>ft_fiber = None, ft_cb = None, ft_thread = -1\<rparr>"

definition fiber_task :: "faddr \<Rightarrow> int \<Rightarrow> task" where
  "fiber_task a thr = \<lparr>ft_fiber = Some a, ft_cb = None, ft_thread = thr\<rparr>"

definition cb_task :: "callback \<Rightarrow> int \<Rightarrow> task" where
  "cb_task cb thr = \<lparr>ft_fiber = None, ft_cb = Some cb, ft_thread = thr\<rparr>"

text \<open>
  Points of \<open>Scheduler::run\<close>: before its first statement; at the head of the loop; after the queue
  was searched, with the values of \<open>notifyMe\<close> and \<open>isActive\<close>; suspended in (or just back from) the
  \<open>swapIn\<close> of \<open>ft.fiber\<close>, \<open>cbFiber\<close> or \<open>idleFiber\<close>; after the decrement of
  \<open>m_activeThreadCount\<close> that follows the first two; after the loop.
\<close>

datatype run_pc =
    PcEnter
  | PcLoop
  | PcDispatch bool bool
  | PcBackFiber
  | PcRequeueFiber
  | PcBackCb
  | PcRequeueCb
  | PcBackIdle
  | PcReturn

record run_frame =
  pc :: run_pc
  ft :: task
  cbFiber :: "faddr option"
  idleFiber :: faddr

record sys = proc +
  m_fibers :: "task list"
  m_threads :: "(string \<times> tid) list"
  m_rootFiber :: "faddr option"
  m_name :: string
  m_threadIds :: "int list"
  m_threadCount :: "64 word"
  m_activeThreadCount :: "64 word"
  m_idleThreadCount :: "64 word"
  m_isRunning :: bool
  m_autoStop :: bool
  m_rootThread :: int
  frames :: "tid \<Rightarrow> run_frame option"

record 'a vtable =
  v_notify :: "'a \<Rightarrow> 'a res"
  v_stopped :: "'a \<Rightarrow> bool"
  v_idle :: "entry \<Rightarrow> faddr \<Rightarrow> tid \<Rightarrow> 'a \<Rightarrow> 'a res"

subsection \<open>The virtual functions of the base class\<close>

text \<open>\<open>Scheduler::notify\<close> only writes a log line.\<close>

definition Scheduler_notify :: "'z sys_scheme \<Rightarrow> 'z sys_scheme res" where
  "Scheduler_notify s = Inr s"

definition Scheduler_stopped :: "'z sys_scheme \<Rightarrow> bool" where
  "Scheduler_stopped s \<longleftrightarrow>
     m_autoStop s \<and> \<not> m_isRunning s \<and> m_fibers s = [] \<and> m_activeThreadCount s = 0"

text \<open>
  One turn of the loop of \<open>Scheduler::idle\<close>, running as the callback of the fiber \<open>cur\<close>: return
  when \<open>stopped()\<close> (a virtual call), else the first half of \<open>yieldToHold\<close>.
\<close>

definition Scheduler_idle ::
    "('z sys_scheme \<Rightarrow> bool) \<Rightarrow> entry \<Rightarrow> faddr \<Rightarrow> tid \<Rightarrow> 'z sys_scheme \<Rightarrow> 'z sys_scheme res" where
  "Scheduler_idle stopped e cur t s =
     (if stopped s then mainFunc_return e cur t s
      else rbind (yield_store State_HOLD t s) (\<lambda>(a, s1).
             Inr (set_cpu t (KYield e cur a SchedulerIdle) s1)))"

definition scheduler_vt :: "'z sys_scheme vtable" where
  "scheduler_vt = \<lparr>v_notify = Scheduler_notify, v_stopped = Scheduler_stopped,
                   v_idle = Scheduler_idle Scheduler_stopped\<rparr>"

definition hasIdleThreads :: "'z sys_scheme \<Rightarrow> bool" where
  "hasIdleThreads s \<longleftrightarrow> 0 < m_idleThreadCount s"

subsection \<open>Scheduling\<close>

text \<open>Returns \<open>needNotify\<close>. An empty task is dropped.\<close>

definition scheduleNoLock :: "task \<Rightarrow> 'z sys_scheme \<Rightarrow> bool \<times> 'z sys_scheme" where
  "scheduleNoLock x s =
     (m_fibers s = [],
      if ft_fiber x \<noteq> None \<or> ft_cb x \<noteq> None then s\<lparr>m_fibers := m_fibers s @ [x]\<rparr> else s)"

definition schedule :: "'z sys_scheme vtable \<Rightarrow> task \<Rightarrow> 'z sys_scheme \<Rightarrow> 'z sys_scheme res" where
  "schedule vt x s =
     (let (needNotify, s1) = scheduleNoLock x s
      in if needNotify then v_notify vt s1 else Inr s1)"

subsection \<open>Construction and destruction\<close>

text \<open>
  \<open>Scheduler::Scheduler(threads, useCaller, name)\<close> executed by thread \<open>t\<close>; \<open>s\<close> holds a scheduler
  object whose members have their default initialisers (\<open>fresh_scheduler\<close>).
\<close>

definition fresh_scheduler :: "proc \<Rightarrow> sys" where
  "fresh_scheduler p = proc.extend p
     \<lparr>m_fibers = [], m_threads = [], m_rootFiber = None, m_name = [], m_threadIds = [],
      m_threadCount = 0, m_activeThreadCount = 0, m_idleThreadCount = 0, m_isRunning = False,
      m_autoStop = False, m_rootThread = 0, frames = (\<lambda>_. None)\<rparr>"

definition Scheduler_new ::
    "tid \<Rightarrow> 64 word \<Rightarrow> bool \<Rightarrow> string \<Rightarrow> 'z sys_scheme \<Rightarrow> 'z sys_scheme res" where
  "Scheduler_new t threads useCaller name s0 =
     (let s = s0\<lparr>m_name := name\<rparr> in
      server_assert (0 < threads) ''threads > 0''
        (if useCaller then
           rbind (getThis t s) (\<lambda>(_, s1).
             server_assert (\<not> t_scheduler (tls s1 t)) ''getThis() == nullptr''
               (let s2 = set_tls t (t_scheduler_update (\<lambda>_. True)) s1;
                    (r, s3) = Fiber_new (Some SchedulerRun) 0 True s2;
                    s4 = set_tls t (t_mainFiber_update (\<lambda>_. Some r)) (s3\<lparr>m_rootFiber := Some r\<rparr>)
                in Inr (s4\<lparr>m_rootThread := t, m_threadIds := m_threadIds s4 @ [t],
                           m_threadCount := threads - 1\<rparr>)))
         else Inr (s\<lparr>m_rootThread := -1, m_threadCount := threads\<rparr>)))"

definition Scheduler_delete :: "tid \<Rightarrow> 'z sys_scheme \<Rightarrow> 'z sys_scheme res" where
  "Scheduler_delete t s =
     server_assert (\<not> m_isRunning s) ''!m_isRunning''
       (Inr (if t_scheduler (tls s t) then set_tls t (t_scheduler_update (\<lambda>_. False)) s else s))"

subsection \<open>Start and stop\<close>

text \<open>
  \<open>Scheduler::start\<close>: \<open>tids\<close> are the kernel ids of the created threads, one for each of the
  \<open>m_threadCount\<close> rounds of the loop. The constructor of \<open>Thread\<close> returns when the new thread is
  about to call \<open>Scheduler::run\<close>, with nothing in its thread-local variables.
\<close>

fun digits :: "nat \<Rightarrow> string" where
  "digits n = (if n < 10 then [char_of (48 + n)] else digits (n div 10) @ [char_of (48 + n mod 10)])"

declare digits.simps [simp del]

definition new_frame :: run_frame where
  "new_frame = \<lparr>pc = PcEnter, ft = empty_task, cbFiber = None, idleFiber = 0\<rparr>"

definition start_thread :: "nat \<Rightarrow> tid \<Rightarrow> 'z sys_scheme \<Rightarrow> 'z sys_scheme" where
  "start_thread i u s =
     (let s1 = set_tls u (\<lambda>_. (init_tls u)\<lparr>cpu := KRun None\<rparr>) s
      in s1\<lparr>frames := (frames s1)(u := Some new_frame),
            m_threads := m_threads s1 @ [(m_name s1 @ ''_'' @ digits i, u)],
            m_threadIds := m_threadIds s1 @ [u]\<rparr>)"

fun start_threads :: "nat \<Rightarrow> tid list \<Rightarrow> 'z sys_scheme \<Rightarrow> 'z sys_scheme" where
  "start_threads i [] s = s"
| "start_threads i (u # us) s = start_threads (Suc i) us (start_thread i u s)"

definition start :: "tid list \<Rightarrow> 'z sys_scheme \<Rightarrow> 'z sys_scheme res" where
  "start tids s =
     (if m_isRunning s then Inr s
      else let s1 = s\<lparr>m_isRunning := True\<rparr>
           in server_assert (m_threads s1 = []) ''m_threads.empty()''
                (Inr (start_threads 0 (take (unat (m_threadCount s1)) tids) s1)))"

fun notify_times :: "'z sys_scheme vtable \<Rightarrow> nat \<Rightarrow> 'z sys_scheme \<Rightarrow> 'z sys_scheme res" where
  "notify_times vt 0 s = Inr s"
| "notify_times vt (Suc n) s = rbind (v_notify vt s) (notify_times vt n)"

text \<open>
  \<open>Scheduler::stop\<close> by thread \<open>t\<close>, up to the point where it takes over the list of threads
  (\<open>KStopSwap\<close>) or has switched to the root fiber, which comes back to that point. The early return leaves the
  CPU where it was.
\<close>

definition stop_early :: "'z sys_scheme \<Rightarrow> bool res" where
  "stop_early s =
     (case m_rootFiber s of
        None \<Rightarrow> Inr False
      | Some r \<Rightarrow>
          if m_threadCount s = 0
          then rbind (fiber_at (Some r) s) (\<lambda>f.
                 Inr (m_state f = State_TERM \<or> m_state f = State_INIT))
          else Inr False)"

definition stop_late :: "'z sys_scheme vtable \<Rightarrow> tid \<Rightarrow> 'z sys_scheme \<Rightarrow> 'z sys_scheme res" where
  "stop_late vt t s =
     server_assert (if m_rootThread s \<noteq> -1 then t_scheduler (tls s t) else \<not> t_scheduler (tls s t))
       ''getThis() == this''
       (rbind (notify_times vt (unat (m_threadCount s)) (s\<lparr>m_isRunning := False\<rparr>)) (\<lambda>s1.
          case m_rootFiber s1 of
            None \<Rightarrow> Inr (set_cpu t KStopSwap s1)
          | Some r \<Rightarrow>
              rbind (v_notify vt s1) (\<lambda>s2.
                if v_stopped vt s2 then Inr (set_cpu t KStopSwap s2)
                else Fiber_call t r KStopSwap s2)))"

definition stop :: "'z sys_scheme vtable \<Rightarrow> tid \<Rightarrow> 'z sys_scheme \<Rightarrow> 'z sys_scheme res" where
  "stop vt t s0 =
     (let s = s0\<lparr>m_autoStop := True\<rparr> in
      rbind (stop_early s) (\<lambda>early.
        if early
        then (let s1 = s\<lparr>m_isRunning := False\<rparr>
              in if v_stopped vt s1 then Inr s1 else stop_late vt t s1)
        else stop_late vt t s))"

text \<open>The end of \<open>stop\<close>: \<open>threads.swap(m_threads)\<close>, then one \<open>join\<close> after the other.\<close>

definition stop_swap :: "tid \<Rightarrow> 'z sys_scheme \<Rightarrow> 'z sys_scheme" where
  "stop_swap t s = set_cpu t (KJoin (map snd (m_threads s))) (s\<lparr>m_threads := []\<rparr>)"

text \<open>\<open>join\<close> blocks (\<open>None\<close>) until the thread has ended.\<close>

definition stop_join :: "tid \<Rightarrow> tid list \<Rightarrow> 'z sys_scheme \<Rightarrow> 'z sys_scheme option" where
  "stop_join t us s =
     (case us of
        [] \<Rightarrow> Some (set_cpu t KOutside s)
      | u # us' \<Rightarrow> if cpu (tls s u) = KExit then Some (set_cpu t (KJoin us') s) else None)"

end
