(* ===== verification/SchedulerRun.thy ===== *)
theory SchedulerRun
  imports Schedulers
begin

section \<open>Scheduler::run and the machine of threads\<close>

text \<open>
  \<open>Scheduler::run\<close> is cut at the points where other threads can interfere: the search of the queue
  (one critical section of \<open>m_mutex\<close>), the dispatch up to the switch, the decrement of
  \<open>m_activeThreadCount\<close> after the switch, what follows it. The code of a running fiber is cut at
  each call into the framework, \<open>yieldToReady\<close> and \<open>yieldToHold\<close> between storing the state and
  switching. \<open>thread_step\<close> is the next step of one thread, a function; \<open>sys_step\<close> lets any thread
  move and any thread outside the scheduler call \<open>schedule\<close>, \<open>start\<close> and \<open>stop\<close>.
\<close>

definition frame_of :: "tid \<Rightarrow> 'z sys_scheme \<Rightarrow> run_frame" where
  "frame_of t s = the (frames s t)"

definition set_frame :: "tid \<Rightarrow> run_frame \<Rightarrow> 'z sys_scheme \<Rightarrow> 'z sys_scheme" where
  "set_frame t fr s = s\<lparr>frames := (frames s)(t := Some fr)\<rparr>"

subsection \<open>The search of the queue\<close>

text \<open>
  The inner loop over \<open>m_fibers\<close> for the thread \<open>t\<close>: the task taken, the queue without it, and
  \<open>notifyMe\<close>. A task pinned to another thread is passed over and sets \<open>notifyMe\<close>; so is a task whose
  fiber is in state EXEC, which does not.
\<close>

fun scan :: "tid \<Rightarrow> (faddr \<Rightarrow> fiber option) \<Rightarrow> task list \<Rightarrow> (task option \<times> task list \<times> bool) res" where
  "scan t h [] = Inr (None, [], False)"
| "scan t h (x # xs) =
     (if ft_thread x \<noteq> -1 \<and> ft_thread x \<noteq> t
      then rbind (scan t h xs) (\<lambda>(r, q, _). Inr (r, x # q, True))
      else server_assert (ft_fiber x \<noteq> None \<or> ft_cb x \<noteq> None) ''it->fiber || it->cb''
        (case ft_fiber x of
           None \<Rightarrow> Inr (Some x, xs, False)
         | Some a \<Rightarrow>
             (case h a of
                None \<Rightarrow> Inl (BadAccess ''dangling Fiber*'')
              | Some f \<Rightarrow>
                  if m_state f = State_EXEC
                  then rbind (scan t h xs) (\<lambda>(r, q, n). Inr (r, x # q, n))
                  else Inr (Some x, xs, False))))"

definition run_search :: "tid \<Rightarrow> 'z sys_scheme \<Rightarrow> 'z sys_scheme res" where
  "run_search t s =
     (let fr = frame_of t s in
      rbind (scan t (heap s) (m_fibers s)) (\<lambda>(r, q, notifyMe).
        case r of
          None \<Rightarrow> Inr (set_frame t (fr\<lparr>ft := empty_task, pc := PcDispatch notifyMe False\<rparr>) s)
        | Some x \<Rightarrow>
            Inr (set_frame t (fr\<lparr>ft := x, pc := PcDispatch notifyMe True\<rparr>)
                  (s\<lparr>m_fibers := q, m_activeThreadCount := m_activeThreadCount s + 1\<rparr>))))"

subsection \<open>The beginning of run, the dispatch, and what follows a switch\<close>

definition run_enter :: "tid \<Rightarrow> 'z sys_scheme \<Rightarrow> 'z sys_scheme res" where
  "run_enter t s =
     (let s1 = set_tls t (t_scheduler_update (\<lambda>_. True)) s in
      rbind (if t \<noteq> m_rootThread s1
             then rbind (getThis t s1) (\<lambda>(a, s2).
                    Inr (set_tls t (t_mainFiber_update (\<lambda>_. Some a)) s2))
             else Inr s1) (\<lambda>s3.
        let (i, s4) = Fiber_new (Some SchedulerIdle) 0 False s3
        in Inr (set_frame t \<lparr>pc = PcLoop, ft = empty_task, cbFiber = None, idleFiber = i\<rparr> s4)))"

definition run_fiber :: "tid \<Rightarrow> (entry \<times> faddr) option \<Rightarrow> faddr \<Rightarrow> 'z sys_scheme \<Rightarrow> 'z sys_scheme res" where
  "run_fiber t ret a s =
     swapIn t a (KRun ret) (set_frame t ((frame_of t s)\<lparr>pc := PcBackFiber\<rparr>) s)"

definition run_callback ::
    "tid \<Rightarrow> (entry \<times> faddr) option \<Rightarrow> callback \<Rightarrow> 'z sys_scheme \<Rightarrow> 'z sys_scheme res" where
  "run_callback t ret cb s =
     rbind (case cbFiber (frame_of t s) of
              Some c \<Rightarrow> rbind (Fiber_reset c (Some cb) s) (\<lambda>s1. Inr (c, s1))
            | None \<Rightarrow> Inr (Fiber_new (Some cb) 0 False s)) (\<lambda>(c, s1).
       swapIn t c (KRun ret)
         (set_frame t ((frame_of t s)\<lparr>cbFiber := Some c, ft := empty_task, pc := PcBackCb\<rparr>) s1))"

definition run_idle :: "tid \<Rightarrow> (entry \<times> faddr) option \<Rightarrow> 'z sys_scheme \<Rightarrow> 'z sys_scheme res" where
  "run_idle t ret s =
     rbind (fiber_at (Some (idleFiber (frame_of t s))) s) (\<lambda>f.
       if m_state f = State_TERM
       then Inr (set_frame t ((frame_of t s)\<lparr>pc := PcReturn\<rparr>) s)
       else swapIn t (idleFiber (frame_of t s)) (KRun ret)
              (set_frame t ((frame_of t s)\<lparr>pc := PcBackIdle\<rparr>)
                (s\<lparr>m_idleThreadCount := m_idleThreadCount s + 1\<rparr>)))"

definition run_dispatch ::
    "'z sys_scheme vtable \<Rightarrow> tid \<Rightarrow> (entry \<times> faddr) option \<Rightarrow> bool \<Rightarrow> bool \<Rightarrow>
     'z sys_scheme \<Rightarrow> 'z sys_scheme res" where
  "run_dispatch vt t ret notifyMe isActive s0 =
     rbind (if notifyMe then v_notify vt s0 else Inr s0) (\<lambda>s.
       let x = ft (frame_of t s) in
       rbind (case ft_fiber x of
                None \<Rightarrow> Inr False
              | Some a \<Rightarrow> rbind (fiber_at (Some a) s) (\<lambda>f.
                  Inr (m_state f \<noteq> State_TERM \<and> m_state f \<noteq> State_EXCEPT))) (\<lambda>runnable.
         if runnable then run_fiber t ret (the (ft_fiber x)) s
         else case ft_cb x of
                Some cb \<Rightarrow> run_callback t ret cb s
              | None \<Rightarrow>
                  if isActive
                  then Inr (set_frame t ((frame_of t s)\<lparr>ft := empty_task, pc := PcLoop\<rparr>)
                             (s\<lparr>m_activeThreadCount := m_activeThreadCount s - 1\<rparr>))
                  else run_idle t ret s))"

definition run_back :: "run_pc \<Rightarrow> tid \<Rightarrow> 'z sys_scheme \<Rightarrow> 'z sys_scheme" where
  "run_back next_pc t s =
     set_frame t ((frame_of t s)\<lparr>pc := next_pc\<rparr>)
       (s\<lparr>m_activeThreadCount := m_activeThreadCount s - 1\<rparr>)"

text \<open>After \<open>ft.fiber\<close> has switched back: a ready fiber is queued again, for any thread.\<close>

definition run_requeue_fiber ::
    "'z sys_scheme vtable \<Rightarrow> tid \<Rightarrow> 'z sys_scheme \<Rightarrow> 'z sys_scheme res" where
  "run_requeue_fiber vt t s =
     rbind (fiber_at (ft_fiber (ft (frame_of t s))) s) (\<lambda>f.
       let a = the (ft_fiber (ft (frame_of t s))) in
       rbind (if m_state f = State_READY then schedule vt (fiber_task a (-1)) s
              else if m_state f \<noteq> State_TERM \<and> m_state f \<noteq> State_EXCEPT
              then Inr (put_fiber a (f\<lparr>m_state := State_HOLD\<rparr>) s)
              else Inr s) (\<lambda>s1.
         Inr (set_frame t ((frame_of t s1)\<lparr>ft := empty_task, pc := PcLoop\<rparr>) s1)))"

definition run_requeue_cb ::
    "'z sys_scheme vtable \<Rightarrow> tid \<Rightarrow> 'z sys_scheme \<Rightarrow> 'z sys_scheme res" where
  "run_requeue_cb vt t s =
     rbind (fiber_at (cbFiber (frame_of t s)) s) (\<lambda>f.
       let c = the (cbFiber (frame_of t s)) in
       rbind (if m_state f = State_READY
              then rbind (schedule vt (fiber_task c (-1)) s) (\<lambda>s1. Inr (None, s1))
              else if m_state f = State_EXCEPT \<or> m_state f = State_TERM
              then rbind (Fiber_reset c None s) (\<lambda>s1. Inr (Some c, s1))
              else Inr (None, put_fiber c (f\<lparr>m_state := State_HOLD\<rparr>) s)) (\<lambda>(cb', s1).
         Inr (set_frame t ((frame_of t s1)\<lparr>cbFiber := cb', pc := PcLoop\<rparr>) s1)))"

definition run_back_idle :: "tid \<Rightarrow> 'z sys_scheme \<Rightarrow> 'z sys_scheme res" where
  "run_back_idle t s =
     rbind (fiber_at (Some (idleFiber (frame_of t s))) s) (\<lambda>f.
       Inr (set_frame t ((frame_of t s)\<lparr>pc := PcLoop\<rparr>)
         (let s1 = s\<lparr>m_idleThreadCount := m_idleThreadCount s - 1\<rparr>
          in if m_state f \<noteq> State_TERM \<and> m_state f \<noteq> State_EXCEPT
             then put_fiber (idleFiber (frame_of t s)) (f\<lparr>m_state := State_HOLD\<rparr>) s1 else s1)))"

text \<open>\<open>run\<close> returns to the thread's entry function, or as a callback to \<open>mainFunc\<close>.\<close>

definition run_return :: "tid \<Rightarrow> (entry \<times> faddr) option \<Rightarrow> 'z sys_scheme \<Rightarrow> 'z sys_scheme res" where
  "run_return t ret s =
     (let s1 = s\<lparr>frames := (frames s)(t := None)\<rparr>
      in case ret of None \<Rightarrow> Inr (set_cpu t KExit s1) | Some (e, cur) \<Rightarrow> mainFunc_return e cur t s1)"

definition run_step ::
    "'z sys_scheme vtable \<Rightarrow> tid \<Rightarrow> (entry \<times> faddr) option \<Rightarrow> 'z sys_scheme \<Rightarrow> 'z sys_scheme res" where
  "run_step vt t ret s =
     (case frames s t of
        None \<Rightarrow> Inl (BadAccess ''no activation of run'')
      | Some fr \<Rightarrow>
          (case pc fr of
             PcEnter \<Rightarrow> run_enter t s
           | PcLoop \<Rightarrow> run_search t s
           | PcDispatch notifyMe isActive \<Rightarrow> run_dispatch vt t ret notifyMe isActive s
           | PcBackFiber \<Rightarrow> Inr (run_back PcRequeueFiber t s)
           | PcRequeueFiber \<Rightarrow> run_requeue_fiber vt t s
           | PcBackCb \<Rightarrow> Inr (run_back PcRequeueCb t s)
           | PcRequeueCb \<Rightarrow> run_requeue_cb vt t s
           | PcBackIdle \<Rightarrow> run_back_idle t s
           | PcReturn \<Rightarrow> run_return t ret s))"

subsection \<open>The steps of a thread and of the system\<close>

text \<open>One step of a client callback \<open>ops\<close>, running in the fiber \<open>cur\<close>.\<close>

definition client_step ::
    "'z sys_scheme vtable \<Rightarrow> tid \<Rightarrow> entry \<Rightarrow> faddr \<Rightarrow> client_op list \<Rightarrow>
     'z sys_scheme \<Rightarrow> 'z sys_scheme res" where
  "client_step vt t e cur ops s =
     (case ops of
        [] \<Rightarrow> mainFunc_return e cur t s
      | OpThrow w # _ \<Rightarrow> mainFunc_catch e cur t s
      | OpYieldToReady # r \<Rightarrow>
          rbind (yield_store State_READY t s) (\<lambda>(a, s1).
            Inr (set_cpu t (KYield e cur a (Client r)) s1))
      | OpYieldToHold # r \<Rightarrow>
          rbind (yield_store State_HOLD t s) (\<lambda>(a, s1).
            Inr (set_cpu t (KYield e cur a (Client r)) s1))
      | OpScheduleCb p thr # r \<Rightarrow>
          rbind (schedule vt (cb_task (Client p) thr) s) (\<lambda>s1.
            Inr (set_cpu t (KBody e cur (Client r)) s1))
      | OpScheduleFiber a thr # r \<Rightarrow>
          rbind (schedule vt (fiber_task a thr) s) (\<lambda>s1.
            Inr (set_cpu t (KBody e cur (Client r)) s1))
      | OpScheduleThis thr # r \<Rightarrow>
          rbind (getThis t s) (\<lambda>(a, s1).
            rbind (schedule vt (fiber_task a thr) s1) (\<lambda>s2.
              Inr (set_cpu t (KBody e cur (Client r)) s2))))"

text \<open>
  One step of a callback. A thread has one activation of \<open>run\<close>: the model stops where a thread of
  the pool would start another one inside its own, which takes a client that fetches the root fiber
  with \<open>getMainFiber\<close> and schedules it before \<open>stop\<close> has called it.
\<close>

definition body_step ::
    "'z sys_scheme vtable \<Rightarrow> tid \<Rightarrow> entry \<Rightarrow> faddr \<Rightarrow> callback \<Rightarrow>
     'z sys_scheme \<Rightarrow> 'z sys_scheme res" where
  "body_step vt t e cur cb s =
     (case cb of
        Client ops \<Rightarrow> client_step vt t e cur ops s
      | SchedulerIdle \<Rightarrow> v_idle vt e cur t s
      | SchedulerRun \<Rightarrow>
          if frames s t = None
          then Inr (set_cpu t (KRun (Some (e, cur))) (set_frame t new_frame s))
          else Inl (OutsideModel ''run inside run''))"

definition thread_step :: "'z sys_scheme vtable \<Rightarrow> tid \<Rightarrow> 'z sys_scheme \<Rightarrow> 'z sys_scheme res" where
  "thread_step vt t s =
     (case cpu (tls s t) of
        KEntry e \<Rightarrow> mainFunc_enter e t s
      | KBody e cur cb \<Rightarrow> body_step vt t e cur cb s
      | KYield e cur a cb \<Rightarrow> swapOut t a (KBody e cur cb) s
      | KEpilogue e cur \<Rightarrow> mainFunc_leave e cur t s
      | KNever cur \<Rightarrow> Inl (AssertionFailed ''never reach fiber_id'')
      | KRun ret \<Rightarrow> run_step vt t ret s
      | KStopSwap \<Rightarrow> Inr (stop_swap t s)
      | KJoin us \<Rightarrow> (case stop_join t us s of Some s1 \<Rightarrow> Inr s1 | None \<Rightarrow> Inr s)
      | KOutside \<Rightarrow> Inr s
      | KExit \<Rightarrow> Inr s)"

text \<open>
  A thread with \<open>KOutside\<close> runs code of the client that is no fiber; \<open>ext\<close> says which tasks that
  code schedules. The kernel gives the threads of \<open>start\<close> ids that no live thread has.
\<close>

inductive sys_step ::
    "'z sys_scheme vtable \<Rightarrow> (task \<Rightarrow> bool) \<Rightarrow> 'z sys_scheme \<Rightarrow> 'z sys_scheme \<Rightarrow> bool" for vt ext where
  step_thread: "thread_step vt t s = Inr s' \<Longrightarrow> sys_step vt ext s s'"
| step_schedule: "cpu (tls s t) = KOutside \<Longrightarrow> ext x \<Longrightarrow> schedule vt x s = Inr s' \<Longrightarrow>
     sys_step vt ext s s'"
| step_start: "cpu (tls s t) = KOutside \<Longrightarrow> length tids = unat (m_threadCount s) \<Longrightarrow>
     distinct tids \<Longrightarrow>
     (\<And>u. u \<in> set tids \<Longrightarrow> u \<noteq> -1 \<and> u \<noteq> t \<and> u \<noteq> m_rootThread s \<and> frames s u = None \<and>
        cpu (tls s u) = KOutside) \<Longrightarrow>
     start tids s = Inr s' \<Longrightarrow> sys_step vt ext s s'"
| step_stop: "cpu (tls s t) = KOutside \<Longrightarrow> stop vt t s = Inr s' \<Longrightarrow> sys_step vt ext s s'"

inductive reachable ::
    "'z sys_scheme vtable \<Rightarrow> (task \<Rightarrow> bool) \<Rightarrow> 'z sys_scheme \<Rightarrow> 'z sys_scheme \<Rightarrow> bool"
  for vt ext s where
  reach_refl: "reachable vt ext s s"
| reach_step: "reachable vt ext s s' \<Longrightarrow> sys_step vt ext s' s'' \<Longrightarrow> reachable vt ext s s''"

text \<open>A schedule: the threads that move, one after the other; with the first failure of a step.\<close>

fun run_threads :: "'z sys_scheme vtable \<Rightarrow> tid list \<Rightarrow> 'z sys_scheme \<Rightarrow> 'z sys_scheme res" where
  "run_threads vt [] s = Inr s"
| "run_threads vt (t # ts) s = rbind (thread_step vt t s) (run_threads vt ts)"

lemma reachable_trans:
  "reachable vt ext s s' \<Longrightarrow> reachable vt ext s' s'' \<Longrightarrow> reachable vt ext s s''"
  by (rotate_tac 1, induction rule: reachable.induct) (auto intro: reachable.intros)

lemma reachable_run_threads:
  "run_threads vt ts s = Inr s' \<Longrightarrow> reachable vt ext s s'"
proof (induction ts arbitrary: s)
  case Nil
  then show ?case by (simp add: reach_refl)
next
  case (Cons t ts)
  then obtain s1 where s1: "thread_step vt t s = Inr s1" "run_threads vt ts s1 = Inr s'" by auto
  from s1(1) have "reachable vt ext s s1"
    by (blast intro: reach_refl reach_step step_thread)
  from this Cons.IH [OF s1(2)] show ?case by (rule reachable_trans)
qed

end
