(* ===== verification/SchedulerQueue.thy ===== *)
theory SchedulerQueue
  imports SchedulerRun
begin

section \<open>The task queue of the scheduler\<close>

text \<open>
  What \<open>scheduleNoLock\<close> and the search in \<open>run\<close> promise of the queue \<open>m_fibers\<close>: first in, first
  out among the tasks a thread may take, nothing lost, nothing duplicated, no task taken by a
  thread it is not meant for. The locale \<open>fifo\<close> is that interface, with the queue's contents as
  a list; it is interpreted on the operations of the model at the end of the theory.
\<close>

text \<open>Tasks that thread \<open>t\<close> passes over because they are pinned elsewhere, and those it may take.\<close>

definition foreign :: "tid \<Rightarrow> task \<Rightarrow> bool" where
  "foreign t x \<longleftrightarrow> ft_thread x \<noteq> -1 \<and> ft_thread x \<noteq> t"

definition executing :: "(faddr \<Rightarrow> fiber option) \<Rightarrow> task \<Rightarrow> bool" where
  "executing h x \<longleftrightarrow> (\<exists>a f. ft_fiber x = Some a \<and> h a = Some f \<and> m_state f = State_EXEC)"

definition eligible :: "tid \<Rightarrow> (faddr \<Rightarrow> fiber option) \<Rightarrow> task \<Rightarrow> bool" where
  "eligible t h x \<longleftrightarrow> \<not> foreign t x \<and> \<not> executing h x"

text \<open>What \<open>scheduleNoLock\<close> lets into the queue: a fiber that exists, or a callback.\<close>

definition task_wf :: "(faddr \<Rightarrow> fiber option) \<Rightarrow> task \<Rightarrow> bool" where
  "task_wf h x \<longleftrightarrow> (ft_fiber x \<noteq> None \<or> ft_cb x \<noteq> None) \<and> (\<forall>a. ft_fiber x = Some a \<longrightarrow> h a \<noteq> None)"

text \<open>The abstract search: split the queue at the first eligible task.\<close>

fun take_first :: "('a \<Rightarrow> bool) \<Rightarrow> 'a list \<Rightarrow> ('a \<times> 'a list) option" where
  "take_first p [] = None"
| "take_first p (x # xs) =
     (if p x then Some (x, xs) else map_option (\<lambda>(y, r). (y, x # r)) (take_first p xs))"

lemma take_first_None: "take_first p q = None \<longleftrightarrow> (\<forall>x \<in> set q. \<not> p x)"
  by (induction q) auto

lemma take_first_append:
  "\<forall>y \<in> set xs. \<not> p y \<Longrightarrow> p x \<Longrightarrow> take_first p (xs @ x # ys) = Some (x, xs @ ys)"
  by (induction xs) auto

lemma take_first_SomeD:
  "take_first p q = Some (x, r) \<Longrightarrow>
     \<exists>xs ys. q = xs @ x # ys \<and> r = xs @ ys \<and> p x \<and> (\<forall>y \<in> set xs. \<not> p y)"
proof (induction q arbitrary: r)
  case Nil
  then show ?case by simp
next
  case (Cons z zs)
  show ?case
  proof (cases "p z")
    case True
    with Cons.prems show ?thesis by (intro exI [of _ "[]"] exI [of _ r]) auto
  next
    case False
    with Cons.prems obtain r' where r': "take_first p zs = Some (x, r')" "r = z # r'" by auto
    from Cons.IH [OF r'(1)] obtain xs ys where
      "zs = xs @ x # ys" "r' = xs @ ys" "p x" "\<forall>y \<in> set xs. \<not> p y" by auto
    with False r'(2) show ?thesis by (intro exI [of _ "z # xs"] exI [of _ ys]) simp
  qed
qed

text \<open>The loop of the code is the abstract search, and \<open>notifyMe\<close> says whether it passed a pinned task.\<close>

lemma scan_spec:
  assumes "\<forall>x \<in> set q. task_wf h x"
  shows "scan t h q = Inr
    (case take_first (eligible t h) q of
       None \<Rightarrow> (None, q, \<exists>x \<in> set q. foreign t x)
     | Some (x, r) \<Rightarrow>
         (Some x, r, \<exists>y \<in> set (takeWhile (\<lambda>x. \<not> eligible t h x) q). foreign t y))"
  using assms
proof (induction q)
  case Nil
  then show ?case by simp
next
  case (Cons x xs)
  then have wf: "task_wf h x" and IH: "scan t h xs = Inr
    (case take_first (eligible t h) xs of
       None \<Rightarrow> (None, xs, \<exists>x \<in> set xs. foreign t x)
     | Some (x, r) \<Rightarrow>
         (Some x, r, \<exists>y \<in> set (takeWhile (\<lambda>x. \<not> eligible t h x) xs). foreign t y))"
    by simp_all
  consider "foreign t x" | "\<not> foreign t x" "executing h x" | "eligible t h x"
    by (auto simp: eligible_def)
  then show ?case
  proof cases
    case 1
    then have "\<not> eligible t h x" by (simp add: eligible_def)
    moreover have "scan t h (x # xs) = rbind (scan t h xs) (\<lambda>(r, q, _). Inr (r, x # q, True))"
      using 1 by (simp add: foreign_def)
    ultimately show ?thesis
      using 1 by (auto simp: IH simp del: scan.simps split: option.split)
  next
    case 2
    then have "\<not> eligible t h x" by (simp add: eligible_def)
    moreover have "scan t h (x # xs) = rbind (scan t h xs) (\<lambda>(r, q, n). Inr (r, x # q, n))"
      using 2 by (auto simp: foreign_def executing_def)
    ultimately show ?thesis
      using 2 by (auto simp: IH simp del: scan.simps split: option.split)
  next
    case 3
    then have "scan t h (x # xs) = Inr (Some x, xs, False)"
      using wf by (auto simp: eligible_def foreign_def executing_def task_wf_def split: option.split)
    with 3 show ?thesis by (simp del: scan.simps)
  qed
qed

subsection \<open>The interface\<close>

locale fifo =
  fixes enq :: "'x \<Rightarrow> 'q \<Rightarrow> 'q"
    and deq :: "'w \<Rightarrow> 'q \<Rightarrow> ('x \<times> 'q) option"
    and contents :: "'q \<Rightarrow> 'x list"
    and may_take :: "'w \<Rightarrow> 'q \<Rightarrow> 'x \<Rightarrow> bool"
    and valid :: "'q \<Rightarrow> bool"
    and storable :: "'q \<Rightarrow> 'x \<Rightarrow> bool"
  assumes enq_contents: "storable q x \<Longrightarrow> contents (enq x q) = contents q @ [x]"
    and enq_valid: "valid q \<Longrightarrow> storable q x \<Longrightarrow> valid (enq x q)"
    and enq_may_take: "may_take w (enq x q) y = may_take w q y"
    and deq_spec: "valid q \<Longrightarrow>
      map_option (\<lambda>(x, q'). (x, contents q')) (deq w q) = take_first (may_take w q) (contents q)"
    and deq_valid: "valid q \<Longrightarrow> deq w q = Some (x, q') \<Longrightarrow> valid q'"
begin

lemma deq_None: "valid q \<Longrightarrow> deq w q = None \<longleftrightarrow> (\<forall>x \<in> set (contents q). \<not> may_take w q x)"
  by (metis deq_spec take_first_None map_option_is_None)

lemma deq_Some:
  assumes "valid q" and "deq w q = Some (x, q')"
  shows "\<exists>xs ys. contents q = xs @ x # ys \<and> contents q' = xs @ ys \<and> may_take w q x \<and>
    (\<forall>y \<in> set xs. \<not> may_take w q y)"
proof -
  from deq_spec [OF assms(1), of w] assms(2)
  have "take_first (may_take w q) (contents q) = Some (x, contents q')" by simp
  then show ?thesis by (rule take_first_SomeD)
qed

text \<open>Nothing is lost or duplicated.\<close>

lemma deq_conserves:
  assumes "valid q" and "deq w q = Some (x, q')"
  shows "count_list (contents q) y = count_list (contents q') y + (if y = x then 1 else 0)"
  using deq_Some [OF assms] by auto

text \<open>A worker that may take the oldest element takes it: the queue is then a plain FIFO.\<close>

lemma deq_head:
  assumes "valid q" and "contents q = x # xs" and "may_take w q x"
  shows "\<exists>q'. deq w q = Some (x, q') \<and> contents q' = xs"
  using deq_spec [OF assms(1), of w] assms(2,3) by auto

text \<open>An element appended to ones the worker passes over is the one it takes.\<close>

lemma enq_deq:
  assumes "valid q" and "storable q x" and "may_take w q x"
    and "\<forall>y \<in> set (contents q). \<not> may_take w q y"
  shows "\<exists>q'. deq w (enq x q) = Some (x, q') \<and> contents q' = contents q"
proof -
  have "take_first (may_take w (enq x q)) (contents (enq x q)) = Some (x, contents q @ [])"
    using assms by (simp add: enq_contents enq_may_take take_first_append)
  with deq_spec [OF enq_valid [OF assms(1,2)], of w] show ?thesis by auto
qed

end

subsection \<open>The operations of the model\<close>

text \<open>
  \<open>put_task\<close> is what \<open>schedule\<close> does to the state before it notifies; \<open>take_task\<close> is what the
  search leaves in \<open>ft\<close> when it found something (\<open>isActive\<close>).
\<close>

definition put_task :: "task \<Rightarrow> 'z sys_scheme \<Rightarrow> 'z sys_scheme" where
  "put_task x s = snd (scheduleNoLock x s)"

definition take_task :: "tid \<Rightarrow> 'z sys_scheme \<Rightarrow> (task \<times> 'z sys_scheme) option" where
  "take_task t s =
     (case run_search t s of
        Inl _ \<Rightarrow> None
      | Inr s' \<Rightarrow>
          (case pc (frame_of t s') of
             PcDispatch _ True \<Rightarrow> Some (ft (frame_of t s'), s')
           | _ \<Rightarrow> None))"

definition queue_wf :: "'z sys_scheme \<Rightarrow> bool" where
  "queue_wf s \<longleftrightarrow> (\<forall>x \<in> set (m_fibers s). task_wf (heap s) x)"

lemma set_frame_sel [simp]:
  "frames (set_frame t fr s) = (frames s)(t := Some fr)" "m_fibers (set_frame t fr s) = m_fibers s"
  "heap (set_frame t fr s) = heap s" "tls (set_frame t fr s) = tls s" "brk (set_frame t fr s) = brk s"
  "m_activeThreadCount (set_frame t fr s) = m_activeThreadCount s"
  "m_idleThreadCount (set_frame t fr s) = m_idleThreadCount s"
  "m_isRunning (set_frame t fr s) = m_isRunning s" "m_autoStop (set_frame t fr s) = m_autoStop s"
  "m_rootThread (set_frame t fr s) = m_rootThread s" "m_rootFiber (set_frame t fr s) = m_rootFiber s"
  "m_threads (set_frame t fr s) = m_threads s" "m_threadCount (set_frame t fr s) = m_threadCount s"
  "s_fiber_id (set_frame t fr s) = s_fiber_id s" "s_fiber_count (set_frame t fr s) = s_fiber_count s"
  "g_fiberStackSize (set_frame t fr s) = g_fiberStackSize s"
  "frame_of t (set_frame t fr s) = fr"
  by (simp_all add: set_frame_def frame_of_def)

lemma run_search_cases:
  assumes "queue_wf s"
  shows "run_search t s = Inr (let fr = frame_of t s in
    case take_first (eligible t (heap s)) (m_fibers s) of
      None \<Rightarrow> set_frame t (fr\<lparr>ft := empty_task,
                 pc := PcDispatch (\<exists>x \<in> set (m_fibers s). foreign t x) False\<rparr>) s
    | Some (x, r) \<Rightarrow>
        set_frame t (fr\<lparr>ft := x, pc := PcDispatch
            (\<exists>y \<in> set (takeWhile (\<lambda>x. \<not> eligible t (heap s) x) (m_fibers s)). foreign t y) True\<rparr>)
          (s\<lparr>m_fibers := r, m_activeThreadCount := m_activeThreadCount s + 1\<rparr>))"
  using assms
  by (simp add: run_search_def queue_wf_def scan_spec Let_def split: option.split)

lemma take_task_spec:
  "queue_wf s \<Longrightarrow> map_option (\<lambda>(x, s'). (x, m_fibers s')) (take_task t s)
     = take_first (eligible t (heap s)) (m_fibers s)"
  by (simp add: take_task_def run_search_cases Let_def split: option.split)

interpretation taskq: fifo put_task take_task m_fibers "\<lambda>t s. eligible t (heap s)"
  queue_wf "\<lambda>s. task_wf (heap s)"
proof
  fix s :: "'a sys_scheme" and x y :: task and t s'
  show "m_fibers (put_task x s) = m_fibers s @ [x]" if "task_wf (heap s) x"
    using that by (auto simp: put_task_def scheduleNoLock_def task_wf_def)
  show "queue_wf (put_task x s)" if "queue_wf s" "task_wf (heap s) x"
    using that by (auto simp: put_task_def scheduleNoLock_def task_wf_def queue_wf_def)
  show "eligible t (heap (put_task x s)) y = eligible t (heap s) y"
    by (simp add: put_task_def scheduleNoLock_def)
  show "map_option (\<lambda>(x, s'). (x, m_fibers s')) (take_task t s)
      = take_first (eligible t (heap s)) (m_fibers s)" if "queue_wf s"
    using that by (rule take_task_spec)
  show "queue_wf s'" if "queue_wf s" "take_task t s = Some (x, s')"
    using that by (auto simp: take_task_def run_search_cases Let_def queue_wf_def
        split: option.splits dest!: take_first_SomeD)
qed

subsection \<open>Properties\<close>

text \<open>
  C18. The search of \<open>run\<close> takes the oldest task of the queue that is neither pinned to another
  thread nor in execution, removes exactly that one and counts the thread as active; when there is
  none it leaves the queue and the count alone. \<open>notifyMe\<close> is set exactly when the search has
  passed over a task pinned to another thread.
\<close>

theorem run_search_takes_oldest:
  assumes wf: "queue_wf s"
  shows "\<exists>s' notifyMe isActive. run_search t s = Inr s' \<and>
    pc (frame_of t s') = PcDispatch notifyMe isActive \<and>
    (if isActive
     then \<exists>xs x ys. m_fibers s = xs @ x # ys \<and> m_fibers s' = xs @ ys \<and> ft (frame_of t s') = x \<and>
        (ft_thread x = -1 \<or> ft_thread x = t) \<and> \<not> executing (heap s) x \<and>
        (\<forall>y \<in> set xs. foreign t y \<or> executing (heap s) y) \<and>
        (notifyMe \<longleftrightarrow> (\<exists>y \<in> set xs. foreign t y)) \<and>
        m_activeThreadCount s' = m_activeThreadCount s + 1
     else m_fibers s' = m_fibers s \<and> ft (frame_of t s') = empty_task \<and>
        (\<forall>y \<in> set (m_fibers s). foreign t y \<or> executing (heap s) y) \<and>
        (notifyMe \<longleftrightarrow> (\<exists>y \<in> set (m_fibers s). foreign t y)) \<and>
        m_activeThreadCount s' = m_activeThreadCount s)"
proof (cases "take_first (eligible t (heap s)) (m_fibers s)")
  case None
  then have "\<forall>y \<in> set (m_fibers s). foreign t y \<or> executing (heap s) y"
    by (auto simp: take_first_None eligible_def)
  with None show ?thesis by (auto simp: run_search_cases [OF wf] Let_def)
next
  case (Some p)
  obtain x r where p: "p = (x, r)" by (cases p)
  from take_first_SomeD [OF Some [unfolded p]] obtain xs ys where
    q: "m_fibers s = xs @ x # ys" "r = xs @ ys" and x: "eligible t (heap s) x"
    and pre: "\<forall>y \<in> set xs. \<not> eligible t (heap s) y" by auto
  have tw: "takeWhile (\<lambda>x. \<not> eligible t (heap s) x) (m_fibers s) = xs"
    using x pre by (simp add: q takeWhile_tail)
  from x have x': "ft_thread x = -1 \<or> ft_thread x = t" "\<not> executing (heap s) x"
    by (auto simp: eligible_def foreign_def)
  have pre': "\<forall>y \<in> set xs. foreign t y \<or> executing (heap s) y"
    using pre by (auto simp: eligible_def)
  let ?n = "\<exists>y \<in> set xs. foreign t y"
  let ?s' = "set_frame t ((frame_of t s)\<lparr>ft := x, pc := PcDispatch ?n True\<rparr>)
      (s\<lparr>m_fibers := r, m_activeThreadCount := m_activeThreadCount s + 1\<rparr>)"
  have "run_search t s = Inr ?s'"
    by (simp add: run_search_cases [OF wf] Let_def Some p tw)
  moreover have "pc (frame_of t ?s') = PcDispatch ?n True" by simp
  moreover have "\<exists>xs x ys. m_fibers s = xs @ x # ys \<and> m_fibers ?s' = xs @ ys \<and>
      ft (frame_of t ?s') = x \<and> (ft_thread x = -1 \<or> ft_thread x = t) \<and> \<not> executing (heap s) x \<and>
      (\<forall>y \<in> set xs. foreign t y \<or> executing (heap s) y) \<and>
      (?n \<longleftrightarrow> (\<exists>y \<in> set xs. foreign t y)) \<and>
      m_activeThreadCount ?s' = m_activeThreadCount s + 1"
    using q x' pre' by (intro exI [of _ xs] exI [of _ x] exI [of _ ys]) simp
  ultimately show ?thesis
    by (intro exI [of _ ?s'] exI [of _ ?n] exI [of _ True]) (simp only: if_True simp_thms)
qed

text \<open>A scheduler with two tasks, the older one pinned to another thread, for the examples.\<close>

definition demo_sys :: sys where
  "demo_sys = (fresh_scheduler init_proc)\<lparr>
     m_fibers := [cb_task (Client []) 4, cb_task (Client [OpYieldToHold]) (-1)],
     frames := (\<lambda>_. None)(7 := Some (new_frame\<lparr>pc := PcLoop\<rparr>))\<rparr>"

lemma demo_sys_sel [simp]:
  "m_fibers demo_sys = [cb_task (Client []) 4, cb_task (Client [OpYieldToHold]) (-1)]"
  "heap demo_sys = (\<lambda>_. None)" "m_activeThreadCount demo_sys = 0"
  by (simp_all add: demo_sys_def fresh_scheduler_def init_proc_def proc.defs)

lemma queue_wf_demo: "queue_wf demo_sys"
  by (simp add: queue_wf_def task_wf_def cb_task_def)

theorem run_search_takes_oldest_witness:
  "\<exists>s'. run_search 7 demo_sys = Inr s' \<and> pc (frame_of 7 s') \<noteq> PcLoop"
  using run_search_takes_oldest [OF queue_wf_demo, of 7] by auto

text \<open>
  A task that is scheduled when nothing else in the queue is for the thread \<open>t\<close> is the one
  \<open>t\<close>'s next search takes, and the rest of the queue is as before.
\<close>

theorem scheduled_task_is_taken:
  assumes "queue_wf s" and "task_wf (heap s) x" and "eligible t (heap s) x"
    and "\<forall>y \<in> set (m_fibers s). \<not> eligible t (heap s) y"
  shows "\<exists>s1 s2. schedule scheduler_vt x s = Inr s1 \<and> run_search t s1 = Inr s2 \<and>
    ft (frame_of t s2) = x \<and> m_fibers s2 = m_fibers s"
proof -
  from taskq.enq_deq [OF assms] obtain s2 where
    t: "take_task t (put_task x s) = Some (x, s2)" and q: "m_fibers s2 = m_fibers s" by blast
  have "schedule scheduler_vt x s = Inr (put_task x s)"
    by (simp add: schedule_def put_task_def scheduleNoLock_def scheduler_vt_def Scheduler_notify_def)
  with t q show ?thesis
    by (auto simp: take_task_def split: sum.splits run_pc.splits bool.splits)
qed

theorem scheduled_task_is_taken_witness:
  "\<exists>s1 s2. schedule scheduler_vt (cb_task (Client []) 9)
        (demo_sys\<lparr>m_fibers := [cb_task (Client []) 4]\<rparr>) = Inr s1 \<and>
     run_search 9 s1 = Inr s2 \<and> ft (frame_of 9 s2) = cb_task (Client []) 9"
proof -
  let ?s = "demo_sys\<lparr>m_fibers := [cb_task (Client []) 4]\<rparr>"
  have "queue_wf ?s" "task_wf (heap ?s) (cb_task (Client []) 9)"
    "eligible 9 (heap ?s) (cb_task (Client []) 9)"
    "\<forall>y \<in> set (m_fibers ?s). \<not> eligible 9 (heap ?s) y"
    by (simp_all add: queue_wf_def task_wf_def eligible_def foreign_def executing_def cb_task_def)
  from scheduled_task_is_taken [OF this] show ?thesis by auto
qed

end
