(* ===== verification/SchedulerCounts.thy ===== *)
theory SchedulerCounts
  imports SchedulerQueue
begin

section \<open>The thread counters of the scheduler\<close>

text \<open>
  \<open>m_activeThreadCount\<close> and \<open>m_idleThreadCount\<close> are atomic counters that \<open>run\<close> increments and
  decrements around the switches; \<open>stopped\<close> and \<open>hasIdleThreads\<close> rest on them. Here: in every
  reachable state, with any clients and any interleaving, they count the threads at the points of
  \<open>run\<close> between the two. \<open>virtuals\<close> is the contract the virtual functions of the object must keep
  for that; it is interpreted on the base class here and on \<open>IOManager\<close> in its theory.
\<close>

definition active_pc :: "run_pc \<Rightarrow> bool" where
  "active_pc p = (case p of PcDispatch _ isActive \<Rightarrow> isActive | PcBackFiber \<Rightarrow> True | PcBackCb \<Rightarrow> True | _ \<Rightarrow> False)"

definition threads_at :: "(run_pc \<Rightarrow> bool) \<Rightarrow> (tid \<Rightarrow> run_frame option) \<Rightarrow> tid set" where
  "threads_at P fs = {t. \<exists>fr. fs t = Some fr \<and> P (pc fr)}"

text \<open>A search that finds nothing leaves \<open>ft\<close> empty.\<close>

definition frame_ok :: "run_frame \<Rightarrow> bool" where
  "frame_ok fr = (case pc fr of PcDispatch _ False \<Rightarrow> ft fr = empty_task | _ \<Rightarrow> True)"

definition counters_ok :: "'z sys_scheme \<Rightarrow> bool" where
  "counters_ok s \<longleftrightarrow> finite (dom (frames s)) \<and>
     (\<forall>t fr. frames s t = Some fr \<longrightarrow> frame_ok fr) \<and>
     m_activeThreadCount s = of_nat (card (threads_at active_pc (frames s))) \<and>
     m_idleThreadCount s = of_nat (card (threads_at (\<lambda>p. p = PcBackIdle) (frames s)))"

text \<open>The part of the state the counters are about.\<close>

definition counts :: "'z sys_scheme \<Rightarrow> (tid \<Rightarrow> run_frame option) \<times> 64 word \<times> 64 word" where
  "counts s = (frames s, m_activeThreadCount s, m_idleThreadCount s)"

lemma counters_ok_counts: "counts s' = counts s \<Longrightarrow> counters_ok s' = counters_ok s"
  by (simp add: counts_def counters_ok_def)

lemma counts_more: "proc.more s' = proc.more s \<Longrightarrow> counts s' = counts s"
  by (drule proc_more_eqD, drule arg_cong [where f = counts]) (simp add: counts_def)

lemma counts_sys_more [simp]: "counts (sys.more_update m s) = counts s"
  by (simp add: counts_def)

lemma counts_local: "thread_local_only t s s' \<Longrightarrow> counts s' = counts s"
  by (rule counts_more) (simp add: thread_local_only_def)

lemma threads_at_upd:
  "threads_at P (fs(t := Some fr)) =
     (if P (pc fr) then insert t (threads_at P fs) else threads_at P fs - {t})"
  by (auto simp: threads_at_def)

lemma threads_at_mem: "fs t = Some fr \<Longrightarrow> t \<in> threads_at P fs \<longleftrightarrow> P (pc fr)"
  by (simp add: threads_at_def)

lemma finite_threads_at: "finite (dom fs) \<Longrightarrow> finite (threads_at P fs)"
  by (rule finite_subset [where B = "dom fs"]) (auto simp: threads_at_def)

text \<open>
  A thread that moves from one point of \<open>run\<close> to another changes a counter by the difference of
  the two points.
\<close>

definition weight :: "bool \<Rightarrow> 64 word" where
  "weight b = (if b then 1 else 0)"

lemma card_threads_at_move:
  assumes fin: "finite (dom fs)" and t: "fs t = Some old"
  shows "of_nat (card (threads_at P (fs(t := Some new)))) + weight (P (pc old))
    = (of_nat (card (threads_at P fs)) + weight (P (pc new)) :: 64 word)"
proof -
  let ?A = "threads_at P fs"
  have fA: "finite ?A" using fin by (rule finite_threads_at)
  have mem: "t \<in> ?A \<longleftrightarrow> P (pc old)" using t by (rule threads_at_mem)
  have ins: "t \<notin> ?A \<Longrightarrow> card (insert t ?A) = Suc (card ?A)" using fA by simp
  have del: "t \<in> ?A \<Longrightarrow> card ?A = Suc (card (?A - {t}))" using fA by (metis card_Suc_Diff1)
  have abs: "t \<in> ?A \<Longrightarrow> insert t ?A = ?A" "t \<notin> ?A \<Longrightarrow> ?A - {t} = ?A" by auto
  show ?thesis
  proof (cases "P (pc old)")
    case True
    with mem have "t \<in> ?A" by simp
    with True del abs(1) show ?thesis by (simp add: threads_at_upd weight_def)
  next
    case False
    with mem have "t \<notin> ?A" by simp
    with False ins abs(2) show ?thesis by (simp add: threads_at_upd weight_def)
  qed
qed

lemma counters_ok_move:
  assumes ok: "counters_ok s" and t: "frames s t = Some old"
    and fs: "frames s' = (frames s)(t := Some new)" and new: "frame_ok new"
    and act: "m_activeThreadCount s' + weight (active_pc (pc old))
                = m_activeThreadCount s + weight (active_pc (pc new))"
    and idle: "m_idleThreadCount s' + weight (pc old = PcBackIdle)
                = m_idleThreadCount s + weight (pc new = PcBackIdle)"
  shows "counters_ok s'"
proof -
  have fin: "finite (dom (frames s))" using ok by (simp add: counters_ok_def)
  note move = card_threads_at_move [OF fin t, of _ new]
  have "m_activeThreadCount s' = of_nat (card (threads_at active_pc (frames s')))"
    using act move [of active_pc] ok unfolding fs counters_ok_def
    by (metis add_right_cancel)
  moreover have "m_idleThreadCount s' = of_nat (card (threads_at (\<lambda>p. p = PcBackIdle) (frames s')))"
    using idle move [of "\<lambda>p. p = PcBackIdle"] ok unfolding fs counters_ok_def
    by (metis add_right_cancel)
  moreover have "\<forall>u fr. frames s' u = Some fr \<longrightarrow> frame_ok fr"
    using ok new by (simp add: counters_ok_def fs)
  ultimately show ?thesis
    using fin by (simp add: counters_ok_def fs)
qed

text \<open>A thread enters or leaves \<open>run\<close> at points that no counter counts.\<close>

lemma threads_at_del:
  "threads_at P (fs(t := None)) = threads_at P fs - {t}"
  by (auto simp: threads_at_def)

lemma counters_ok_enter:
  assumes "counters_ok s" and "frames s t = None"
    and "counts s' = counts (set_frame t new_frame s)"
  shows "counters_ok s'"
proof -
  have "t \<notin> threads_at P (frames s)" for P using assms(2) by (simp add: threads_at_def)
  with assms show ?thesis
    by (auto simp: counters_ok_def counts_def threads_at_upd new_frame_def active_pc_def frame_ok_def)
qed

lemma counters_ok_leave:
  assumes "counters_ok s" and "frames s t = Some old" and "pc old = PcReturn"
    and "counts s' = counts (s\<lparr>frames := (frames s)(t := None)\<rparr>)"
  shows "counters_ok s'"
proof -
  have "t \<notin> threads_at active_pc (frames s)" "t \<notin> threads_at (\<lambda>p. p = PcBackIdle) (frames s)"
    using assms(2,3) by (simp_all add: threads_at_def active_pc_def)
  with assms show ?thesis
    by (auto simp: counters_ok_def counts_def threads_at_del)
qed

subsection \<open>Every step keeps the counters\<close>

locale virtuals =
  fixes vt :: "'z sys_scheme vtable"
  assumes notify_frame: "v_notify vt s = Inr s' \<Longrightarrow> \<exists>m. s' = sys.more_update m s"
    and idle_counts: "v_idle vt e cur t s = Inr s' \<Longrightarrow> counts s' = counts s"
begin

lemma counts_notify: "v_notify vt s = Inr s' \<Longrightarrow> counts s' = counts s"
  using notify_frame by fastforce

lemma counts_schedule: "schedule vt x s = Inr s' \<Longrightarrow> counts s' = counts s"
  by (auto simp: schedule_def scheduleNoLock_def counts_def split: if_splits dest!: notify_frame)

lemma counts_notify_times: "notify_times vt n s = Inr s' \<Longrightarrow> counts s' = counts s"
  by (induction n arbitrary: s) (auto dest: counts_notify)

end

text \<open>
  A thread's move as the change it makes to \<open>counts\<close>.
\<close>

definition moves :: "tid \<Rightarrow> 'z sys_scheme \<Rightarrow> 'z sys_scheme \<Rightarrow> bool" where
  "moves t s s' \<longleftrightarrow> (\<exists>old new. frames s t = Some old \<and> frame_ok new \<and>
     frames s' = (frames s)(t := Some new) \<and>
     m_activeThreadCount s' + weight (active_pc (pc old))
       = m_activeThreadCount s + weight (active_pc (pc new)) \<and>
     m_idleThreadCount s' + weight (pc old = PcBackIdle)
       = m_idleThreadCount s + weight (pc new = PcBackIdle))"

lemma counters_ok_moves: "counters_ok s \<Longrightarrow> moves t s s' \<Longrightarrow> counters_ok s'"
  unfolding moves_def by (elim exE conjE, rule counters_ok_move)

lemma movesI:
  assumes "frames s t = Some old" and "counts s' = counts (set_frame t new s1)" and "frame_ok new"
    and "frames s1 = frames s"
    and "m_activeThreadCount s1 + weight (active_pc (pc old))
       = m_activeThreadCount s + weight (active_pc (pc new))"
    and "m_idleThreadCount s1 + weight (pc old = PcBackIdle)
       = m_idleThreadCount s + weight (pc new = PcBackIdle)"
  shows "moves t s s'"
  using assms by (auto simp: moves_def counts_def)

lemmas counts_ops =
  counts_local [OF thread_local_only_ops(1)] counts_local [OF thread_local_only_ops(2)]
  counts_local [OF thread_local_only_ops(3)] counts_local [OF thread_local_only_ops(4)]
  counts_local [OF thread_local_only_ops(5)] counts_local [OF thread_local_only_new(1)]
  counts_local [OF thread_local_only_getThis] counts_local [OF thread_local_only_yield_store]
  counts_local [OF thread_local_only_mainFunc(1)] counts_local [OF thread_local_only_mainFunc(2)]
  counts_local [OF thread_local_only_mainFunc(3)] counts_local [OF thread_local_only_mainFunc_enter]

lemma counts_simps [simp]:
  "counts (set_tls t g s) = counts s" "counts (put_fiber a f s) = counts s"
  "counts (set_cpu t k s) = counts s" "counts (s\<lparr>m_fibers := q\<rparr>) = counts s"
  by (simp_all add: counts_def set_tls_def put_fiber_def set_cpu_def)

lemma frame_of_eq: "frames s t = Some fr \<Longrightarrow> frame_of t s = fr"
  by (simp add: frame_of_def)

lemma run_enter_counts:
  assumes step: "run_enter t s = Inr s'"
  obtains i where
    "counts s' = counts (set_frame t \<lparr>pc = PcLoop, ft = empty_task, cbFiber = None, idleFiber = i\<rparr> s)"
proof -
  let ?s1 = "set_tls t (t_scheduler_update (\<lambda>_. True)) s"
  from step obtain s3 i s4 where
    a: "(if t \<noteq> m_rootThread ?s1
         then rbind (getThis t ?s1) (\<lambda>(a, s2). Inr (set_tls t (t_mainFiber_update (\<lambda>_. Some a)) s2))
         else Inr ?s1) = Inr s3"
    and b: "Fiber_new (Some SchedulerIdle) 0 False s3 = (i, s4)"
    and s': "s' = set_frame t \<lparr>pc = PcLoop, ft = empty_task, cbFiber = None, idleFiber = i\<rparr> s4"
    unfolding run_enter_def Let_def by (elim rbindE) (auto split: prod.splits)
  have "counts s3 = counts s"
  proof (cases "t = m_rootThread ?s1")
    case True
    with a have "s3 = ?s1" by simp
    then show ?thesis by simp
  next
    case False
    with a show ?thesis by (auto dest!: counts_ops)
  qed
  moreover have "counts s4 = counts s3" using b by (rule counts_ops(6))
  ultimately show thesis by (intro that [of i]) (simp add: s' counts_def)
qed

lemmas pc_weights = active_pc_def weight_def frame_ok_def

lemma run_enter_moves:
  assumes fr: "frames s t = Some old" "pc old = PcEnter" and step: "run_enter t s = Inr s'"
  shows "moves t s s'"
proof -
  obtain i where "counts s' = counts (set_frame t
      \<lparr>pc = PcLoop, ft = empty_task, cbFiber = None, idleFiber = i\<rparr> s)"
    using step by (rule run_enter_counts)
  then show ?thesis by (rule movesI [OF fr(1)]) (simp_all add: fr pc_weights)
qed

lemma run_search_moves:
  assumes fr: "frames s t = Some old" "pc old = PcLoop" and step: "run_search t s = Inr s'"
  shows "moves t s s'"
proof -
  from step obtain r q n where
    r: "(case r of
        None \<Rightarrow> Inr (set_frame t (old\<lparr>ft := empty_task, pc := PcDispatch n False\<rparr>) s)
      | Some x \<Rightarrow>
          Inr (set_frame t (old\<lparr>ft := x, pc := PcDispatch n True\<rparr>)
            (s\<lparr>m_fibers := q, m_activeThreadCount := m_activeThreadCount s + 1\<rparr>))) = (Inr s' :: 'a sys_scheme res)"
    unfolding run_search_def Let_def frame_of_eq [OF fr(1)] by (elim rbindE) (auto split: prod.splits)
  show ?thesis
    by (cases r; use r in \<open>simp, intro movesI [OF fr(1), of s' _ "s\<lparr>m_activeThreadCount := m_activeThreadCount s'\<rparr>"]\<close>)
      (auto simp: fr pc_weights counts_def)
qed

lemma run_fiber_moves:
  assumes fr: "frames s t = Some old" "pc old = PcDispatch n True"
    and s0: "counts s1 = counts s" and step: "run_fiber t ret a s1 = Inr s'"
  shows "moves t s s'"
proof -
  have f1: "frames s1 t = Some old" using s0 fr(1) by (simp add: counts_def)
  have "counts s' = counts (set_frame t (old\<lparr>pc := PcBackFiber\<rparr>) s1)"
    using step unfolding run_fiber_def frame_of_eq [OF f1] by (rule counts_ops)
  then show ?thesis
    by (rule movesI [OF fr(1)]) (use s0 fr in \<open>simp_all add: pc_weights counts_def\<close>)
qed

lemma run_callback_moves:
  assumes fr: "frames s t = Some old" "pc old = PcDispatch n True"
    and s0: "counts s1 = counts s" and step: "run_callback t ret cb s1 = Inr s'"
  shows "moves t s s'"
proof -
  have f1: "frames s1 t = Some old" using s0 fr(1) by (simp add: counts_def)
  from step obtain c s2 where
    c: "(case cbFiber old of Some c \<Rightarrow> rbind (Fiber_reset c (Some cb) s1) (\<lambda>s1. Inr (c, s1))
         | None \<Rightarrow> Inr (Fiber_new (Some cb) 0 False s1)) = Inr (c, s2)"
    and sw: "swapIn t c (KRun ret) (set_frame t ((frame_of t s1)\<lparr>cbFiber := Some c,
      ft := empty_task, pc := PcBackCb\<rparr>) s2) = Inr s'"
    unfolding run_callback_def frame_of_eq [OF f1] by (elim rbindE) (auto split: prod.splits)
  have c2: "counts s2 = counts s"
    using c s0 by (auto split: option.splits dest!: counts_ops)
  have "counts s' = counts (set_frame t (old\<lparr>cbFiber := Some c,
      ft := empty_task, pc := PcBackCb\<rparr>) s2)"
    using sw unfolding frame_of_eq [OF f1] by (rule counts_ops)
  then show ?thesis
    by (rule movesI [OF fr(1)]) (use c2 fr in \<open>simp_all add: pc_weights counts_def\<close>)
qed

lemma run_idle_moves:
  assumes fr: "frames s t = Some old" "pc old = PcDispatch n False"
    and s0: "counts s1 = counts s" and step: "run_idle t ret s1 = Inr s'"
  shows "moves t s s'"
proof -
  have f1: "frames s1 t = Some old" using s0 fr(1) by (simp add: counts_def)
  from step obtain f :: fiber where
    c: "(if m_state f = State_TERM then Inr (set_frame t (old\<lparr>pc := PcReturn\<rparr>) s1)
       else swapIn t (idleFiber old) (KRun ret) (set_frame t (old\<lparr>pc := PcBackIdle\<rparr>)
              (s1\<lparr>m_idleThreadCount := m_idleThreadCount s1 + 1\<rparr>))) = Inr s'"
    unfolding run_idle_def frame_of_eq [OF f1] by (rule rbindE)
  show ?thesis
  proof (cases "m_state f = State_TERM")
    case True
    with c have "counts s' = counts (set_frame t (old\<lparr>pc := PcReturn\<rparr>) s1)" by simp
    then show ?thesis
      by (rule movesI [OF fr(1)]) (use s0 fr in \<open>simp_all add: pc_weights counts_def\<close>)
  next
    case False
    with c have "counts s' = counts (set_frame t (old\<lparr>pc := PcBackIdle\<rparr>)
              (s1\<lparr>m_idleThreadCount := m_idleThreadCount s1 + 1\<rparr>))"
      by (auto dest: counts_ops)
    then show ?thesis
      by (rule movesI [OF fr(1)]) (use s0 fr in \<open>simp_all add: pc_weights counts_def\<close>)
  qed
qed

lemma run_skip_moves:
  assumes fr: "frames s t = Some old" "pc old = PcDispatch n True" and s0: "counts s1 = counts s"
  shows "moves t s (set_frame t ((frame_of t s1)\<lparr>ft := empty_task, pc := PcLoop\<rparr>)
           (s1\<lparr>m_activeThreadCount := m_activeThreadCount s1 - 1\<rparr>))"
proof -
  have f1: "frames s1 t = Some old" using s0 fr(1) by (simp add: counts_def)
  show ?thesis
    by (rule movesI [OF fr(1) refl]) (use s0 fr in \<open>simp_all add: frame_of_eq [OF f1] pc_weights counts_def\<close>)
qed

lemma run_back_moves:
  assumes fr: "frames s t = Some old" "active_pc (pc old)" "pc old \<noteq> PcBackIdle"
    and new: "p = PcRequeueFiber \<or> p = PcRequeueCb"
  shows "moves t s (run_back p t s)"
proof -
  have "counts (run_back p t s) = counts (set_frame t (old\<lparr>pc := p\<rparr>)
      (s\<lparr>m_activeThreadCount := m_activeThreadCount s - 1\<rparr>))"
    by (simp add: run_back_def frame_of_eq [OF fr(1)])
  then show ?thesis
    by (rule movesI [OF fr(1)]) (use fr new in \<open>auto simp: weight_def frame_ok_def active_pc_def\<close>)
qed

lemma run_back_idle_moves:
  assumes fr: "frames s t = Some old" "pc old = PcBackIdle" and step: "run_back_idle t s = Inr s'"
  shows "moves t s s'"
proof -
  have "counts s' = counts (set_frame t (old\<lparr>pc := PcLoop\<rparr>)
      (s\<lparr>m_idleThreadCount := m_idleThreadCount s - 1\<rparr>))"
    using step by (auto simp: run_back_idle_def Let_def frame_of_eq [OF fr(1)] counts_def
        put_fiber_def)
  then show ?thesis
    by (rule movesI [OF fr(1)]) (simp_all add: fr pc_weights)
qed

context virtuals
begin

lemma run_dispatch_moves:
  assumes fr: "frames s t = Some old" "pc old = PcDispatch n isActive" "frame_ok old"
    and step: "run_dispatch vt t ret n isActive s = Inr s'"
  shows "moves t s s'"
proof -
  from step obtain s1 where s1: "(if n then v_notify vt s else Inr s) = Inr s1"
    and d: "(let x = ft (frame_of t s1) in
       rbind (case ft_fiber x of None \<Rightarrow> Inr False
              | Some a \<Rightarrow> rbind (fiber_at (Some a) s1) (\<lambda>f.
                  Inr (m_state f \<noteq> State_TERM \<and> m_state f \<noteq> State_EXCEPT))) (\<lambda>runnable.
         if runnable then run_fiber t ret (the (ft_fiber x)) s1
         else case ft_cb x of
                Some cb \<Rightarrow> run_callback t ret cb s1
              | None \<Rightarrow>
                  if isActive
                  then Inr (set_frame t ((frame_of t s1)\<lparr>ft := empty_task, pc := PcLoop\<rparr>)
                             (s1\<lparr>m_activeThreadCount := m_activeThreadCount s1 - 1\<rparr>))
                  else run_idle t ret s1)) = Inr s'"
    unfolding run_dispatch_def by (rule rbindE)
  have c1: "counts s1 = counts s" using s1 by (auto split: if_splits dest: counts_notify)
  then have f1: "frames s1 t = Some old" using fr(1) by (simp add: counts_def)
  from d obtain runnable where
    r: "(case ft_fiber (ft old) of None \<Rightarrow> Inr False
              | Some a \<Rightarrow> rbind (fiber_at (Some a) s1) (\<lambda>f.
                  Inr (m_state f \<noteq> State_TERM \<and> m_state f \<noteq> State_EXCEPT))) = Inr runnable"
    and k: "(if runnable then run_fiber t ret (the (ft_fiber (ft old))) s1
         else case ft_cb (ft old) of
                Some cb \<Rightarrow> run_callback t ret cb s1
              | None \<Rightarrow>
                  if isActive
                  then Inr (set_frame t ((frame_of t s1)\<lparr>ft := empty_task, pc := PcLoop\<rparr>)
                             (s1\<lparr>m_activeThreadCount := m_activeThreadCount s1 - 1\<rparr>))
                  else run_idle t ret s1) = Inr s'"
    unfolding frame_of_eq [OF f1] Let_def by (rule rbindE)
  show ?thesis
  proof (cases isActive)
    case True
    with fr(2) have p: "pc old = PcDispatch n True" by simp
    show ?thesis
      using k True run_skip_moves [OF fr(1) p c1] run_fiber_moves [OF fr(1) p c1]
        run_callback_moves [OF fr(1) p c1]
      by (auto split: if_splits option.splits)
  next
    case False
    with fr have "ft old = empty_task" by (simp add: frame_ok_def)
    with r k False have "run_idle t ret s1 = Inr s'" by (simp add: empty_task_def)
    with fr c1 False show ?thesis by (intro run_idle_moves) auto
  qed
qed

lemma run_requeue_fiber_moves:
  assumes fr: "frames s t = Some old" "pc old = PcRequeueFiber"
    and step: "run_requeue_fiber vt t s = Inr s'"
  shows "moves t s s'"
proof -
  from step obtain f :: fiber and s1 where
    r: "(if m_state f = State_READY then schedule vt (fiber_task (the (ft_fiber (ft (frame_of t s)))) (-1)) s
         else if m_state f \<noteq> State_TERM \<and> m_state f \<noteq> State_EXCEPT
         then Inr (put_fiber (the (ft_fiber (ft (frame_of t s)))) (f\<lparr>m_state := State_HOLD\<rparr>) s)
         else Inr s) = Inr s1"
    and s': "s' = set_frame t ((frame_of t s1)\<lparr>ft := empty_task, pc := PcLoop\<rparr>) s1"
    unfolding run_requeue_fiber_def Let_def by (elim rbindE) auto
  have c1: "counts s1 = counts s"
    using r by (auto split: if_splits dest: counts_schedule)
  then have f1: "frames s1 t = Some old" using fr(1) by (simp add: counts_def)
  show ?thesis
    unfolding s' by (rule movesI [OF fr(1) refl])
      (use c1 fr in \<open>simp_all add: frame_of_eq [OF f1] pc_weights counts_def\<close>)
qed

lemma run_requeue_cb_moves:
  assumes fr: "frames s t = Some old" "pc old = PcRequeueCb"
    and step: "run_requeue_cb vt t s = Inr s'"
  shows "moves t s s'"
proof -
  from step obtain f :: fiber and cb' s1 where
    r: "(let c = the (cbFiber (frame_of t s)) in
         if m_state f = State_READY
         then rbind (schedule vt (fiber_task c (-1)) s) (\<lambda>s1. Inr (None, s1))
         else if m_state f = State_EXCEPT \<or> m_state f = State_TERM
         then rbind (Fiber_reset c None s) (\<lambda>s1. Inr (Some c, s1))
         else Inr (None, put_fiber c (f\<lparr>m_state := State_HOLD\<rparr>) s)) = Inr (cb', s1)"
    and s': "s' = set_frame t ((frame_of t s1)\<lparr>cbFiber := cb', pc := PcLoop\<rparr>) s1"
    unfolding run_requeue_cb_def Let_def by (elim rbindE) auto
  have c1: "counts s1 = counts s"
    using r by (auto simp: Let_def split: if_splits dest!: counts_schedule counts_ops)
  then have f1: "frames s1 t = Some old" using fr(1) by (simp add: counts_def)
  show ?thesis
    unfolding s' by (rule movesI [OF fr(1) refl])
      (use c1 fr in \<open>simp_all add: frame_of_eq [OF f1] pc_weights counts_def\<close>)
qed

lemma run_return_counts:
  "run_return t ret s = Inr s' \<Longrightarrow> counts s' = counts (s\<lparr>frames := (frames s)(t := None)\<rparr>)"
  by (auto simp: run_return_def Let_def split: option.splits prod.splits dest: counts_ops)

lemma counters_ok_run_step:
  assumes ok: "counters_ok s" and step: "run_step vt t ret s = Inr s'"
  shows "counters_ok s'"
proof -
  from step obtain old where fr: "frames s t = Some old"
    by (auto simp: run_step_def split: option.splits)
  have fo: "frame_ok old" using ok fr by (simp add: counters_ok_def)
  note s = step [unfolded run_step_def fr option.case]
  show ?thesis
  proof (cases "pc old")
    case PcEnter
    with s have "run_enter t s = Inr s'" by simp
    with fr PcEnter show ?thesis by (intro counters_ok_moves [OF ok] run_enter_moves)
  next
    case PcLoop
    with s have "run_search t s = Inr s'" by simp
    with fr PcLoop show ?thesis by (intro counters_ok_moves [OF ok] run_search_moves)
  next
    case (PcDispatch n a)
    with s have "run_dispatch vt t ret n a s = Inr s'" by simp
    with fr PcDispatch fo show ?thesis by (intro counters_ok_moves [OF ok] run_dispatch_moves)
  next
    case PcBackFiber
    with s fr show ?thesis
      by (auto intro!: counters_ok_moves [OF ok] run_back_moves simp: active_pc_def)
  next
    case PcRequeueFiber
    with s have "run_requeue_fiber vt t s = Inr s'" by simp
    with fr PcRequeueFiber show ?thesis by (intro counters_ok_moves [OF ok] run_requeue_fiber_moves)
  next
    case PcBackCb
    with s fr show ?thesis
      by (auto intro!: counters_ok_moves [OF ok] run_back_moves simp: active_pc_def)
  next
    case PcRequeueCb
    with s have "run_requeue_cb vt t s = Inr s'" by simp
    with fr PcRequeueCb show ?thesis by (intro counters_ok_moves [OF ok] run_requeue_cb_moves)
  next
    case PcBackIdle
    with s have "run_back_idle t s = Inr s'" by simp
    with fr PcBackIdle show ?thesis by (intro counters_ok_moves [OF ok] run_back_idle_moves)
  next
    case PcReturn
    with s have "run_return t ret s = Inr s'" by simp
    with fr PcReturn show ?thesis
      by (intro counters_ok_leave [OF ok]) (auto dest: run_return_counts)
  qed
qed

lemma client_step_counts: "client_step vt t e cur ops s = Inr s' \<Longrightarrow> counts s' = counts s"
  by (cases ops rule: list.exhaust)
    (auto simp: client_step_def split: client_op.splits dest!: counts_ops counts_schedule)

lemma counters_ok_thread_step:
  assumes ok: "counters_ok s" and step: "thread_step vt t s = Inr s'"
  shows "counters_ok s'"
proof (cases "cpu (tls s t)")
  case (KBody e cur cb)
  with step have b: "body_step vt t e cur cb s = Inr s'" by (simp add: thread_step_def)
  show ?thesis
  proof (cases cb)
    case (Client ops)
    with b show ?thesis
      by (auto simp: body_step_def counters_ok_counts [OF client_step_counts] ok)
  next
    case SchedulerIdle
    with b show ?thesis by (auto simp: body_step_def counters_ok_counts [OF idle_counts] ok)
  next
    case SchedulerRun
    with b show ?thesis
      by (auto simp: body_step_def split: if_splits intro!: counters_ok_enter [OF ok])
  qed
next
  case (KRun ret)
  with step show ?thesis by (auto simp: thread_step_def intro: counters_ok_run_step [OF ok])
next
  case (KEpilogue e cur)
  with step have "mainFunc_leave e cur t s = Inr s'" by (simp add: thread_step_def)
  then show ?thesis using ok counters_ok_counts [OF counts_ops(11)] by blast
next
  case (KJoin us)
  with step have "counts s' = counts s"
    by (auto simp: thread_step_def stop_join_def split: option.splits list.splits if_splits)
  then show ?thesis using ok by (simp only: counters_ok_counts [of s' s])
next
  case KStopSwap
  with step have "counts s' = counts s"
    by (auto simp: thread_step_def stop_swap_def counts_def set_cpu_def set_tls_def)
  then show ?thesis using ok by (simp only: counters_ok_counts [of s' s])
next
  case (KEntry e)
  with step have "mainFunc_enter e t s = Inr s'" by (simp add: thread_step_def)
  then show ?thesis using ok counters_ok_counts [OF counts_ops(12)] by blast
next
  case (KYield e cur a cb)
  with step have "swapOut t a (KBody e cur cb) s = Inr s'" by (simp add: thread_step_def)
  then show ?thesis using ok counters_ok_counts [OF counts_ops(2)] by blast
qed (use step ok in \<open>simp_all add: thread_step_def\<close>)

lemma counters_ok_start:
  "counters_ok s \<Longrightarrow> distinct us \<Longrightarrow> \<forall>u \<in> set us. frames s u = None \<Longrightarrow>
   counters_ok (start_threads i us s)"
proof (induction us arbitrary: i s)
  case Nil
  then show ?case by simp
next
  case (Cons u us)
  have f: "frames (start_thread i u s) = (frames s)(u := Some new_frame)"
    by (simp add: start_thread_def Let_def set_tls_def)
  have c: "counts (start_thread i u s) = counts (set_frame u new_frame s)"
    by (simp add: start_thread_def Let_def counts_def set_tls_def)
  have "counters_ok (start_thread i u s)"
    by (rule counters_ok_enter [OF _ _ c]) (use Cons.prems in simp_all)
  then have "counters_ok (start_threads (Suc i) us (start_thread i u s))"
    by (rule Cons.IH) (use Cons.prems in \<open>auto simp: f\<close>)
  then show ?case by simp
qed

lemma stop_counts:
  assumes "stop vt t s = Inr s'"
  shows "counts s' = counts s"
proof -
  have late: "counts s2 = counts s1" if step: "stop_late vt t s1 = Inr s2" for s1 s2 :: "'z sys_scheme"
  proof -
    from step obtain s3 where n: "notify_times vt (unat (m_threadCount s1)) (s1\<lparr>m_isRunning := False\<rparr>) = Inr s3"
      and k: "(case m_rootFiber s3 of
            None \<Rightarrow> Inr (set_cpu t KStopSwap s3)
          | Some r \<Rightarrow>
              rbind (v_notify vt s3) (\<lambda>s4.
                if v_stopped vt s4 then Inr (set_cpu t KStopSwap s4)
                else Fiber_call t r KStopSwap s4)) = Inr s2"
      by (auto simp: stop_late_def)
    have "counts s3 = counts s1" using counts_notify_times [OF n] by (simp add: counts_def)
    with k show ?thesis
      by (auto split: option.splits if_splits dest!: counts_notify counts_ops)
  qed
  show ?thesis
    using assms
    by (auto simp: stop_def Let_def split: if_splits dest!: late) (simp_all add: counts_def)
qed

lemma counters_ok_sys_step:
  "sys_step vt ext s s' \<Longrightarrow> counters_ok s \<Longrightarrow> counters_ok s'"
proof (induction rule: sys_step.induct)
  case (step_thread t s s')
  then show ?case using counters_ok_thread_step by blast
next
  case (step_schedule s t x s')
  then show ?case using counters_ok_counts [OF counts_schedule] by blast
next
  case (step_start s t tids s')
  show ?case
  proof (cases "m_isRunning s")
    case True
    with step_start show ?thesis by (simp add: start_def)
  next
    case False
    with step_start have "s' = start_threads 0 tids (s\<lparr>m_isRunning := True\<rparr>)"
      by (simp add: start_def Let_def)
    moreover have "counters_ok (s\<lparr>m_isRunning := True\<rparr>)"
      using step_start(6) by (simp add: counters_ok_def)
    ultimately show ?thesis
      using step_start counters_ok_start [of "s\<lparr>m_isRunning := True\<rparr>" tids] by simp
  qed
next
  case (step_stop s t s')
  then show ?case using counters_ok_counts [OF stop_counts] by blast
qed

lemma counters_ok_reachable: "reachable vt ext s s' \<Longrightarrow> counters_ok s \<Longrightarrow> counters_ok s'"
  by (induction rule: reachable.induct) (auto dest: counters_ok_sys_step)

end

subsection \<open>The base class keeps the contract\<close>

lemma Scheduler_idle_counts: "Scheduler_idle st e cur t s = Inr s' \<Longrightarrow> counts s' = counts s"
  by (auto simp: Scheduler_idle_def split: if_splits dest!: counts_ops)

interpretation base: virtuals scheduler_vt
proof
  fix s s' :: "'z sys_scheme"
  show "\<exists>m. s' = sys.more_update m s" if "v_notify scheduler_vt s = Inr s'"
    using that by (intro exI [of _ "\<lambda>x. x"]) (simp add: scheduler_vt_def Scheduler_notify_def)
  show "counts s' = counts s" if "v_idle scheduler_vt e cur t s = Inr s'" for e cur t
    using that by (auto simp: scheduler_vt_def dest: Scheduler_idle_counts)
qed

subsection \<open>Properties\<close>

lemma Scheduler_new_counts:
  assumes new: "Scheduler_new t threads useCaller name s0 = Inr s"
  shows "counts s = counts s0"
proof (cases useCaller)
  case False
  with new have "s = s0\<lparr>m_name := name, m_rootThread := -1, m_threadCount := threads\<rparr>"
    by (simp add: Scheduler_new_def Let_def)
  then show ?thesis by (simp add: counts_def)
next
  case True
  with new obtain m s1 where g: "getThis t (s0\<lparr>m_name := name\<rparr>) = Inr (m, s1)"
    and r: "(let s2 = set_tls t (t_scheduler_update (\<lambda>_. True)) s1;
                 (r, s3) = Fiber_new (Some SchedulerRun) 0 True s2;
                 s4 = set_tls t (t_mainFiber_update (\<lambda>_. Some r)) (s3\<lparr>m_rootFiber := Some r\<rparr>)
             in Inr (s4\<lparr>m_rootThread := t, m_threadIds := m_threadIds s4 @ [t],
                        m_threadCount := threads - 1\<rparr>)) = (Inr s :: 'a sys_scheme res)"
    by (auto simp: Scheduler_new_def Let_def)
  obtain r s3 where f: "Fiber_new (Some SchedulerRun) 0 True
      (set_tls t (t_scheduler_update (\<lambda>_. True)) s1) = (r, s3)" by (rule prod.exhaust)
  have "counts s1 = counts s0" using counts_ops(7) [OF g] by (simp add: counts_def)
  moreover have "counts s3 = counts s1" using counts_ops(6) [OF f] by simp
  moreover have "counts s = counts s3"
    using r unfolding Let_def f by (auto simp: counts_def set_tls_def)
  ultimately show ?thesis by simp
qed

lemma counters_ok_new:
  assumes "Scheduler_new t threads useCaller name (fresh_scheduler p) = Inr s"
  shows "counters_ok s"
proof -
  have "counters_ok (fresh_scheduler p)"
    by (simp add: counters_ok_def fresh_scheduler_def proc.defs threads_at_def)
  with counters_ok_counts [OF Scheduler_new_counts [OF assms]] show ?thesis by simp
qed

lemma counters_exact:
  assumes ok: "counters_ok s" and room: "card (dom (frames s)) < 2 ^ 64"
  shows "unat (m_activeThreadCount s) = card (threads_at active_pc (frames s)) \<and>
    unat (m_idleThreadCount s) = card (threads_at (\<lambda>p. p = PcBackIdle) (frames s)) \<and>
    (Scheduler_stopped s \<longleftrightarrow> m_autoStop s \<and> \<not> m_isRunning s \<and> m_fibers s = [] \<and>
      (\<forall>u fr. frames s u = Some fr \<longrightarrow> \<not> active_pc (pc fr)))"
proof -
  have fin: "finite (dom (frames s))" using ok by (simp add: counters_ok_def)
  have le: "card (threads_at P (frames s)) < 2 ^ 64" for P
  proof -
    have "card (threads_at P (frames s)) \<le> card (dom (frames s))"
      by (rule card_mono [OF fin]) (auto simp: threads_at_def)
    with room show ?thesis by simp
  qed
  have a: "unat (m_activeThreadCount s) = card (threads_at active_pc (frames s))"
    and i: "unat (m_idleThreadCount s) = card (threads_at (\<lambda>p. p = PcBackIdle) (frames s))"
    using ok le by (simp_all add: counters_ok_def unat_of_nat)
  have "m_activeThreadCount s = 0 \<longleftrightarrow> threads_at active_pc (frames s) = {}"
    using a finite_threads_at [OF fin] by (metis card_0_eq unat_eq_zero)
  then have "m_activeThreadCount s = 0 \<longleftrightarrow> (\<forall>u fr. frames s u = Some fr \<longrightarrow> \<not> active_pc (pc fr))"
    by (auto simp: threads_at_def)
  with a i show ?thesis by (simp add: Scheduler_stopped_def)
qed

text \<open>
  C5. From the construction of the scheduler on, whatever the clients do and in whatever order the
  threads move: \<open>m_activeThreadCount\<close> is the number of threads between taking a task and the
  decrement after it, \<open>m_idleThreadCount\<close> the number of threads in their idle fiber, and
  \<open>stopped()\<close> holds exactly when \<open>stop\<close> was asked for, the queue is empty and no thread is active.
\<close>

theorem thread_counters_exact:
  assumes new: "Scheduler_new t threads useCaller name (fresh_scheduler p) = Inr s0"
    and run: "reachable scheduler_vt ext s0 s"
    and room: "card (dom (frames s)) < 2 ^ 64"
  shows "unat (m_activeThreadCount s) = card (threads_at active_pc (frames s)) \<and>
    unat (m_idleThreadCount s) = card (threads_at (\<lambda>p. p = PcBackIdle) (frames s)) \<and>
    (Scheduler_stopped s \<longleftrightarrow> m_autoStop s \<and> \<not> m_isRunning s \<and> m_fibers s = [] \<and>
      (\<forall>u fr. frames s u = Some fr \<longrightarrow> \<not> active_pc (pc fr)))"
  using base.counters_ok_reachable [OF run counters_ok_new [OF new]] room by (rule counters_exact)

text \<open>A pool of one thread that has found a task, for the example.\<close>

definition demo_start :: sys where
  "demo_start = (fresh_scheduler init_proc)\<lparr>m_rootThread := -1, m_threadCount := 1\<rparr>"

definition demo_taken :: "sys res" where
  "demo_taken = run_threads scheduler_vt [1, 1]
     (put_task (cb_task (Client []) (-1)) (start_thread 0 1 (demo_start\<lparr>m_isRunning := True\<rparr>)))"

lemma demo_start_reachable:
  "reachable scheduler_vt (\<lambda>_. True) demo_start
     (put_task (cb_task (Client []) (-1)) (start_thread 0 1 (demo_start\<lparr>m_isRunning := True\<rparr>)))"
proof -
  have 1: "sys_step scheduler_vt (\<lambda>_. True) demo_start (start_thread 0 1 (demo_start\<lparr>m_isRunning := True\<rparr>))"
    by (rule step_start [where t = 0 and tids = "[1]"])
      (simp_all add: demo_start_def start_def fresh_scheduler_def init_proc_def init_tls_def proc.defs)
  have 2: "sys_step scheduler_vt (\<lambda>_. True) (start_thread 0 1 (demo_start\<lparr>m_isRunning := True\<rparr>))
     (put_task (cb_task (Client []) (-1)) (start_thread 0 1 (demo_start\<lparr>m_isRunning := True\<rparr>)))"
    by (rule step_schedule [where t = 0 and x = "cb_task (Client []) (-1)"])
      (simp_all add: demo_start_def start_thread_def fresh_scheduler_def init_proc_def init_tls_def
        proc.defs schedule_def put_task_def scheduleNoLock_def scheduler_vt_def Scheduler_notify_def
        Let_def set_tls_def)
  show ?thesis by (rule reach_step [OF reach_step [OF reach_refl 1] 2])
qed

lemma demo_taken_ok: "\<exists>s. demo_taken = Inr s \<and> frames s = [1 \<mapsto>
    \<lparr>pc = PcDispatch False True, ft = cb_task (Client []) (-1), cbFiber = None, idleFiber = Suc 0\<rparr>]"
  by (simp add: demo_taken_def demo_start_def start_thread_def fresh_scheduler_def init_proc_def
      init_tls_def proc.defs put_task_def scheduleNoLock_def Let_def set_tls_def set_cpu_def
      thread_step_def run_step_def run_enter_def new_frame_def getThis_def Fiber_main_def
      Fiber_new_def put_fiber_def setThis_def set_frame_def run_search_def frame_of_def cb_task_def)

theorem thread_counters_exact_witness:
  "\<exists>s. demo_taken = Inr s \<and> unat (m_activeThreadCount s) = 1 \<and> \<not> Scheduler_stopped s"
proof -
  obtain s fr where s: "demo_taken = Inr s" "frames s = [1 \<mapsto> fr]" "active_pc (pc fr)"
    using demo_taken_ok by (auto simp: active_pc_def)
  have new: "Scheduler_new 0 1 False [] (fresh_scheduler init_proc) = Inr demo_start"
    by (simp add: Scheduler_new_def demo_start_def Let_def fresh_scheduler_def proc.defs)
  have run: "reachable scheduler_vt (\<lambda>_. True) demo_start s"
    using demo_start_reachable reachable_run_threads [OF s(1) [unfolded demo_taken_def]]
    by (rule reachable_trans)
  have "threads_at active_pc (frames s) = {1}"
    using s(3) by (auto simp: s(2) threads_at_def split: if_splits)
  then have "unat (m_activeThreadCount s) = 1"
    using thread_counters_exact [OF new run] by (simp add: s(2))
  moreover have "\<not> Scheduler_stopped s"
    using thread_counters_exact [OF new run] s(3) by (auto simp: s(2))
  ultimately show ?thesis using s(1) by blast
qed

end
