(* ===== verification/SchedulerTraces.thy ===== *)
theory SchedulerTraces
  imports SchedulerCounts
begin

section \<open>What follows a switch, and interleavings that go wrong\<close>

text \<open>
  First the part of \<open>run\<close> after a switch, on every state a fiber can come back with. Then runs of
  the whole machine from the constructor on, computed step by step: each is one interleaving the
  code allows, and each shows a behaviour the code does not mean to have.
\<close>

subsection \<open>Requeueing\<close>

text \<open>
  When the fiber of a task has switched back, \<open>run\<close> queues it again exactly when it yielded
  READY, at the end of the queue; it turns the state into HOLD unless the fiber has ended, touches
  no other object and forgets the task. The new task is for any thread: the thread the task was
  pinned to is lost.
\<close>

theorem requeue_fiber_spec:
  assumes fr: "frames s t = Some fr" "ft_fiber (ft fr) = Some a" and f: "heap s a = Some f"
  shows "\<exists>s'. run_requeue_fiber scheduler_vt t s = Inr s' \<and>
    m_fibers s' = m_fibers s @ (if m_state f = State_READY then [fiber_task a (-1)] else []) \<and>
    heap s' = (heap s)(a \<mapsto> f\<lparr>m_state :=
      (if m_state f \<in> {State_READY, State_TERM, State_EXCEPT} then m_state f else State_HOLD)\<rparr>) \<and>
    frames s' = (frames s)(t \<mapsto> fr\<lparr>ft := empty_task, pc := PcLoop\<rparr>) \<and>
    (m_state f = State_READY \<longrightarrow> (\<forall>u. \<not> foreign u (last (m_fibers s'))))"
proof -
  have fo: "frame_of t s = fr" by (rule frame_of_eq [OF fr(1)])
  have h: "(heap s)(a \<mapsto> f) = heap s" using f by (auto simp: fun_eq_iff)
  show ?thesis
    by (auto simp: run_requeue_fiber_def fo fr f fiber_at_def Let_def schedule_def scheduleNoLock_def
        scheduler_vt_def Scheduler_notify_def fiber_task_def foreign_def frame_of_def h set_frame_def
        put_fiber_def)
qed

text \<open>
  The same for a fiber that ran a callback. When it has ended, the thread keeps the object,
  empty and in state INIT, for its next callback; when it yielded, the thread lets go of it, and it
  is queued again exactly when it yielded READY, again for any thread.
\<close>

theorem requeue_callback_spec:
  assumes fr: "frames s t = Some fr" "cbFiber fr = Some c" and f: "heap s c = Some f" "m_stack f"
  shows "\<exists>s'. run_requeue_cb scheduler_vt t s = Inr s' \<and>
    m_fibers s' = m_fibers s @ (if m_state f = State_READY then [fiber_task c (-1)] else []) \<and>
    (if m_state f \<in> {State_TERM, State_EXCEPT}
     then heap s' c = Some (f\<lparr>m_cb := None, m_ctx := CtxEntry MainFunc, m_state := State_INIT\<rparr>) \<and>
       frames s' = (frames s)(t \<mapsto> fr\<lparr>cbFiber := Some c, pc := PcLoop\<rparr>)
     else heap s' c = Some (f\<lparr>m_state :=
         (if m_state f = State_READY then State_READY else State_HOLD)\<rparr>) \<and>
       frames s' = (frames s)(t \<mapsto> fr\<lparr>cbFiber := None, pc := PcLoop\<rparr>))"
proof -
  have fo: "frame_of t s = fr" by (rule frame_of_eq [OF fr(1)])
  show ?thesis
    using f
    by (auto simp: run_requeue_cb_def fo fr fiber_at_def Let_def schedule_def scheduleNoLock_def
        scheduler_vt_def Scheduler_notify_def fiber_task_def frame_of_def set_frame_def
        put_fiber_def Fiber_reset_def)
qed

definition demo_back :: "fiber_state \<Rightarrow> sys" where
  "demo_back st = (fresh_scheduler demo_proc)\<lparr>
     heap := (heap demo_proc)(1 \<mapsto> (the (heap demo_proc 1))\<lparr>m_state := st\<rparr>),
     frames := [7 \<mapsto> \<lparr>pc = PcRequeueFiber, ft = fiber_task 1 7, cbFiber = Some 1, idleFiber = 2\<rparr>]\<rparr>"

lemma demo_back_sel:
  "frames (demo_back st) 7
     = Some \<lparr>pc = PcRequeueFiber, ft = fiber_task 1 7, cbFiber = Some 1, idleFiber = 2\<rparr>"
  "m_fibers (demo_back st) = []"
  "heap (demo_back st) 1 = Some ((the (heap demo_proc 1))\<lparr>m_state := st\<rparr>)"
  "m_stack (the (heap demo_proc 1))"
  by (simp_all add: demo_back_def fresh_scheduler_def proc.defs demo_proc_def)

theorem requeue_fiber_spec_witness:
  "\<exists>s'. run_requeue_fiber scheduler_vt 7 (demo_back State_READY) = Inr s' \<and>
     m_fibers s' = [fiber_task 1 (-1)]"
  using requeue_fiber_spec [OF demo_back_sel(1) _ demo_back_sel(3), of State_READY]
  by (auto simp: fiber_task_def demo_back_sel)

theorem requeue_callback_spec_witness:
  "\<exists>s' f. run_requeue_cb scheduler_vt 7 (demo_back State_TERM) = Inr s' \<and> m_fibers s' = [] \<and>
     heap s' 1 = Some f \<and> m_state f = State_INIT"
  using requeue_callback_spec [OF demo_back_sel(1) _ demo_back_sel(3), of State_TERM] demo_back_sel(4)
  by (auto simp: demo_back_sel simp del: One_nat_def)

subsection \<open>Runs from the constructor on\<close>

text \<open>
  \<open>pool_run pool tasks ts\<close>: thread 0 makes a scheduler without \<open>useCaller\<close>, starts its pool and
  schedules the tasks; then the threads \<open>ts\<close> move, one step each.
\<close>

definition pool_run :: "tid list \<Rightarrow> task list \<Rightarrow> tid list \<Rightarrow> sys res" where
  "pool_run pool tasks ts =
     rbind (Scheduler_new 0 (of_nat (length pool)) False ''pool'' (fresh_scheduler init_proc)) (\<lambda>s0.
     rbind (start pool s0) (\<lambda>s1. run_threads scheduler_vt ts (fold put_task tasks s1)))"

text \<open>
  Evaluation by the simplifier: the definitions of the machine, with a congruence that keeps it out
  of a continuation until its argument is known.
\<close>

lemma rbind_weak_cong: "r = r' \<Longrightarrow> rbind r f = rbind r' f"
  by simp

lemma notify_times_numeral [step_defs]:
  "notify_times vt (numeral k) s = rbind (v_notify vt s) (notify_times vt (pred_numeral k))"
  by (simp add: numeral_eq_Suc)

lemmas [step_defs] =
  pool_run_def Scheduler_new_def fresh_scheduler_def init_proc_def proc.defs init_tls_def
  start_def start_thread_def new_frame_def put_task_def schedule_def scheduleNoLock_def
  Let_def set_tls_def set_cpu_def put_fiber_def setThis_def fiber_at_def
  getThis_def Fiber_main_def Fiber_new_def Fiber_reset_def
  swapIn_def swapOut_def Fiber_call_def Fiber_back_def swapcontext_def resume_def
  yield_store_def mainFunc_enter_def mainFunc_return_def mainFunc_catch_def mainFunc_leave_def
  thread_step_def body_step_def client_step_def run_step_def run_enter_def run_search_def
  run_dispatch_def run_fiber_def run_callback_def run_idle_def run_back_def run_requeue_fiber_def
  run_requeue_cb_def run_back_idle_def run_return_def set_frame_def frame_of_def
  cb_task_def fiber_task_def empty_task_def Scheduler_idle_def Scheduler_stopped_def
  scheduler_vt_def Scheduler_notify_def stop_def stop_early_def stop_late_def stop_swap_def stop_join_def


text \<open>\<open>stop_twice ts\<close>: a task and \<open>stop\<close>, the moves \<open>ts\<close>, another task and \<open>stop\<close>, one move.\<close>

definition stop_twice :: "tid list \<Rightarrow> sys res" where
  "stop_twice ts =
     rbind (Scheduler_new 0 1 True ''main'' (fresh_scheduler init_proc)) (\<lambda>s0.
     rbind (start [] s0) (\<lambda>s1.
     rbind (stop scheduler_vt 0 (put_task (cb_task (Client []) (-1)) s1)) (\<lambda>s2.
     rbind (run_threads scheduler_vt ts s2) (\<lambda>s3.
     server_assert (cpu (tls s3 0) = KOutside \<and> m_fibers s3 = []) ''first stop has returned''
       (rbind (stop scheduler_vt 0 (put_task (cb_task (Client []) (-1)) s3)) (\<lambda>s4.
          thread_step scheduler_vt 0 s4))))))"



end
