(* ===== verification/SchedulerLiveness.thy ===== *)
theory SchedulerLiveness
  imports SchedulerTraces
begin

section \<open>A scheduler on one thread finishes its work\<close>

text \<open>
  The use the framework is made for: a thread makes a scheduler, schedules callbacks and calls
  \<open>stop\<close>, which runs the root fiber in the same thread. The callbacks may throw, schedule further
  callbacks and give way with \<open>yieldToReady\<close>. An abstract scheduler, a queue of programs of which
  the first runs until it ends or gives way, is refined by the machine; its queue empties, and so
  \<open>stop\<close> returns with every callback executed.
\<close>

subsection \<open>Steps of one thread\<close>

definition leads :: "tid \<Rightarrow> sys \<Rightarrow> sys \<Rightarrow> bool" where
  "leads t s s' \<longleftrightarrow> (\<exists>n. run_threads scheduler_vt (replicate n t) s = Inr s')"

lemma leads_refl [simp]: "leads t s s"
  unfolding leads_def by (rule exI [of _ 0]) simp

lemma leads_step: "thread_step scheduler_vt t s = Inr s1 \<Longrightarrow> leads t s1 s' \<Longrightarrow> leads t s s'"
proof -
  assume "thread_step scheduler_vt t s = Inr s1" "leads t s1 s'"
  then obtain n where "run_threads scheduler_vt (replicate (Suc n) t) s = Inr s'"
    unfolding leads_def by auto
  then show ?thesis unfolding leads_def by blast
qed

lemma run_threads_append:
  "run_threads vt (us @ ts) s = rbind (run_threads vt us s) (run_threads vt ts)"
proof (induction us arbitrary: s)
  case (Cons u us)
  then show ?case by (cases "thread_step vt u s") simp_all
qed simp

lemma leads_trans: "leads t s s1 \<Longrightarrow> leads t s1 s' \<Longrightarrow> leads t s s'"
proof -
  assume "leads t s s1" "leads t s1 s'"
  then obtain n k where "run_threads scheduler_vt (replicate n t) s = Inr s1"
    "run_threads scheduler_vt (replicate k t) s1 = Inr s'" unfolding leads_def by auto
  then have "run_threads scheduler_vt (replicate (n + k) t) s = Inr s'"
    by (simp add: replicate_add run_threads_append)
  then show ?thesis unfolding leads_def by blast
qed

subsection \<open>The abstract scheduler\<close>

text \<open>Callbacks that end, throw, give way or schedule such callbacks for any thread or this one.\<close>

fun simple_op :: "tid \<Rightarrow> client_op \<Rightarrow> bool" where
  "simple_op t OpYieldToReady = True"
| "simple_op t OpYieldToHold = False"
| "simple_op t (OpScheduleCb p thr) = ((thr = -1 \<or> thr = t) \<and> (\<forall>x \<in> set p. simple_op t x))"
| "simple_op t (OpScheduleFiber a thr) = False"
| "simple_op t (OpScheduleThis thr) = False"
| "simple_op t (OpThrow w) = True"

definition simple :: "tid \<Rightarrow> client_op list \<Rightarrow> bool" where
  "simple t p \<longleftrightarrow> (\<forall>x \<in> set p. simple_op t x)"

text \<open>
  One turn of a program: what it schedules, how it ends (with a return, an exception or by giving
  way) and what is left of it.
\<close>

datatype turn = Done | Thrown | Yielded "client_op list"

fun slice :: "client_op list \<Rightarrow> (client_op list \<times> int) list \<times> turn" where
  "slice [] = ([], Done)"
| "slice (OpYieldToReady # r) = ([], Yielded r)"
| "slice (OpThrow w # r) = ([], Thrown)"
| "slice (OpScheduleCb p thr # r) = (case slice r of (ps, x) \<Rightarrow> ((p, thr) # ps, x))"
| "slice (_ # r) = slice r"

fun abstract_step :: "client_op list list \<Rightarrow> client_op list list" where
  "abstract_step [] = []"
| "abstract_step (p # ps) =
     ps @ map fst (fst (slice p)) @ (case snd (slice p) of Yielded r \<Rightarrow> [r] | _ \<Rightarrow> [])"

fun cost :: "client_op \<Rightarrow> nat" where
  "cost (OpScheduleCb p thr) = Suc (Suc (sum_list (map cost p)))"
| "cost _ = 1"

definition work :: "client_op list list \<Rightarrow> nat" where
  "work ps = sum_list (map (\<lambda>p. Suc (sum_list (map cost p))) ps)"

lemma work_simps [simp]:
  "work [] = 0" "work (p # ps) = Suc (sum_list (map cost p)) + work ps" "work (ps @ qs) = work ps + work qs"
  by (simp_all add: work_def)

lemma slice_work:
  "work (map fst (fst (slice p))) + (case snd (slice p) of Yielded r \<Rightarrow> Suc (sum_list (map cost r)) | _ \<Rightarrow> 0)
   \<le> sum_list (map cost p)"
  by (induction p rule: slice.induct) (auto split: prod.splits turn.splits)

lemma abstract_step_work: "ps \<noteq> [] \<Longrightarrow> work (abstract_step ps) < work ps"
  using slice_work [of "hd ps"] by (cases ps) (auto split: turn.splits)

lemma simple_slice:
  "simple t p \<Longrightarrow> (\<forall>(q, thr) \<in> set (fst (slice p)). simple t q \<and> (thr = -1 \<or> thr = t)) \<and>
     (case snd (slice p) of Yielded r \<Rightarrow> simple t r | _ \<Rightarrow> True)"
  by (induction p rule: slice.induct) (auto simp: simple_def split: prod.splits turn.splits)

lemma simple_abstract_step:
  "\<forall>p \<in> set ps. simple t p \<Longrightarrow> \<forall>p \<in> set (abstract_step ps). simple t p"
  using simple_slice [of t "hd ps"] by (cases ps) (auto split: turn.splits)

subsection \<open>One turn of a callback on the machine\<close>

definition tasks_of :: "(client_op list \<times> int) list \<Rightarrow> task list" where
  "tasks_of = map (\<lambda>(p, thr). cb_task (Client p) thr)"

text \<open>The fiber \<open>c\<close> after a turn.\<close>

definition after_turn :: "faddr \<Rightarrow> turn \<Rightarrow> fiber \<Rightarrow> fiber" where
  "after_turn c x f =
     (case x of
        Done \<Rightarrow> f\<lparr>m_cb := None, m_state := State_TERM, m_ctx := CtxSaved (Heap c) (KNever c)\<rparr>
      | Thrown \<Rightarrow> f\<lparr>m_state := State_EXCEPT, m_ctx := CtxSaved (Heap c) (KNever c)\<rparr>
      | Yielded r \<Rightarrow> f\<lparr>m_state := State_READY, m_ctx := CtxSaved (Heap c) (KBody MainFunc c (Client r))\<rparr>)"

lemma body_turn:
  assumes "simple t p"
    and "tls s t = l" "cpu l = KBody MainFunc c (Client p)" "cpu_stack l = Heap c" "t_fiber l = Some c"
      "t_mainFiber l = Some m" "t_threadFiber l \<noteq> Some c"
    and "heap s c = Some f" "heap s m = Some mf" "m \<noteq> c" "m_ctx mf = CtxSaved st k"
  shows "leads t s (s\<lparr>heap := (heap s)(c := Some (after_turn c (snd (slice p)) f)),
    tls := (tls s)(t := l\<lparr>t_fiber := Some m, cpu_stack := st, cpu := k\<rparr>),
    m_fibers := m_fibers s @ tasks_of (fst (slice p))\<rparr>)"
  using assms
proof (induction p arbitrary: s l rule: slice.induct)
  case 1
  then show ?case
    unfolding leads_def
    by (intro exI [of _ 2])
      (simp add: numeral_2_eq_2 step_defs after_turn_def tasks_of_def fun_upd_twist cong: rbind_weak_cong)
next
  case (2 r)
  then show ?case
    unfolding leads_def
    by (intro exI [of _ 2])
      (simp add: numeral_2_eq_2 step_defs after_turn_def tasks_of_def fun_upd_twist cong: rbind_weak_cong)
next
  case (3 w r)
  then show ?case
    unfolding leads_def
    by (intro exI [of _ 2])
      (simp add: numeral_2_eq_2 step_defs after_turn_def tasks_of_def fun_upd_twist cong: rbind_weak_cong)
next
  case (4 p thr r)
  let ?l = "l\<lparr>cpu := KBody MainFunc c (Client r)\<rparr>"
  let ?s = "s\<lparr>tls := (tls s)(t := ?l), m_fibers := m_fibers s @ [cb_task (Client p) thr]\<rparr>"
  have step: "thread_step scheduler_vt t s = Inr ?s"
    using "4.prems" by (simp add: step_defs cong: rbind_weak_cong)
  obtain ps x where sl: "slice r = (ps, x)" by (rule prod.exhaust)
  have "leads t ?s (?s\<lparr>heap := (heap ?s)(c := Some (after_turn c (snd (slice r)) f)),
      tls := (tls ?s)(t := ?l\<lparr>t_fiber := Some m, cpu_stack := st, cpu := k\<rparr>),
      m_fibers := m_fibers ?s @ tasks_of (fst (slice r))\<rparr>)"
    by (rule "4.IH") (use "4.prems" in \<open>simp_all add: simple_def\<close>)
  from leads_step [OF step this] show ?case by (simp add: sl tasks_of_def fun_upd_def cong: if_cong)
qed (simp_all add: simple_def)

subsection \<open>The loop of run\<close>

text \<open>
  The state of thread \<open>t\<close> at the head of the loop: \<open>m\<close> is the scheduler's main fiber of the thread,
  \<open>i\<close> its idle fiber, which has not run yet, \<open>tf\<close> the thread's native fiber, and \<open>ret\<close> and \<open>st\<close> are
  where \<open>run\<close> returns to and the stack it is on. A queued task stands for a program: a callback, or
  a ready fiber that has the rest of one to execute. No two tasks have the same fiber, and no task
  has one of the fibers that are kept for something else.
\<close>

record loop =
  lp_main :: faddr
  lp_idle :: faddr
  lp_native :: faddr
  lp_ret :: "(entry \<times> faddr) option"
  lp_stack :: stack

definition task_for :: "tid \<Rightarrow> (faddr \<Rightarrow> fiber option) \<Rightarrow> task \<Rightarrow> client_op list \<Rightarrow> bool" where
  "task_for t h x p \<longleftrightarrow> (ft_thread x = -1 \<or> ft_thread x = t) \<and>
     (case ft_fiber x of
        None \<Rightarrow> ft_cb x = Some (Client p)
      | Some a \<Rightarrow> ft_cb x = None \<and> (\<exists>f. h a = Some f \<and> m_state f = State_READY \<and> m_stack f \<and>
          m_ctx f = CtxSaved (Heap a) (KBody MainFunc a (Client p))))"

definition task_fibers :: "task list \<Rightarrow> faddr list" where
  "task_fibers q = concat (map (\<lambda>x. case ft_fiber x of None \<Rightarrow> [] | Some a \<Rightarrow> [a]) q)"

definition kept :: "loop \<Rightarrow> faddr set" where
  "kept L = {lp_main L, lp_idle L, lp_native L}"

definition cb_fibers :: "run_frame \<Rightarrow> faddr list" where
  "cb_fibers fr = (case cbFiber fr of None \<Rightarrow> [] | Some c \<Rightarrow> [c])"

definition loop_state :: "tid \<Rightarrow> loop \<Rightarrow> sys \<Rightarrow> run_frame \<Rightarrow> client_op list list \<Rightarrow> bool" where
  "loop_state t L s fr ps \<longleftrightarrow>
     frames s t = Some fr \<and> pc fr = PcLoop \<and> idleFiber fr = lp_idle L \<and>
     cpu (tls s t) = KRun (lp_ret L) \<and> cpu_stack (tls s t) = lp_stack L \<and>
     t_mainFiber (tls s t) = Some (lp_main L) \<and> t_threadFiber (tls s t) = Some (lp_native L) \<and>
     lp_main L \<noteq> lp_idle L \<and> (\<exists>mf. heap s (lp_main L) = Some mf \<and> m_state mf = State_EXEC) \<and>
     (\<exists>f. heap s (lp_idle L) = Some f \<and> m_state f = State_INIT \<and> m_ctx f = CtxEntry MainFunc \<and>
        m_cb f = Some SchedulerIdle) \<and>
     (\<forall>c \<in> set (cb_fibers fr). \<exists>f. heap s c = Some f \<and> m_state f = State_INIT \<and> m_stack f) \<and>
     list_all2 (task_for t (heap s)) (m_fibers s) ps \<and>
     distinct (cb_fibers fr @ task_fibers (m_fibers s)) \<and>
     (\<forall>a \<in> set (cb_fibers fr @ task_fibers (m_fibers s)). a < brk s \<and> a \<notin> kept L) \<and>
     (\<forall>a \<in> kept L. a < brk s) \<and>
     m_activeThreadCount s = 0 \<and> m_autoStop s \<and> \<not> m_isRunning s \<and>
     (\<forall>a f. heap s a = Some f \<longrightarrow> m_state f = State_READY \<or> m_state f = State_HOLD \<longrightarrow>
        a \<in> set (task_fibers (m_fibers s))) \<and>
     (\<forall>p \<in> set ps. simple t p)"

text \<open>What a turn leaves alone.\<close>

definition same_rest :: "tid \<Rightarrow> loop \<Rightarrow> sys \<Rightarrow> sys \<Rightarrow> bool" where
  "same_rest t L s s' \<longleftrightarrow> m_threads s' = m_threads s \<and> (\<forall>u. u \<noteq> t \<longrightarrow> tls s' u = tls s u) \<and>
     (lp_native L \<noteq> lp_main L \<longrightarrow> heap s' (lp_native L) = heap s (lp_native L))"

lemma scan_first:
  assumes "task_for t h x p"
  shows "scan t h (x # q) = Inr (Some x, q, False)"
  using assms by (auto simp: task_for_def split: option.splits)

lemma task_fibers_simps [simp]:
  "task_fibers [] = []" "task_fibers (xs @ ys) = task_fibers xs @ task_fibers ys"
  "task_fibers (x # xs) = (case ft_fiber x of None \<Rightarrow> [] | Some a \<Rightarrow> [a]) @ task_fibers xs"
  by (simp_all add: task_fibers_def)

lemma task_fibers_callbacks [simp]: "task_fibers (tasks_of qs) = []"
  by (induction qs) (auto simp: tasks_of_def cb_task_def)

lemma tasks_for_heap:
  "list_all2 (task_for t h) q ps \<Longrightarrow> \<forall>b \<in> set (task_fibers q). h' b = h b \<Longrightarrow> list_all2 (task_for t h') q ps"
proof (induction q ps rule: list_all2_induct)
  case (Cons x xs p ps)
  then show ?case by (auto simp: task_for_def split: option.splits)
qed simp

lemma tasks_for_callbacks:
  "\<forall>(p, thr) \<in> set qs. simple t p \<and> (thr = -1 \<or> thr = t) \<Longrightarrow> list_all2 (task_for t h) (tasks_of qs) (map fst qs)"
  by (induction qs) (auto simp: tasks_of_def task_for_def cb_task_def)

text \<open>
  The loop is reached again after a turn of \<open>p\<close> on the fiber \<open>a\<close>, which is queued when it gave way.
\<close>

lemma loop_state_next:
  assumes L: "loop_state t L s fr (p # ps)" and q: "m_fibers s = x # q" and sl: "slice p = (qs, z)"
    and x: "ft_fiber x = None \<or> ft_fiber x = Some a"
    and h: "\<forall>b. b \<noteq> lp_main L \<longrightarrow> b \<noteq> a \<longrightarrow> heap s' b = heap s b"
    and m: "\<exists>mf. heap s' (lp_main L) = Some mf \<and> m_state mf = State_EXEC"
    and a: "a \<notin> kept L" "a \<notin> set (task_fibers q)" "a < brk s'" "brk s \<le> brk s'"
    and fa: "heap s' a = Some g" "m_stack g"
      "case z of Yielded r \<Rightarrow> m_state g = State_READY \<and> m_ctx g = CtxSaved (Heap a) (KBody MainFunc a (Client r))
       | _ \<Rightarrow> m_state g \<noteq> State_READY \<and> m_state g \<noteq> State_HOLD \<and>
           (a \<in> set (cb_fibers fr') \<longrightarrow> m_state g = State_INIT)"
    and fr: "frames s' t = Some fr'" "pc fr' = PcLoop" "idleFiber fr' = lp_idle L"
    and cb: "set (cb_fibers fr') \<subseteq> insert a (set (cb_fibers fr))"
      "case z of Yielded r \<Rightarrow> a \<notin> set (cb_fibers fr') | _ \<Rightarrow> True"
    and l: "tls s' t = (tls s t)\<lparr>t_fiber := tfib\<rparr>"
    and q': "m_fibers s' = q @ tasks_of qs @ (case z of Yielded r \<Rightarrow> [fiber_task a (-1)] | _ \<Rightarrow> [])"
    and rest: "m_activeThreadCount s' = 0" "m_autoStop s' = m_autoStop s" "m_isRunning s' = m_isRunning s"
  shows "loop_state t L s' fr' (abstract_step (p # ps))"
proof -
  have simple: "\<forall>p \<in> set (abstract_step (p # ps)). simple t p"
    by (rule simple_abstract_step) (use L in \<open>simp add: loop_state_def\<close>)
  have sp: "simple t p" using L by (simp add: loop_state_def)
  let ?rq = "case z of Yielded r \<Rightarrow> [fiber_task a (-1)] | _ \<Rightarrow> []"
  have tf: "task_fibers ?rq = (case z of Yielded r \<Rightarrow> [a] | _ \<Rightarrow> [])"
    by (simp add: fiber_task_def split: turn.split)
  have "list_all2 (task_for t (heap s)) q ps" using L q by (simp add: loop_state_def)
  moreover have "\<forall>b \<in> set (task_fibers q). heap s' b = heap s b"
    using h a(2) L q by (auto simp: loop_state_def kept_def)
  ultimately have 1: "list_all2 (task_for t (heap s')) q ps" by (rule tasks_for_heap)
  have 2: "list_all2 (task_for t (heap s')) (tasks_of qs) (map fst qs)"
    by (rule tasks_for_callbacks) (use simple_slice [OF sp] sl in simp)
  have 3: "list_all2 (task_for t (heap s')) ?rq (case z of Yielded r \<Rightarrow> [r] | _ \<Rightarrow> [])"
    using fa by (auto simp: task_for_def fiber_task_def split: turn.splits)
  have tasks: "list_all2 (task_for t (heap s')) (m_fibers s') (abstract_step (p # ps))"
    using 1 2 3 by (simp add: q' sl list_all2_appendI del: append_assoc) 
  have cbs: "\<exists>f. heap s' c = Some f \<and> m_state f = State_INIT \<and> m_stack f" if c: "c \<in> set (cb_fibers fr')" for c
  proof (cases "c = a")
    case True
    with fa c cb(2) show ?thesis by (auto split: turn.splits)
  next
    case False
    with cb(1) c have "c \<in> set (cb_fibers fr)" by auto
    with L False h show ?thesis by (auto simp: loop_state_def kept_def)
  qed
  have tq: "task_fibers (m_fibers s') = task_fibers q @ (case z of Yielded r \<Rightarrow> [a] | _ \<Rightarrow> [])"
    by (simp add: q' tf)
  have old: "distinct (task_fibers q)" "set (cb_fibers fr) \<inter> set (task_fibers q) = {}"
    "\<forall>b \<in> set (cb_fibers fr) \<union> set (task_fibers q). b < brk s \<and> b \<notin> kept L"
    using L q by (auto simp: loop_state_def)
  have "distinct (cb_fibers fr')" by (simp add: cb_fibers_def split: option.split)
  then have d: "distinct (cb_fibers fr' @ task_fibers (m_fibers s'))"
    using old(1,2) cb a(2) by (auto simp: tq split: turn.splits)
  have b: "\<forall>b \<in> set (cb_fibers fr' @ task_fibers (m_fibers s')). b < brk s' \<and> b \<notin> kept L"
  proof
    fix b
    assume "b \<in> set (cb_fibers fr' @ task_fibers (m_fibers s'))"
    then consider "b = a" | "b \<in> set (cb_fibers fr) \<union> set (task_fibers q)"
      using cb(1) by (auto simp: tq split: turn.splits)
    then show "b < brk s' \<and> b \<notin> kept L" using old(3) a(1,3) by cases (auto intro: less_le_trans [OF _ a(4)])
  qed
  have ready: "c \<in> set (task_fibers (m_fibers s'))"
    if c: "heap s' c = Some f" "m_state f = State_READY \<or> m_state f = State_HOLD" for c f
  proof (cases "c = a \<or> c = lp_main L")
    case True
    with c m fa show ?thesis by (auto simp: tq split: turn.splits)
  next
    case False
    with c h have "heap s c = Some f" by auto
    with c L have "c \<in> set (task_fibers (m_fibers s))" by (auto simp: loop_state_def)
    with False q x show ?thesis by (auto simp: tq)
  qed
  show ?thesis
    using L m fr l rest simple tasks cbs d b ready h a(1,4) unfolding loop_state_def kept_def by auto
qed

text \<open>The search takes the first task.\<close>

lemma search_step:
  assumes L: "loop_state t L s fr (p # ps)"
  obtains x q where "m_fibers s = x # q" "task_for t (heap s) x p"
    "thread_step scheduler_vt t s = Inr (s\<lparr>m_fibers := q, m_activeThreadCount := 1,
       frames := (frames s)(t := Some (fr\<lparr>ft := x, pc := PcDispatch False True\<rparr>))\<rparr>)"
proof -
  from L obtain x q where q: "m_fibers s = x # q" "task_for t (heap s) x p"
    by (auto simp: loop_state_def list_all2_Cons2)
  from L scan_first [OF q(2), of q] q(1)
  have "thread_step scheduler_vt t s = Inr (s\<lparr>m_fibers := q, m_activeThreadCount := 1,
       frames := (frames s)(t := Some (fr\<lparr>ft := x, pc := PcDispatch False True\<rparr>))\<rparr>)"
    by (simp add: loop_state_def thread_step_def run_step_def run_search_def frame_of_def set_frame_def
        Let_def del: scan.simps)
  with q that show thesis by blast
qed

text \<open>A ready fiber is resumed: the machine is in its program again.\<close>

lemma fiber_turn:
  assumes L: "loop_state t L s fr (p # ps)" and q: "m_fibers s = x # q" and a: "ft_fiber x = Some a"
    and tx: "task_for t (heap s) x p"
  shows "\<exists>s' fr'. leads t s s' \<and> loop_state t L s' fr' (abstract_step (p # ps)) \<and> same_rest t L s s'"
proof -
  define l where "l = tls s t"
  obtain mf where mf: "heap s (lp_main L) = Some mf" "m_state mf = State_EXEC" using L by (auto simp: loop_state_def)
  obtain f where x: "ft_thread x = -1 \<or> ft_thread x = t" "ft_cb x = None" and f: "heap s a = Some f" "m_state f = State_READY" "m_stack f"
    "m_ctx f = CtxSaved (Heap a) (KBody MainFunc a (Client p))"
    using tx a by (auto simp: loop_state_def task_for_def)
  have am: "a \<noteq> lp_main L" "a \<noteq> lp_native L" "a \<noteq> lp_idle L"
    using L q a by (auto simp: loop_state_def task_fibers_def kept_def)
  obtain s0 where s0: "thread_step scheduler_vt t s = Inr s0"
    and s0_def: "s0 = s\<lparr>m_fibers := q, m_activeThreadCount := 1,
       frames := (frames s)(t := Some (fr\<lparr>ft := x, pc := PcDispatch False True\<rparr>))\<rparr>"
    using q by (auto intro: search_step [OF L])
  define s1 where "s1 = s\<lparr>m_fibers := q, m_activeThreadCount := 1,
    heap := (heap s)(lp_main L := Some (mf\<lparr>m_ctx := CtxSaved (lp_stack L) (KRun (lp_ret L))\<rparr>),
                     a := Some (f\<lparr>m_state := State_EXEC\<rparr>)),
    tls := (tls s)(t := l\<lparr>t_fiber := Some a, cpu_stack := Heap a, cpu := KBody MainFunc a (Client p)\<rparr>),
    frames := (frames s)(t := Some (fr\<lparr>ft := x, pc := PcBackFiber\<rparr>))\<rparr>"
  have s1: "thread_step scheduler_vt t s0 = Inr s1"
    using L a x f am mf
    by (simp add: loop_state_def step_defs s0_def s1_def l_def fun_upd_twist del: rbind_eq_Inr cong: rbind_weak_cong)
  obtain qs z where sl: "slice p = (qs, z)" by (rule prod.exhaust)
  define s2 where "s2 = s1\<lparr>heap := (heap s1)(a := Some (after_turn a z (f\<lparr>m_state := State_EXEC\<rparr>))),
    tls := (tls s1)(t := (tls s1 t)\<lparr>t_fiber := Some (lp_main L), cpu_stack := lp_stack L, cpu := KRun (lp_ret L)\<rparr>),
    m_fibers := m_fibers s1 @ tasks_of qs\<rparr>"
  have "leads t s1 (s1\<lparr>heap := (heap s1)(a := Some (after_turn a (snd (slice p)) (f\<lparr>m_state := State_EXEC\<rparr>))),
    tls := (tls s1)(t := (tls s1 t)\<lparr>t_fiber := Some (lp_main L), cpu_stack := lp_stack L, cpu := KRun (lp_ret L)\<rparr>),
    m_fibers := m_fibers s1 @ tasks_of (fst (slice p))\<rparr>)"
    by (rule body_turn [where mf = "mf\<lparr>m_ctx := CtxSaved (lp_stack L) (KRun (lp_ret L))\<rparr>"])
      (use L am in \<open>simp_all add: loop_state_def s1_def l_def\<close>)
  then have s2: "leads t s1 s2" by (simp add: s2_def sl)
  have h2: "heap s2 = (heap s)(lp_main L := Some (mf\<lparr>m_ctx := CtxSaved (lp_stack L) (KRun (lp_ret L))\<rparr>),
                     a := Some (after_turn a z (f\<lparr>m_state := State_EXEC\<rparr>)))"
    by (simp add: s2_def s1_def)
  have l2: "tls s2 = (tls s)(t := l\<lparr>t_fiber := Some (lp_main L), cpu_stack := lp_stack L, cpu := KRun (lp_ret L)\<rparr>)"
    by (simp add: s2_def s1_def)
  have f2: "frames s2 = (frames s)(t := Some (fr\<lparr>ft := x, pc := PcBackFiber\<rparr>))"
    "m_fibers s2 = q @ tasks_of qs" "m_activeThreadCount s2 = 1"
    by (simp_all add: s2_def s1_def)
  define rq where "rq = (case z of Yielded r \<Rightarrow> [fiber_task a (-1)] | _ \<Rightarrow> [])"
  define s3 where "s3 = s2\<lparr>m_activeThreadCount := 0, m_fibers := q @ tasks_of qs @ rq,
    frames := (frames s)(t := Some (fr\<lparr>ft := empty_task, pc := PcLoop\<rparr>))\<rparr>"
  have s3: "leads t s2 s3"
    unfolding leads_def
    by (intro exI [of _ 2], cases z)
      (simp_all add: numeral_2_eq_2 step_defs a s3_def h2 l2 f2 rq_def after_turn_def fun_upd_twist
        del: rbind_eq_Inr cong: rbind_weak_cong)
  have b: "a < brk s" "a \<notin> kept L" "a \<notin> set (cb_fibers fr)" "a \<notin> set (task_fibers q)"
    using L q a by (auto simp: loop_state_def)
  have brk: "brk s3 = brk s" "m_autoStop s3 = m_autoStop s" "m_isRunning s3 = m_isRunning s"
    "m_threads s3 = m_threads s" by (simp_all add: s3_def s2_def s1_def)
  have sel: "heap s3 = heap s2" "tls s3 = tls s2" "m_fibers s3 = q @ tasks_of qs @ rq"
    "frames s3 = (frames s)(t := Some (fr\<lparr>ft := empty_task, pc := PcLoop\<rparr>))" "m_activeThreadCount s3 = 0"
    by (simp_all add: s3_def)
  have "loop_state t L s3 (fr\<lparr>ft := empty_task, pc := PcLoop\<rparr>) (abstract_step (p # ps))"
    by (rule loop_state_next [OF L q sl disjI2 [OF a], where g = "after_turn a z (f\<lparr>m_state := State_EXEC\<rparr>)"
          and tfib = "Some (lp_main L)"])
      (use L am f b mf in \<open>auto simp: sel h2 l2 l_def brk after_turn_def cb_fibers_def rq_def
         loop_state_def split: turn.split\<close>)
  moreover have "same_rest t L s s3" using am by (simp add: same_rest_def brk sel l2 h2)
  moreover have "leads t s s3"
    by (rule leads_step [OF s0 leads_step [OF s1 leads_trans [OF s2 s3]]])
  ultimately show ?thesis by blast
qed

text \<open>
  A callback is started, on the fiber the thread keeps for callbacks or on a new one. \<open>g\<close> is that
  fiber as it is switched to.
\<close>

lemma callback_turn_on:
  assumes L: "loop_state t L s fr (p # ps)" and q: "m_fibers s = x # q" and x: "ft_fiber x = None"
    and tx: "task_for t (heap s) x p"
    and s0: "thread_step scheduler_vt t s = Inr s0"
      "thread_step scheduler_vt t s0 = Inr s1"
    and mf: "heap s (lp_main L) = Some mf"
    and s1: "heap s1 = (heap s)(lp_main L := Some (mf\<lparr>m_ctx := CtxSaved (lp_stack L) (KRun (lp_ret L))\<rparr>), a := Some g)"
      "tls s1 = (tls s)(t := (tls s t)\<lparr>t_fiber := Some a, cpu_stack := Heap a, cpu := KEntry MainFunc\<rparr>)"
      "frames s1 = (frames s)(t := Some (fr\<lparr>cbFiber := Some a, ft := empty_task, pc := PcBackCb\<rparr>))"
      "m_fibers s1 = q" "m_activeThreadCount s1 = 1" "m_autoStop s1 = m_autoStop s"
      "m_isRunning s1 = m_isRunning s" "m_threads s1 = m_threads s" "brk s \<le> brk s1"
    and g: "m_cb g = Some (Client p)" "m_stack g" "m_state g = State_EXEC"
    and a: "a < brk s1" "a \<notin> kept L" "a \<notin> set (task_fibers q)" "set (cb_fibers fr) \<subseteq> {a}"
  shows "\<exists>s' fr'. leads t s s' \<and> loop_state t L s' fr' (abstract_step (p # ps)) \<and> same_rest t L s s'"
proof -
  have am: "a \<noteq> lp_main L" "a \<noteq> lp_native L" "a \<noteq> lp_idle L" using a(2) by (auto simp: kept_def)
  define l where "l = tls s t"
  have l: "t_mainFiber l = Some (lp_main L)" "t_threadFiber l = Some (lp_native L)"
    using L by (auto simp: loop_state_def l_def)
  define s2 where "s2 = s1\<lparr>tls := (tls s1)(t := (tls s1 t)\<lparr>cpu := KBody MainFunc a (Client p)\<rparr>)\<rparr>"
  have s2: "thread_step scheduler_vt t s1 = Inr s2"
    using g am by (simp add: step_defs s1 s2_def del: rbind_eq_Inr cong: rbind_weak_cong)
  obtain qs z where sl: "slice p = (qs, z)" by (rule prod.exhaust)
  define s3 where "s3 = s2\<lparr>heap := (heap s2)(a := Some (after_turn a z g)),
    tls := (tls s2)(t := (tls s2 t)\<lparr>t_fiber := Some (lp_main L), cpu_stack := lp_stack L, cpu := KRun (lp_ret L)\<rparr>),
    m_fibers := m_fibers s2 @ tasks_of qs\<rparr>"
  have "leads t s2 (s2\<lparr>heap := (heap s2)(a := Some (after_turn a (snd (slice p)) g)),
    tls := (tls s2)(t := (tls s2 t)\<lparr>t_fiber := Some (lp_main L), cpu_stack := lp_stack L, cpu := KRun (lp_ret L)\<rparr>),
    m_fibers := m_fibers s2 @ tasks_of (fst (slice p))\<rparr>)"
    by (rule body_turn [where mf = "mf\<lparr>m_ctx := CtxSaved (lp_stack L) (KRun (lp_ret L))\<rparr>"])
      (use L l am in \<open>simp_all add: loop_state_def s2_def s1 l_def\<close>)
  then have s3: "leads t s2 s3" by (simp add: s3_def sl)
  have h3: "heap s3 = (heap s)(lp_main L := Some (mf\<lparr>m_ctx := CtxSaved (lp_stack L) (KRun (lp_ret L))\<rparr>),
                     a := Some (after_turn a z g))"
    "tls s3 = (tls s)(t := l\<lparr>t_fiber := Some (lp_main L), cpu_stack := lp_stack L, cpu := KRun (lp_ret L)\<rparr>)"
    "frames s3 = (frames s)(t := Some (fr\<lparr>cbFiber := Some a, ft := empty_task, pc := PcBackCb\<rparr>))"
    "m_fibers s3 = q @ tasks_of qs" "m_activeThreadCount s3 = 1" "m_autoStop s3 = m_autoStop s"
      "m_isRunning s3 = m_isRunning s" "m_threads s3 = m_threads s" "brk s3 = brk s1"
    by (simp_all add: s3_def s2_def s1 l_def)
  define fr' where "fr' = fr\<lparr>ft := empty_task, cbFiber := (case z of Yielded r \<Rightarrow> None | _ \<Rightarrow> Some a), pc := PcLoop\<rparr>"
  define g' where "g' = (case z of Yielded r \<Rightarrow> after_turn a z g
    | _ \<Rightarrow> g\<lparr>m_cb := None, m_ctx := CtxEntry MainFunc, m_state := State_INIT\<rparr>)"
  define s4 where "s4 = (case z of
      Yielded r \<Rightarrow> s3\<lparr>m_activeThreadCount := 0, m_fibers := q @ tasks_of qs @ [fiber_task a (-1)],
        frames := (frames s)(t := Some fr')\<rparr>
    | _ \<Rightarrow> s3\<lparr>m_activeThreadCount := 0, heap := (heap s3)(a := Some g'),
        m_fibers := q @ tasks_of qs, frames := (frames s)(t := Some fr')\<rparr>)"
  have s4: "leads t s3 s4"
    unfolding leads_def
    by (intro exI [of _ 2], cases z)
      (use g in \<open>simp_all add: numeral_2_eq_2 step_defs s4_def h3 after_turn_def fr'_def g'_def fun_upd_twist
        del: rbind_eq_Inr cong: rbind_weak_cong\<close>)
  have sel: "heap s4 = (heap s)(lp_main L := Some (mf\<lparr>m_ctx := CtxSaved (lp_stack L) (KRun (lp_ret L))\<rparr>), a := Some g')"
    "tls s4 = tls s3" "m_fibers s4 = q @ tasks_of qs @ (case z of Yielded r \<Rightarrow> [fiber_task a (-1)] | _ \<Rightarrow> [])"
    "frames s4 = (frames s)(t := Some fr')" "m_activeThreadCount s4 = 0" "brk s4 = brk s1"
    "m_autoStop s4 = m_autoStop s" "m_isRunning s4 = m_isRunning s" "m_threads s4 = m_threads s"
 using h3
    by (simp_all add: s4_def g'_def split: turn.split)
  have "loop_state t L s4 fr' (abstract_step (p # ps))"
    by (rule loop_state_next [OF L q sl disjI1 [OF x], where a = a and g = g' and tfib = "Some (lp_main L)"])
      (use L am a g s1(9) mf in \<open>auto simp: sel h3 l_def g'_def after_turn_def cb_fibers_def fr'_def
         loop_state_def split: turn.split\<close>)
  moreover have "same_rest t L s s4" using am by (auto simp: same_rest_def sel h3)
  moreover have "leads t s s4"
    by (rule leads_step [OF s0(1) leads_step [OF s0(2) leads_step [OF s2 leads_trans [OF s3 s4]]]])
  ultimately show ?thesis by blast
qed

lemma callback_turn:
  assumes L: "loop_state t L s fr (p # ps)" and q: "m_fibers s = x # q" and x: "ft_fiber x = None"
    and tx: "task_for t (heap s) x p"
  shows "\<exists>s' fr'. leads t s s' \<and> loop_state t L s' fr' (abstract_step (p # ps)) \<and> same_rest t L s s'"
proof -
  obtain mf where mf: "heap s (lp_main L) = Some mf" "m_state mf = State_EXEC" using L by (auto simp: loop_state_def)
  have cb: "ft_cb x = Some (Client p)" using tx x by (simp add: task_for_def)
  obtain s0 where s0: "thread_step scheduler_vt t s = Inr s0"
    and s0_def: "s0 = s\<lparr>m_fibers := q, m_activeThreadCount := 1,
       frames := (frames s)(t := Some (fr\<lparr>ft := x, pc := PcDispatch False True\<rparr>))\<rparr>"
    using q by (auto intro: search_step [OF L])
  have kl: "lp_main L < brk s" using L by (auto simp: loop_state_def kept_def)
  let ?mf = "mf\<lparr>m_ctx := CtxSaved (lp_stack L) (KRun (lp_ret L))\<rparr>"
  show ?thesis
  proof (cases "cbFiber fr")
    case None
    let ?a = "brk s"
    define g :: fiber where "g = \<lparr>m_id = s_fiber_id s + 1, m_stackSize = g_fiberStackSize s, m_state = State_EXEC,
      m_ctx = CtxEntry MainFunc, m_stack = True, m_cb = Some (Client p)\<rparr>"
    define s1 where "s1 = s\<lparr>m_fibers := q, m_activeThreadCount := 1, s_fiber_id := s_fiber_id s + 1,
      s_fiber_count := s_fiber_count s + 1, brk := Suc (brk s),
      heap := (heap s)(lp_main L := Some ?mf, ?a := Some g),
      tls := (tls s)(t := (tls s t)\<lparr>t_fiber := Some ?a, cpu_stack := Heap ?a, cpu := KEntry MainFunc\<rparr>),
      frames := (frames s)(t := Some (fr\<lparr>cbFiber := Some ?a, ft := empty_task, pc := PcBackCb\<rparr>))\<rparr>"
    have s1: "thread_step scheduler_vt t s0 = Inr s1"
      using L x cb mf kl None
      by (simp add: loop_state_def step_defs s0_def s1_def g_def fun_upd_twist del: rbind_eq_Inr cong: rbind_weak_cong)
    show ?thesis
      by (rule callback_turn_on [OF L q x tx s0 s1 mf(1), where a = ?a and g = g])
        (use L q None in \<open>auto simp: s1_def g_def loop_state_def cb_fibers_def\<close>)
  next
    case (Some c)
    obtain f where f: "heap s c = Some f" "m_state f = State_INIT" "m_stack f" and c: "c \<notin> kept L" "c < brk s"
      "c \<notin> set (task_fibers q)"
      using L q Some by (auto simp: loop_state_def cb_fibers_def)
    have cm: "c \<noteq> lp_main L" using c by (simp add: kept_def)
    define g where "g = f\<lparr>m_cb := Some (Client p), m_ctx := CtxEntry MainFunc, m_state := State_EXEC\<rparr>"
    define s1 where "s1 = s\<lparr>m_fibers := q, m_activeThreadCount := 1,
      heap := (heap s)(lp_main L := Some ?mf, c := Some g),
      tls := (tls s)(t := (tls s t)\<lparr>t_fiber := Some c, cpu_stack := Heap c, cpu := KEntry MainFunc\<rparr>),
      frames := (frames s)(t := Some (fr\<lparr>cbFiber := Some c, ft := empty_task, pc := PcBackCb\<rparr>))\<rparr>"
    have s1: "thread_step scheduler_vt t s0 = Inr s1"
      using L x cb mf f cm Some
      by (simp add: loop_state_def step_defs s0_def s1_def g_def fun_upd_twist del: rbind_eq_Inr cong: rbind_weak_cong)
    show ?thesis
      by (rule callback_turn_on [OF L q x tx s0 s1 mf(1), where a = c and g = g])
        (use L q Some f c in \<open>auto simp: s1_def g_def loop_state_def cb_fibers_def\<close>)
  qed
qed

text \<open>One turn of the machine is one step of the abstract scheduler.\<close>

lemma loop_turn:
  assumes L: "loop_state t L s fr ps" and ps: "ps \<noteq> []"
  shows "\<exists>s' fr'. leads t s s' \<and> loop_state t L s' fr' (abstract_step ps) \<and> same_rest t L s s'"
proof -
  obtain p ps' where p: "ps = p # ps'" using ps by (cases ps) auto
  obtain x q where x: "m_fibers s = x # q" "task_for t (heap s) x p"
    using L by (auto simp: p intro: search_step)
  show ?thesis
  proof (cases "ft_fiber x")
    case None
    from callback_turn [OF L [unfolded p] x(1) None x(2)] show ?thesis by (simp add: p)
  next
    case (Some a)
    from fiber_turn [OF L [unfolded p] x(1) Some x(2)] show ?thesis by (simp add: p)
  qed
qed

lemma same_rest_trans: "same_rest t L s s1 \<Longrightarrow> same_rest t L s1 s2 \<Longrightarrow> same_rest t L s s2"
  by (simp add: same_rest_def)

lemma loop_drains:
  "loop_state t L s fr ps \<Longrightarrow> \<exists>s' fr'. leads t s s' \<and> loop_state t L s' fr' [] \<and> same_rest t L s s'"
proof (induction "work ps" arbitrary: s fr ps rule: less_induct)
  case less
  show ?case
  proof (cases "ps = []")
    case True
    with less.prems show ?thesis by (intro exI [of _ s] exI [of _ fr]) (simp add: same_rest_def)
  next
    case False
    from loop_turn [OF less.prems False] obtain s1 fr1 where
      1: "leads t s s1" "loop_state t L s1 fr1 (abstract_step ps)" "same_rest t L s s1" by blast
    from less.hyps [OF abstract_step_work [OF False] 1(2)] obtain s2 fr2 where
      "leads t s1 s2" "loop_state t L s2 fr2 []" "same_rest t L s1 s2" by blast
    with 1 show ?thesis by (meson leads_trans same_rest_trans)
  qed
qed

subsection \<open>The end of run and of stop\<close>

text \<open>With an empty queue the idle fiber ends at once, then \<open>run\<close>, the root fiber and \<open>stop\<close>.\<close>

lemma loop_ends:
  assumes L: "loop_state t L s fr []" and ret: "lp_ret L = Some (CallerMainFunc, lp_main L)"
    and nat: "lp_native L \<noteq> lp_main L" "lp_native L \<noteq> lp_idle L" "heap s (lp_native L) = Some nf"
      "m_ctx nf = CtxSaved st KStopSwap" and th: "m_threads s = []"
  shows "\<exists>s'. leads t s s' \<and> cpu (tls s' t) = KOutside \<and> m_fibers s' = [] \<and> frames s' t = None \<and>
    (\<forall>a f. heap s' a = Some f \<longrightarrow> m_state f \<noteq> State_READY \<and> m_state f \<noteq> State_HOLD)"
proof -
  obtain mf fi where mf: "heap s (lp_main L) = Some mf" "m_state mf = State_EXEC"
    and fi: "heap s (lp_idle L) = Some fi" "m_state fi = State_INIT" "m_ctx fi = CtxEntry MainFunc"
      "m_cb fi = Some SchedulerIdle" and mi: "lp_main L \<noteq> lp_idle L"
    using L by (auto simp: loop_state_def)
  define l where "l = tls s t"
  define s1 where "s1 = s\<lparr>m_idleThreadCount := m_idleThreadCount s + 1,
    heap := (heap s)(lp_main L := Some (mf\<lparr>m_ctx := CtxSaved (lp_stack L) (KRun (lp_ret L))\<rparr>),
      lp_idle L := Some (fi\<lparr>m_state := State_EXEC\<rparr>)),
    tls := (tls s)(t := l\<lparr>t_fiber := Some (lp_idle L), cpu_stack := Heap (lp_idle L), cpu := KEntry MainFunc\<rparr>),
    frames := (frames s)(t := Some (fr\<lparr>ft := empty_task, pc := PcBackIdle\<rparr>))\<rparr>"
  have s1: "leads t s s1"
    unfolding leads_def
    by (intro exI [of _ 2])
      (use L mf fi mi in \<open>simp add: numeral_2_eq_2 loop_state_def step_defs s1_def l_def fun_upd_twist
        del: rbind_eq_Inr cong: rbind_weak_cong\<close>)
  define mf' where "mf' = mf\<lparr>m_ctx := CtxSaved (lp_stack L) (KRun (lp_ret L))\<rparr>"
  define fi' where "fi' = fi\<lparr>m_cb := None, m_state := State_TERM, m_ctx := CtxSaved (Heap (lp_idle L)) (KNever (lp_idle L))\<rparr>"
  define s2 where "s2 = s1\<lparr>heap := (heap s)(lp_main L := Some mf', lp_idle L := Some fi'),
    tls := (tls s)(t := l\<lparr>t_fiber := Some (lp_main L), cpu_stack := lp_stack L, cpu := KRun (lp_ret L)\<rparr>)\<rparr>"
  have s2: "leads t s1 s2"
    unfolding leads_def
    by (intro exI [of _ 3])
      (use L mf fi mi in \<open>simp add: numeral_3_eq_3 loop_state_def step_defs s2_def s1_def l_def mf'_def fi'_def fun_upd_twist
        del: rbind_eq_Inr cong: rbind_weak_cong\<close>)
  define s3 where "s3 = s2\<lparr>m_idleThreadCount := m_idleThreadCount s,
    frames := (frames s)(t := Some (fr\<lparr>ft := empty_task, pc := PcReturn\<rparr>))\<rparr>"
  have s3: "leads t s2 s3"
    unfolding leads_def
    by (intro exI [of _ 3])
      (use L mf fi mi in \<open>simp add: numeral_3_eq_3 loop_state_def step_defs s3_def s2_def s1_def l_def mf'_def fi'_def fun_upd_twist
        del: rbind_eq_Inr cong: rbind_weak_cong\<close>)
  define mf'' where "mf'' = mf'\<lparr>m_cb := None, m_state := State_TERM, m_ctx := CtxSaved (lp_stack L) (KNever (lp_main L))\<rparr>"
  define s4 where "s4 = s3\<lparr>heap := (heap s)(lp_main L := Some mf'', lp_idle L := Some fi'),
    tls := (tls s)(t := l\<lparr>t_fiber := Some (lp_native L), cpu_stack := st, cpu := KOutside\<rparr>),
    frames := (frames s)(t := None)\<rparr>"
  have s4: "leads t s3 s4"
    unfolding leads_def
    by (intro exI [of _ 5])
      (use L mf fi mi ret nat th in \<open>simp add: eval_nat_numeral loop_state_def step_defs s4_def s3_def s2_def s1_def l_def
         mf'_def mf''_def fi'_def fun_upd_twist del: rbind_eq_Inr cong: rbind_weak_cong\<close>)
  have "m_state f \<noteq> State_READY \<and> m_state f \<noteq> State_HOLD" if f: "heap s4 a = Some f" for a f
  proof (cases "a = lp_main L \<or> a = lp_idle L")
    case True
    with f mi show ?thesis by (auto simp: s4_def mf''_def mf'_def fi'_def)
  next
    case False
    with f have "heap s a = Some f" by (simp add: s4_def)
    moreover have "m_fibers s = []" using L by (simp add: loop_state_def)
    ultimately show ?thesis using L by (auto simp: loop_state_def)
  qed
  moreover have "leads t s s4" using leads_trans [OF s1 leads_trans [OF s2 leads_trans [OF s3 s4]]] .
  moreover have "m_fibers s4 = []" using L by (simp add: s4_def s3_def s2_def s1_def loop_state_def)
  ultimately show ?thesis by (intro exI [of _ s4]) (simp add: s4_def)
qed

subsection \<open>The beginning\<close>

text \<open>
  Thread 0 makes a scheduler that uses the caller and no other thread, starts it, schedules the
  callbacks \<open>ps\<close> (each with the thread it asks for) and calls \<open>stop\<close>.
\<close>

definition single_thread_run :: "(client_op list \<times> int) list \<Rightarrow> sys res" where
  "single_thread_run ps =
     rbind (Scheduler_new 0 1 True ''main'' (fresh_scheduler init_proc)) (\<lambda>s0.
     rbind (start [] s0) (\<lambda>s1.
       stop scheduler_vt 0 (fold put_task (tasks_of ps) s1)))"

lemma put_tasks: "fold put_task (tasks_of ps) s = s\<lparr>m_fibers := m_fibers s @ tasks_of ps\<rparr>"
proof (induction ps arbitrary: s)
  case (Cons x ps)
  then show ?case by (cases x) (simp add: tasks_of_def put_task_def scheduleNoLock_def cb_task_def)
qed (simp add: tasks_of_def)

definition demo_loop :: loop where
  "demo_loop = \<lparr>lp_main = 1, lp_idle = 2, lp_native = 0, lp_ret = Some (CallerMainFunc, 1), lp_stack = Heap 1\<rparr>"

definition started :: "(client_op list \<times> int) list \<Rightarrow> sys" where
  "started ps =
     (let r = \<lparr>m_id = 1, m_stackSize = 1048576, m_state = State_EXEC, m_ctx = CtxEntry CallerMainFunc,
               m_stack = True, m_cb = Some SchedulerRun\<rparr>;
          n = \<lparr>m_id = 0, m_stackSize = 0, m_state = State_EXEC, m_ctx = CtxSaved (Native 0) KStopSwap,
               m_stack = False, m_cb = None\<rparr>;
          i = \<lparr>m_id = 2, m_stackSize = 1048576, m_state = State_INIT, m_ctx = CtxEntry MainFunc,
               m_stack = True, m_cb = Some SchedulerIdle\<rparr>
      in \<lparr>s_fiber_id = 2, s_fiber_count = 3, g_fiberStackSize = 1048576, heap = [1 \<mapsto> r, 0 \<mapsto> n, 2 \<mapsto> i],
          brk = 3,
          tls = init_tls(0 := \<lparr>t_fiber = Some 1, t_threadFiber = Some 0, t_scheduler = True,
            t_mainFiber = Some 1, cpu_stack = Heap 1, cpu = KRun (Some (CallerMainFunc, 1))\<rparr>),
          m_fibers = tasks_of ps, m_threads = [], m_rootFiber = Some 1, m_name = ''main'',
          m_threadIds = [0], m_threadCount = 0, m_activeThreadCount = 0, m_idleThreadCount = 0,
          m_isRunning = False, m_autoStop = True, m_rootThread = 0,
          frames = [0 \<mapsto> \<lparr>pc = PcLoop, ft = empty_task, cbFiber = None, idleFiber = 2\<rparr>]\<rparr>)"

lemma single_thread_starts:
  assumes "ps \<noteq> []"
  shows "rbind (single_thread_run ps) (run_threads scheduler_vt [0, 0, 0]) = Inr (started ps)"
proof -
  have "tasks_of ps \<noteq> []" using assms by (simp add: tasks_of_def)
  then show ?thesis
    by (simp add: single_thread_run_def started_def put_tasks step_defs numeral_2_eq_2 numeral_3_eq_3
      del: rbind_eq_Inr cong: rbind_weak_cong)
qed

lemma started_loop:
  assumes "\<forall>(p, thr) \<in> set ps. simple 0 p \<and> (thr = -1 \<or> thr = 0)"
  shows "loop_state 0 demo_loop (started ps)
    \<lparr>pc = PcLoop, ft = empty_task, cbFiber = None, idleFiber = 2\<rparr> (map fst ps)"
proof -
  have "list_all2 (task_for 0 h) (tasks_of ps) (map fst ps)" for h
    by (rule tasks_for_callbacks) (use assms in auto)
  moreover have "\<forall>p \<in> set (map fst ps). simple 0 p" using assms by auto
  ultimately show ?thesis
    by (simp add: loop_state_def started_def demo_loop_def cb_fibers_def kept_def)
qed


definition demo_programs :: "(client_op list \<times> int) list" where
  "demo_programs =
     [([OpYieldToReady, OpScheduleCb [OpYieldToReady] 0], -1), ([OpThrow ''stop''], 0), ([], -1)]"


end
