(* ===== verification/PoolSpecs.thy ===== *)
theory PoolSpecs
  imports Schedulers
begin

section \<open>A pool of threads, abstractly\<close>

text \<open>
  What a scheduler with a pool of threads does for its clients, without fibers, stacks and
  contexts: a queue of programs, and for each thread the point it is at and the program it holds.
  Clients neither schedule fibers by hand nor does a thread run two programs. Theory \<open>PoolSteps\<close>
  shows that the machine of threads implements this; here it is shown to finish its work.
\<close>

subsection \<open>Programs, tasks and threads\<close>

text \<open>The clients covered: they throw, yield either way and schedule callbacks like themselves.\<close>

fun tame_op :: "client_op \<Rightarrow> bool" where
  "tame_op OpYieldToReady = True"
| "tame_op OpYieldToHold = True"
| "tame_op (OpScheduleCb p thr) = (\<forall>x \<in> set p. tame_op x)"
| "tame_op (OpScheduleFiber a thr) = False"
| "tame_op (OpScheduleThis thr) = False"
| "tame_op (OpThrow w) = True"

definition tame :: "client_op list \<Rightarrow> bool" where
  "tame p \<longleftrightarrow> (\<forall>x \<in> set p. tame_op x)"

lemma tame_Nil [simp]: "tame []" and tame_Cons [simp]: "tame (x # p) \<longleftrightarrow> tame_op x \<and> tame p"
  by (simp_all add: tame_def)

text \<open>Those that ask for no particular thread.\<close>

fun unpinned_op :: "client_op \<Rightarrow> bool" where
  "unpinned_op (OpScheduleCb p thr) = (thr = -1 \<and> (\<forall>x \<in> set p. unpinned_op x))"
| "unpinned_op _ = True"

definition unpinned :: "client_op list \<Rightarrow> bool" where
  "unpinned p \<longleftrightarrow> (\<forall>x \<in> set p. unpinned_op x)"

lemma unpinned_Nil [simp]: "unpinned []"
  and unpinned_Cons [simp]: "unpinned (x # p) \<longleftrightarrow> unpinned_op x \<and> unpinned p"
  by (simp_all add: unpinned_def)

datatype item = QCallback "client_op list" int | QFiber "client_op list" int

fun program :: "item \<Rightarrow> client_op list" where
  "program (QCallback p thr) = p"
| "program (QFiber p thr) = p"

fun pin :: "item \<Rightarrow> int" where
  "pin (QCallback p thr) = thr"
| "pin (QFiber p thr) = thr"

text \<open>How a turn of a program went: it is ready to go on with the rest, it holds, or it is over.\<close>

datatype turn_end = Ready "client_op list" | Held | Over

text \<open>
  The idle fiber of a thread has not run yet, waits, or is done. A thread is outside \<open>run\<close>, enters
  it, is about to search, has taken a task or found none, starts a callback, executes a program,
  switches back from its fiber, has switched back, queues its fiber again; is at one of the points
  of its idle fiber; or leaves \<open>run\<close>.
\<close>

datatype idle_fiber = Unused | Waiting | Finished

datatype view =
    Gone
  | Entering
  | Looping idle_fiber
  | Taking item idle_fiber
  | NotFound idle_fiber
  | Starting "client_op list" idle_fiber
  | Running "client_op list" idle_fiber
  | Switching turn_end idle_fiber
  | Back turn_end idle_fiber
  | Requeueing turn_end idle_fiber
  | IdleStart
  | IdleRun
  | IdleSwitching idle_fiber
  | IdleBack idle_fiber
  | Leaving

record pool =
  views :: "tid \<Rightarrow> view"
  queue :: "item list"
  stopping :: bool

fun working :: "view \<Rightarrow> bool" where
  "working (Taking x d) = True"
| "working (Starting p d) = True"
| "working (Running p d) = True"
| "working (Switching e d) = True"
| "working (Back e d) = True"
| "working _ = False"

definition pool_stopped :: "pool \<Rightarrow> bool" where
  "pool_stopped P \<longleftrightarrow> stopping P \<and> queue P = [] \<and> (\<forall>t. \<not> working (views P t))"

subsection \<open>Steps\<close>

definition may_take :: "tid \<Rightarrow> item \<Rightarrow> bool" where
  "may_take t x \<longleftrightarrow> pin x = -1 \<or> pin x = t"

fun first_item :: "tid \<Rightarrow> item list \<Rightarrow> (item \<times> item list) option" where
  "first_item t [] = None"
| "first_item t (x # q) =
     (if may_take t x then Some (x, q) else map_option (\<lambda>(y, r). (y, x # r)) (first_item t q))"

fun run_op :: "client_op list \<Rightarrow> idle_fiber \<Rightarrow> view \<times> item list" where
  "run_op [] d = (Switching Over d, [])"
| "run_op (OpYieldToReady # r) d = (Switching (Ready r) d, [])"
| "run_op (OpYieldToHold # r) d = (Switching Held d, [])"
| "run_op (OpThrow w # r) d = (Switching Over d, [])"
| "run_op (OpScheduleCb p thr # r) d = (Running r d, [QCallback p thr])"
| "run_op (_ # r) d = (Running r d, [])"

definition goto :: "tid \<Rightarrow> view \<Rightarrow> pool \<Rightarrow> pool" where
  "goto t v P = P\<lparr>views := (views P)(t := v)\<rparr>"

definition enqueue :: "item list \<Rightarrow> pool \<Rightarrow> pool" where
  "enqueue xs P = P\<lparr>queue := queue P @ xs\<rparr>"

text \<open>\<open>stopped\<close> is what the idle fiber reads of \<open>stopped()\<close>.\<close>

definition pool_step_with :: "bool \<Rightarrow> tid \<Rightarrow> pool \<Rightarrow> pool" where
  "pool_step_with stopped t P =
     (case views P t of
        Gone \<Rightarrow> P
      | Entering \<Rightarrow> goto t (Looping Unused) P
      | Looping d \<Rightarrow>
          (case first_item t (queue P) of
             None \<Rightarrow> goto t (NotFound d) P
           | Some (x, q) \<Rightarrow> goto t (Taking x d) (P\<lparr>queue := q\<rparr>))
      | Taking x d \<Rightarrow> goto t (case x of QCallback p _ \<Rightarrow> Starting p d | QFiber p _ \<Rightarrow> Running p d) P
      | NotFound d \<Rightarrow>
          goto t (case d of Unused \<Rightarrow> IdleStart | Waiting \<Rightarrow> IdleRun | Finished \<Rightarrow> Leaving) P
      | Starting p d \<Rightarrow> goto t (Running p d) P
      | Running p d \<Rightarrow> (case run_op p d of (v, xs) \<Rightarrow> goto t v (enqueue xs P))
      | Switching e d \<Rightarrow> goto t (Back e d) P
      | Back e d \<Rightarrow> goto t (Requeueing e d) P
      | Requeueing e d \<Rightarrow> goto t (Looping d) (enqueue (case e of Ready r \<Rightarrow> [QFiber r (-1)] | _ \<Rightarrow> []) P)
      | IdleStart \<Rightarrow> goto t IdleRun P
      | IdleRun \<Rightarrow> goto t (IdleSwitching (if stopped then Finished else Waiting)) P
      | IdleSwitching d \<Rightarrow> goto t (IdleBack d) P
      | IdleBack d \<Rightarrow> goto t (Looping d) P
      | Leaving \<Rightarrow> goto t Gone P)"

definition pool_step :: "tid \<Rightarrow> pool \<Rightarrow> pool" where
  "pool_step t P = pool_step_with (pool_stopped P) t P"

lemmas pool_step_defs = pool_step_def pool_step_with_def

lemma goto_sel [simp]:
  "views (goto t v P) = (views P)(t := v)" "queue (goto t v P) = queue P" "stopping (goto t v P) = stopping P"
  by (simp_all add: goto_def)

lemma enqueue_sel [simp]:
  "views (enqueue xs P) = views P" "queue (enqueue xs P) = queue P @ xs" "stopping (enqueue xs P) = stopping P"
  by (simp_all add: enqueue_def)

lemma pool_step_with_other: "u \<noteq> t \<Longrightarrow> views (pool_step_with b t P) u = views P u"
  by (auto simp: pool_step_with_def split: view.split option.split prod.split idle_fiber.split)

lemma pool_step_other: "u \<noteq> t \<Longrightarrow> views (pool_step t P) u = views P u"
  by (simp add: pool_step_def pool_step_with_other)

lemma pool_step_with_gone: "views P t = Gone \<Longrightarrow> pool_step_with b t P = P"
  by (simp add: pool_step_with_def)

lemma pool_step_stopping [simp]: "stopping (pool_step t P) = stopping P"
  by (auto simp: pool_step_defs split: view.split option.split prod.split idle_fiber.split)

lemma first_item_None: "first_item t q = None \<longleftrightarrow> (\<forall>x \<in> set q. \<not> may_take t x)"
  by (induction q) (auto split: if_splits)

lemma first_item_Some:
  "first_item t q = Some (x, r) \<Longrightarrow> may_take t x \<and> (\<exists>ys zs. q = ys @ x # zs \<and> r = ys @ zs)"
proof (induction q arbitrary: r)
  case (Cons y q)
  show ?case
  proof (cases "may_take t y")
    case True
    with Cons.prems have "x = y" "r = q" by auto
    with True show ?thesis by (intro conjI exI [of _ "[]"] exI [of _ q]) simp_all
  next
    case False
    with Cons.prems obtain r' where "first_item t q = Some (x, r')" "r = y # r'" by auto
    with Cons.IH obtain ys zs where "may_take t x" "q = ys @ x # zs" "r = (y # ys) @ zs" by fastforce
    then show ?thesis by (intro conjI exI [of _ "y # ys"] exI [of _ zs]) simp_all
  qed
qed simp

subsection \<open>A measure of the work that is left\<close>

text \<open>
  Every step lowers it, except those by which a thread that finds nothing goes round in its loop.
\<close>

fun op_work :: "client_op \<Rightarrow> nat" where
  "op_work OpYieldToReady = 7"
| "op_work (OpScheduleCb p thr) = 8 + sum_list (map op_work p)"
| "op_work _ = 1"

definition program_work :: "client_op list \<Rightarrow> nat" where
  "program_work p = 4 + sum_list (map op_work p)"

fun loop_work :: "idle_fiber \<Rightarrow> nat" where
  "loop_work Finished = 3"
| "loop_work _ = 6"

fun end_work :: "turn_end \<Rightarrow> nat" where
  "end_work (Ready r) = 3 + program_work r"
| "end_work _ = 0"

fun view_work :: "view \<Rightarrow> nat" where
  "view_work Gone = 0"
| "view_work Entering = 7"
| "view_work (Looping d) = loop_work d"
| "view_work (Taking x d) = loop_work d + program_work (program x) + 2"
| "view_work (NotFound d) = (if d = Finished then 2 else 6)"
| "view_work (Starting p d) = loop_work d + program_work p + 1"
| "view_work (Running p d) = loop_work d + program_work p"
| "view_work (Switching e d) = loop_work d + end_work e + 3"
| "view_work (Back e d) = loop_work d + end_work e + 2"
| "view_work (Requeueing e d) = loop_work d + end_work e + 1"
| "view_work IdleStart = 6"
| "view_work IdleRun = 6"
| "view_work (IdleSwitching d) = (if d = Finished then 5 else 6)"
| "view_work (IdleBack d) = (if d = Finished then 4 else 6)"
| "view_work Leaving = 1"

definition queue_work :: "item list \<Rightarrow> nat" where
  "queue_work q = sum_list (map (\<lambda>x. program_work (program x) + 3) q)"

lemma queue_work_simps [simp]:
  "queue_work [] = 0" "queue_work (x # q) = program_work (program x) + 3 + queue_work q"
  "queue_work (q @ r) = queue_work q + queue_work r"
  by (simp_all add: queue_work_def)

definition pool_work :: "tid set \<Rightarrow> pool \<Rightarrow> nat" where
  "pool_work T P = (\<Sum>t \<in> T. view_work (views P t)) + queue_work (queue P)"

text \<open>The views of a thread that goes round, by their distance from the search.\<close>

fun rounds :: "view \<Rightarrow> nat option" where
  "rounds (Looping d) = (if d = Finished then None else Some 0)"
| "rounds (IdleBack d) = (if d = Finished then None else Some 1)"
| "rounds (IdleSwitching d) = (if d = Finished then None else Some 2)"
| "rounds IdleRun = Some 3"
| "rounds IdleStart = Some 4"
| "rounds (NotFound d) = (if d = Finished then None else Some 5)"
| "rounds _ = None"

lemma pool_work_goto:
  assumes "finite T" "t \<in> T"
  shows "pool_work T (goto t v P) + view_work (views P t) = pool_work T P + view_work v"
proof -
  have "(\<Sum>u \<in> T - {t}. view_work (((views P)(t := v)) u)) = (\<Sum>u \<in> T - {t}. view_work (views P u))"
    by (rule sum.cong) auto
  then show ?thesis by (simp add: pool_work_def sum.remove [OF assms])
qed

lemma pool_work_queue [simp]: "pool_work T (P\<lparr>queue := q\<rparr>) + queue_work (queue P) = pool_work T P + queue_work q"
  "pool_work T (enqueue xs P) = pool_work T P + queue_work xs"
  by (simp_all add: pool_work_def)

lemma run_op_work:
  "run_op p d = (v, xs) \<Longrightarrow> view_work v + queue_work xs < loop_work d + program_work p"
  by (induction p d rule: run_op.induct) (auto simp: program_work_def)

text \<open>A step lowers the measure, or it is a step of the round.\<close>

lemma pool_step_work:
  assumes T: "finite T" "t \<in> T" and v: "views P t \<noteq> Gone"
  shows "pool_work T (pool_step t P) < pool_work T P \<or>
    (rounds (views P t) \<noteq> None \<and> rounds (views (pool_step t P) t) \<noteq> None \<and>
     queue (pool_step t P) = queue P \<and> pool_work T (pool_step t P) = pool_work T P)"
proof -
  note w = pool_work_goto [OF T]
  show ?thesis
  proof (cases "views P t")
    case (Looping d)
    show ?thesis
    proof (cases "first_item t (queue P)")
      case None
      with w [of "NotFound d" P] Looping show ?thesis by (cases d) (auto simp: pool_step_defs)
    next
      case (Some y)
      obtain x r where y: "y = (x, r)" by (rule prod.exhaust)
      with Some first_item_Some obtain ys zs where q: "queue P = ys @ x # zs" "r = ys @ zs" by blast
      have "pool_work T (P\<lparr>queue := r\<rparr>) + program_work (program x) + 3 = pool_work T P"
        using pool_work_queue(1) [where q = r and T = T and P = P] by (simp add: q)
      with w [of "Taking x d" "P\<lparr>queue := r\<rparr>"] Looping Some y show ?thesis by (simp add: pool_step_defs)
    qed
  next
    case (Running p d)
    obtain u xs where r: "run_op p d = (u, xs)" by (rule prod.exhaust)
    with w [of u "enqueue xs P"] run_op_work [OF r] Running show ?thesis by (simp add: pool_step_defs)
  next
    case (Taking x d)
    then show ?thesis
      using w [of "case x of QCallback p _ \<Rightarrow> Starting p d | QFiber p _ \<Rightarrow> Running p d" P]
      by (cases x) (auto simp: pool_step_defs)
  next
    case (NotFound d)
    then show ?thesis
      using w [of "case d of Unused \<Rightarrow> IdleStart | Waiting \<Rightarrow> IdleRun | Finished \<Rightarrow> Leaving" P]
      by (cases d) (auto simp: pool_step_defs)
  next
    case (Requeueing e d)
    then show ?thesis
      using w [of "Looping d" "enqueue (case e of Ready r \<Rightarrow> [QFiber r (-1)] | _ \<Rightarrow> []) P"]
      by (cases e) (auto simp: pool_step_defs)
  next
    case Entering
    then show ?thesis using w [of "Looping Unused" P] by (simp add: pool_step_defs)
  next
    case (Starting p d)
    then show ?thesis using w [of "Running p d" P] by (simp add: pool_step_defs)
  next
    case (Switching e d)
    then show ?thesis using w [of "Back e d" P] by (simp add: pool_step_defs)
  next
    case (Back e d)
    then show ?thesis using w [of "Requeueing e d" P] by (simp add: pool_step_defs)
  next
    case IdleStart
    then show ?thesis using w [of IdleRun P] by (simp add: pool_step_defs)
  next
    case IdleRun
    then show ?thesis using w [of "IdleSwitching (if pool_stopped P then Finished else Waiting)" P]
      by (auto simp: pool_step_defs)
  next
    case (IdleSwitching d)
    then show ?thesis using w [of "IdleBack d" P] by (cases d) (auto simp: pool_step_defs)
  next
    case (IdleBack d)
    then show ?thesis using w [of "Looping d" P] by (cases d) (auto simp: pool_step_defs)
  next
    case Leaving
    then show ?thesis using w [of Gone P] by (simp add: pool_step_defs)
  qed (use v in simp)
qed

end
