(* ===== verification/PoolProgress.thy ===== *)
theory PoolProgress
  imports PoolSpecs
begin

section \<open>The pool finishes its work\<close>

text \<open>
  An infinite schedule names the thread that moves next. When every thread of the pool moves again
  and again and the pool is to stop, every thread leaves and the queue is empty at the end: the
  measure of the work falls, and a pool in which it does not fall any more has no thread left.
\<close>

primrec pool_after :: "(nat \<Rightarrow> tid) \<Rightarrow> pool \<Rightarrow> nat \<Rightarrow> pool" where
  "pool_after \<sigma> P 0 = P"
| "pool_after \<sigma> P (Suc n) = pool_step (\<sigma> n) (pool_after \<sigma> P n)"

definition fair :: "tid set \<Rightarrow> (nat \<Rightarrow> tid) \<Rightarrow> bool" where
  "fair T \<sigma> \<longleftrightarrow> (\<forall>t \<in> T. \<forall>n. \<exists>m \<ge> n. \<sigma> m = t)"

definition suffix :: "nat \<Rightarrow> (nat \<Rightarrow> tid) \<Rightarrow> nat \<Rightarrow> tid" where
  "suffix k \<sigma> n = \<sigma> (n + k)"

lemma fair_suffix:
  assumes "fair T \<sigma>"
  shows "fair T (suffix k \<sigma>)"
  unfolding fair_def
proof (intro ballI allI)
  fix t n
  assume "t \<in> T"
  with assms obtain m where "n + k \<le> m" "\<sigma> m = t" unfolding fair_def by blast
  then show "\<exists>m \<ge> n. suffix k \<sigma> m = t" by (intro exI [of _ "m - k"]) (simp add: suffix_def)
qed

lemma pool_after_suffix: "pool_after (suffix k \<sigma>) (pool_after \<sigma> P k) n = pool_after \<sigma> P (n + k)"
  by (induction n) (simp_all add: suffix_def)

subsection \<open>What stays true\<close>

fun view_unpinned :: "view \<Rightarrow> bool" where
  "view_unpinned (Taking x d) = (pin x = -1 \<and> unpinned (program x))"
| "view_unpinned (Starting p d) = unpinned p"
| "view_unpinned (Running p d) = unpinned p"
| "view_unpinned (Switching e d) = (case e of Ready r \<Rightarrow> unpinned r | _ \<Rightarrow> True)"
| "view_unpinned (Back e d) = (case e of Ready r \<Rightarrow> unpinned r | _ \<Rightarrow> True)"
| "view_unpinned (Requeueing e d) = (case e of Ready r \<Rightarrow> unpinned r | _ \<Rightarrow> True)"
| "view_unpinned _ = True"

text \<open>A thread that has not left and searches the queue once more before it does.\<close>

fun searches :: "view \<Rightarrow> bool" where
  "searches Gone = False"
| "searches Leaving = False"
| "searches (NotFound d) = (d \<noteq> Finished)"
| "searches _ = True"

definition draining :: "tid set \<Rightarrow> pool \<Rightarrow> bool" where
  "draining T P \<longleftrightarrow> stopping P \<and> (\<forall>t. t \<notin> T \<longrightarrow> views P t = Gone) \<and>
     (\<forall>x \<in> set (queue P). pin x = -1 \<and> unpinned (program x)) \<and> (\<forall>t. view_unpinned (views P t)) \<and>
     (queue P \<noteq> [] \<longrightarrow> (\<exists>t. searches (views P t)))"

lemma run_op_unpinned:
  "run_op p d = (v, xs) \<Longrightarrow> unpinned p \<Longrightarrow>
   view_unpinned v \<and> (\<forall>x \<in> set xs. pin x = -1 \<and> unpinned (program x)) \<and> searches v"
  by (induction p d rule: run_op.induct) (auto simp: unpinned_def)

lemma pool_step_with_unpinned:
  assumes "\<forall>x \<in> set (queue P). pin x = -1 \<and> unpinned (program x)" and "\<forall>t. view_unpinned (views P t)"
  shows "(\<forall>x \<in> set (queue (pool_step_with b t P)). pin x = -1 \<and> unpinned (program x)) \<and>
    (\<forall>u. view_unpinned (views (pool_step_with b t P) u))"
proof -
  have v: "view_unpinned (views P t)" using assms(2) by simp
  show ?thesis
  proof (cases "views P t")
    case (Looping d)
    show ?thesis
    proof (cases "first_item t (queue P)")
      case (Some y)
      obtain x r where y: "y = (x, r)" by (rule prod.exhaust)
      with Some first_item_Some obtain ys zs where "queue P = ys @ x # zs" "r = ys @ zs" by blast
      with assms Looping Some y show ?thesis by (auto simp: pool_step_with_def)
    qed (use assms Looping in \<open>auto simp: pool_step_with_def\<close>)
  next
    case (Running p d)
    obtain u xs where r: "run_op p d = (u, xs)" by (rule prod.exhaust)
    with run_op_unpinned [OF r] v Running assms show ?thesis by (auto simp: pool_step_with_def)
  next
    case (Taking x d)
    with assms v show ?thesis by (cases x) (auto simp: pool_step_with_def)
  next
    case (Requeueing e d)
    with assms v show ?thesis by (cases e) (auto simp: pool_step_with_def)
  qed (use assms v in \<open>auto simp: pool_step_with_def split: idle_fiber.split\<close>)
qed

lemma run_op_searches: "searches (fst (run_op p d))"
  by (induction p d rule: run_op.induct) simp_all

lemma step_not_searching:
  assumes "\<not> searches (views (pool_step t P) t)"
  shows "views P t = Gone \<or> views P t = Leaving \<or> views P t = NotFound Finished \<or>
    (\<exists>d. views P t = Looping d \<and> first_item t (queue P) = None)"
proof (cases "views P t")
  case (Running p d)
  with assms run_op_searches [of p d] show ?thesis by (simp add: pool_step_defs split: prod.splits)
next
  case (Taking x d)
  with assms show ?thesis by (cases x) (simp_all add: pool_step_defs)
next
  case (NotFound d)
  with assms show ?thesis by (cases d) (simp_all add: pool_step_defs)
qed (use assms in \<open>auto simp: pool_step_defs split: option.splits\<close>)

lemma pool_step_searches:
  assumes q: "queue P \<noteq> [] \<longrightarrow> (\<exists>u. searches (views P u))" and un: "\<forall>x \<in> set (queue P). pin x = -1"
    and "queue (pool_step t P) \<noteq> []"
  shows "\<exists>u. searches (views (pool_step t P) u)"
proof (cases "searches (views (pool_step t P) t)")
  case False
  note v = step_not_searching [OF False]
  have same: "queue (pool_step t P) = queue P" using v by (auto simp: pool_step_defs)
  with q assms(3) obtain u where u: "searches (views P u)" by auto
  have "u \<noteq> t"
  proof
    assume "u = t"
    with u v have "first_item t (queue P) = None" by auto
    with un have "queue P = []" by (cases "queue P") (auto simp: may_take_def)
    with assms(3) same show False by simp
  qed
  with u have "searches (views (pool_step t P) u)" by (simp add: pool_step_other)
  then show ?thesis by blast
qed blast

lemma pool_step_stays_gone: "views P u = Gone \<Longrightarrow> views (pool_step t P) u = Gone"
  by (cases "u = t") (simp_all add: pool_step_other, simp add: pool_step_defs)

lemma draining_step:
  assumes dr: "draining T P"
  shows "draining T (pool_step t P)"
proof -
  have un: "(\<forall>x \<in> set (queue (pool_step t P)). pin x = -1 \<and> unpinned (program x)) \<and>
    (\<forall>u. view_unpinned (views (pool_step t P) u))"
    unfolding pool_step_def by (rule pool_step_with_unpinned) (use dr in \<open>simp_all add: draining_def\<close>)
  have "queue (pool_step t P) \<noteq> [] \<longrightarrow> (\<exists>u. searches (views (pool_step t P) u))"
    using pool_step_searches [of P t] dr by (simp add: draining_def)
  with un dr show ?thesis by (simp add: draining_def pool_step_stays_gone)
qed

lemma draining_after: "draining T P \<Longrightarrow> draining T (pool_after \<sigma> P n)"
  by (induction n) (simp_all add: draining_step)

lemma pool_step_gone: "views P t = Gone \<Longrightarrow> pool_step t P = P"
  by (simp add: pool_step_defs)

lemma pool_after_work:
  assumes "finite T" "draining T P"
  shows "pool_work T (pool_after \<sigma> P (Suc n)) \<le> pool_work T (pool_after \<sigma> P n)"
proof (cases "views (pool_after \<sigma> P n) (\<sigma> n) = Gone")
  case False
  then have "\<sigma> n \<in> T" using draining_after [OF assms(2), of \<sigma> n] by (auto simp: draining_def)
  from pool_step_work [OF assms(1) this False] show ?thesis by auto
qed (simp add: pool_step_gone)

lemma next_turn:
  assumes "fair T \<sigma>" "t \<in> T"
  obtains m where "n \<le> m" "\<sigma> m = t" "views (pool_after \<sigma> P m) t = views (pool_after \<sigma> P n) t"
proof -
  define m where "m = (LEAST m. n \<le> m \<and> \<sigma> m = t)"
  have m: "n \<le> m \<and> \<sigma> m = t"
    unfolding m_def by (rule LeastI_ex) (use assms in \<open>auto simp: fair_def\<close>)
  have before: "\<sigma> k \<noteq> t" if "n \<le> k" "k < m" for k
    using that not_less_Least [of k "\<lambda>m. n \<le> m \<and> \<sigma> m = t"] by (auto simp: m_def)
  have "views (pool_after \<sigma> P (n + j)) t = views (pool_after \<sigma> P n) t" if "n + j \<le> m" for j
    using that
  proof (induction j)
    case (Suc j)
    then have "\<sigma> (n + j) \<noteq> t" by (intro before) simp_all
    with Suc show ?case by (simp add: pool_step_other)
  qed simp
  from this [of "m - n"] m that [of m] show thesis by simp
qed

subsection \<open>The measure falls\<close>

text \<open>While it does not, every thread that is there goes round, and the queue stays.\<close>

lemma stuck_rounds:
  assumes T: "finite T" and dr: "draining T P" and fair: "fair T \<sigma>"
    and stuck: "\<forall>n. pool_work T (pool_after \<sigma> P n) = w"
  shows "views (pool_after \<sigma> P n) t = Gone \<or> rounds (views (pool_after \<sigma> P n) t) \<noteq> None"
proof (cases "t \<in> T")
  case True
  obtain m where m: "\<sigma> m = t" "views (pool_after \<sigma> P m) t = views (pool_after \<sigma> P n) t"
    using next_turn [OF fair True] by metis
  have "pool_work T (pool_step t (pool_after \<sigma> P m)) = pool_work T (pool_after \<sigma> P m)"
    using stuck [rule_format, of "Suc m"] stuck [rule_format, of m] m(1) by simp
  with pool_step_work [OF T True, of "pool_after \<sigma> P m"] m(2) show ?thesis by auto
next
  case False
  with draining_after [OF dr] show ?thesis by (simp add: draining_def)
qed

lemma stuck_queue:
  assumes T: "finite T" and dr: "draining T P"
    and stuck: "\<forall>n. pool_work T (pool_after \<sigma> P n) = w"
  shows "queue (pool_after \<sigma> P n) = queue P"
proof (induction n)
  case (Suc n)
  show ?case
  proof (cases "views (pool_after \<sigma> P n) (\<sigma> n) = Gone")
    case False
    then have "\<sigma> n \<in> T" using draining_after [OF dr, of \<sigma> n] by (auto simp: draining_def)
    from pool_step_work [OF T this False] stuck [rule_format, of "Suc n"] stuck [rule_format, of n] Suc
    show ?thesis by simp
  qed (use Suc in \<open>simp add: pool_step_gone\<close>)
qed simp

text \<open>A thread that goes round comes to its search and to the test of its idle fiber.\<close>

lemma round_step:
  assumes "rounds (views P t) = Some k" and "rounds (views (pool_step t P) t) = Some k'"
  shows "if k = 0 then k' = 5 else k' < k \<and> (3 \<le> k \<longrightarrow> k = 3 \<or> 3 \<le> k')"
  using assms
  by (auto simp: pool_step_defs split: view.splits idle_fiber.splits option.splits if_splits)

lemma round_reaches:
  assumes fair: "fair T \<sigma>" "t \<in> T" and round: "\<forall>n. rounds (views (pool_after \<sigma> P n) t) \<noteq> None"
    and c: "c = 0 \<or> c = (3::nat)"
  shows "\<exists>m \<ge> n. \<sigma> m = t \<and> rounds (views (pool_after \<sigma> P m) t) = Some c"
proof (induction "(the (rounds (views (pool_after \<sigma> P n) t)) + 6 - c) mod 6" arbitrary: n rule: less_induct)
  case less
  obtain m where m: "n \<le> m" "\<sigma> m = t" "views (pool_after \<sigma> P m) t = views (pool_after \<sigma> P n) t"
    by (rule next_turn [OF fair])
  obtain k where k: "rounds (views (pool_after \<sigma> P m) t) = Some k" using round by blast
  show ?case
  proof (cases "k = c")
    case True
    with m k show ?thesis by blast
  next
    case False
    obtain k' where k': "rounds (views (pool_after \<sigma> P (Suc m)) t) = Some k'" using round by blast
    have "k \<le> 5" using k by (cases "views (pool_after \<sigma> P m) t") (auto split: if_splits)
    moreover have "if k = 0 then k' = 5 else k' < k \<and> (3 \<le> k \<longrightarrow> k = 3 \<or> 3 \<le> k')"
      using round_step [OF k] k' m(2) by simp
    ultimately have "(k' + 6 - c) mod 6 < (k + 6 - c) mod 6"
      using c False by (auto split: if_splits) presburger+
    with less [of "Suc m"] k k' m(3) obtain j where
      "Suc m \<le> j" "\<sigma> j = t" "rounds (views (pool_after \<sigma> P j) t) = Some c" by auto
    with m(1) show ?thesis by (intro exI [of _ j]) simp
  qed
qed

lemma pool_work_falls:
  assumes T: "finite T" and dr: "draining T P" and fair: "fair T \<sigma>"
    and left: "queue P \<noteq> [] \<or> (\<exists>t. views P t \<noteq> Gone)"
  shows "\<exists>n. pool_work T (pool_after \<sigma> P n) < pool_work T P"
proof (rule ccontr)
  assume not: "\<not> ?thesis"
  have "pool_work T (pool_after \<sigma> P n) \<le> pool_work T P" for n
    by (induction n) (use pool_after_work [OF T dr, of \<sigma>] le_trans in \<open>simp, blast\<close>)
  with not have stuck: "\<forall>n. pool_work T (pool_after \<sigma> P n) = pool_work T P" by (meson le_antisym not_less)
  note rounds = stuck_rounds [OF T dr fair stuck]
  note queue = stuck_queue [OF T dr stuck]
  obtain t where t: "views P t \<noteq> Gone" using left dr by (force simp: draining_def)
  then have tT: "t \<in> T" using dr by (auto simp: draining_def)
  have there: "rounds (views (pool_after \<sigma> P n) t) \<noteq> None" for n
  proof (induction n)
    case 0
    with t rounds [of 0 t] show ?case by simp
  next
    case (Suc n)
    have "views (pool_after \<sigma> P (Suc n)) t \<noteq> Gone"
    proof (cases "\<sigma> n = t")
      case True
      with Suc show ?thesis
        by (auto simp: pool_step_defs split: view.splits idle_fiber.splits option.splits if_splits)
    next
      case False
      with Suc show ?thesis by (auto simp: pool_step_other)
    qed
    with rounds show ?case by blast
  qed
  show False
  proof (cases "queue P = []")
    case False
    obtain m where m: "\<sigma> m = t" "rounds (views (pool_after \<sigma> P m) t) = Some 0"
      using round_reaches [OF fair tT, of P 0 0] there by blast
    then obtain d where d: "views (pool_after \<sigma> P m) t = Looping d"
      by (cases "views (pool_after \<sigma> P m) t") (auto split: if_splits)
    have "may_take t x" if "x \<in> set (queue P)" for x using that dr by (auto simp: draining_def may_take_def)
    with False have "first_item t (queue P) \<noteq> None" by (cases "queue P") (auto simp: first_item_None)
    then obtain x q where "first_item t (queue P) = Some (x, q)" by auto
    with d m(1) have "views (pool_after \<sigma> P (Suc m)) t = Taking x d" by (simp add: pool_step_defs queue)
    with there [of "Suc m"] show False by simp
  next
    case True
    obtain m where m: "\<sigma> m = t" "rounds (views (pool_after \<sigma> P m) t) = Some 3"
      using round_reaches [OF fair tT, of P 3 0] there by blast
    then have i: "views (pool_after \<sigma> P m) t = IdleRun"
      by (cases "views (pool_after \<sigma> P m) t") (auto split: if_splits)
    have "\<not> working (views (pool_after \<sigma> P m) u)" for u
      using rounds [of m u] by (cases "views (pool_after \<sigma> P m) u") auto
    moreover have "stopping (pool_after \<sigma> P m)" using draining_after [OF dr] by (simp add: draining_def)
    ultimately have "pool_stopped (pool_after \<sigma> P m)" using True by (simp add: pool_stopped_def queue)
    with i m(1) have "views (pool_after \<sigma> P (Suc m)) t = IdleSwitching Finished" by (simp add: pool_step_defs)
    with there [of "Suc m"] show False by simp
  qed
qed

theorem pool_drains:
  "finite T \<Longrightarrow> draining T P \<Longrightarrow> fair T \<sigma> \<Longrightarrow>
   \<exists>n. queue (pool_after \<sigma> P n) = [] \<and> (\<forall>t. views (pool_after \<sigma> P n) t = Gone)"
proof (induction "pool_work T P" arbitrary: P \<sigma> rule: less_induct)
  case less
  show ?case
  proof (cases "queue P \<noteq> [] \<or> (\<exists>t. views P t \<noteq> Gone)")
    case True
    from pool_work_falls [OF less.prems True] obtain k where
      "pool_work T (pool_after \<sigma> P k) < pool_work T P" by blast
    from less.hyps [OF this less.prems(1) draining_after [OF less.prems(2)] fair_suffix [OF less.prems(3), of k]]
    obtain n where "queue (pool_after \<sigma> P (n + k)) = []" "\<forall>t. views (pool_after \<sigma> P (n + k)) t = Gone"
      by (auto simp: pool_after_suffix)
    then show ?thesis by blast
  next
    case False
    then show ?thesis by (intro exI [of _ 0]) simp
  qed
qed

text \<open>Once every thread has left nothing changes any more.\<close>

lemma pool_after_gone:
  "\<forall>t. views P t = Gone \<Longrightarrow> pool_after \<sigma> P n = P"
  by (induction n) (simp_all add: pool_step_gone)

end
