(* ===== verification/PoolOwners.thy ===== *)
theory PoolOwners
  imports SchedulerLiveness PoolProgress
begin

section \<open>Who owns a fiber\<close>

text \<open>
  The states of a scheduler whose threads all belong to its pool and whose clients are tame. Every
  fiber that can still run has one owner: the queue, or the thread that holds it (its main fiber,
  its idle fiber, the fiber it keeps for callbacks, the fiber of the task it has taken). A thread
  changes no other objects, so what holds of the other threads stays. \<open>pool_of\<close> is the abstract
  pool of theory \<open>PoolSpecs\<close> such a state stands for.
\<close>

subsection \<open>Objects\<close>

text \<open>A fiber that gave way and is ready; one that has just switched back; one that is kept.\<close>

definition ready_fiber :: "faddr \<Rightarrow> fiber option \<Rightarrow> bool" where
  "ready_fiber a fo \<longleftrightarrow> (\<exists>f p. fo = Some f \<and> m_state f = State_READY \<and> m_stack f \<and>
     m_ctx f = CtxSaved (Heap a) (KBody MainFunc a (Client p)) \<and> tame p)"

definition back_fiber :: "faddr \<Rightarrow> fiber option \<Rightarrow> bool" where
  "back_fiber a fo \<longleftrightarrow> ready_fiber a fo \<or>
     (\<exists>f. fo = Some f \<and> m_stack f \<and> m_state f \<in> {State_HOLD, State_TERM, State_EXCEPT})"

definition kept_fiber :: "fiber option \<Rightarrow> bool" where
  "kept_fiber fo \<longleftrightarrow> (\<exists>f. fo = Some f \<and> m_stack f \<and> m_state f = State_INIT)"

text \<open>The idle fiber of a thread, while the thread is not in it.\<close>

definition idle_rests :: "faddr \<Rightarrow> fiber option \<Rightarrow> bool" where
  "idle_rests a fo \<longleftrightarrow> (\<exists>f. fo = Some f \<and>
     (m_state f = State_INIT \<and> m_ctx f = CtxEntry MainFunc \<and> m_cb f = Some SchedulerIdle \<or>
      m_state f = State_HOLD \<and> m_ctx f = CtxSaved (Heap a) (KBody MainFunc a SchedulerIdle) \<or>
      m_state f = State_TERM))"

definition task_ok :: "(faddr \<Rightarrow> fiber option) \<Rightarrow> task \<Rightarrow> bool" where
  "task_ok h x \<longleftrightarrow>
     (case ft_fiber x of
        None \<Rightarrow> (\<exists>p. ft_cb x = Some (Client p) \<and> tame p)
      | Some a \<Rightarrow> ft_cb x = None \<and> ready_fiber a (h a))"

subsection \<open>Threads\<close>

definition task_fiber :: "task \<Rightarrow> faddr list" where
  "task_fiber x = (case ft_fiber x of None \<Rightarrow> [] | Some a \<Rightarrow> [a])"

definition owned :: "thread_local \<Rightarrow> run_frame option \<Rightarrow> faddr list" where
  "owned l fro =
     (case fro of
        None \<Rightarrow> []
      | Some fr \<Rightarrow>
          if pc fr = PcEnter then []
          else the (t_mainFiber l) # idleFiber fr # cb_fibers fr @ task_fiber (ft fr))"

text \<open>The code of a callback on the fiber \<open>a\<close>, and that of \<open>Scheduler::idle\<close>.\<close>

definition in_program :: "cont \<Rightarrow> faddr \<Rightarrow> fiber \<Rightarrow> bool" where
  "in_program k a f \<longleftrightarrow> m_stack f \<and>
     (k = KEntry MainFunc \<and> m_state f = State_EXEC \<and> (\<exists>p. m_cb f = Some (Client p) \<and> tame p) \<or>
      (\<exists>p. k = KBody MainFunc a (Client p) \<and> m_state f = State_EXEC \<and> tame p) \<or>
      (\<exists>p. k = KYield MainFunc a a (Client p) \<and> m_state f \<in> {State_READY, State_HOLD} \<and> tame p) \<or>
      k = KEpilogue MainFunc a \<and> m_state f \<in> {State_TERM, State_EXCEPT})"

definition in_idle :: "cont \<Rightarrow> faddr \<Rightarrow> fiber \<Rightarrow> bool" where
  "in_idle k a f \<longleftrightarrow>
     (k = KEntry MainFunc \<and> m_state f = State_EXEC \<and> m_cb f = Some SchedulerIdle \<or>
      k = KBody MainFunc a SchedulerIdle \<and> m_state f = State_EXEC \<or>
      k = KYield MainFunc a a SchedulerIdle \<and> m_state f = State_HOLD \<or>
      k = KEpilogue MainFunc a \<and> m_state f = State_TERM)"

text \<open>A thread outside \<open>run\<close>; in \<open>run\<close>, on its own stack; on the stack of a fiber.\<close>

definition outside :: "tid \<Rightarrow> thread_local \<Rightarrow> bool" where
  "outside t l \<longleftrightarrow> cpu_stack l = Native t \<and>
     (cpu l = KExit \<or> \<not> t_scheduler l \<and> (cpu l \<in> {KOutside, KStopSwap} \<or> (\<exists>us. cpu l = KJoin us)))"

definition at_home :: "(faddr \<Rightarrow> fiber option) \<Rightarrow> run_frame \<Rightarrow> bool" where
  "at_home h fr \<longleftrightarrow>
     (if pc fr = PcBackCb \<or> pc fr = PcRequeueCb then \<exists>c. cbFiber fr = Some c \<and> back_fiber c (h c)
      else \<forall>c. cbFiber fr = Some c \<longrightarrow> kept_fiber (h c)) \<and>
     (case pc fr of
        PcDispatch n True \<Rightarrow> task_ok h (ft fr)
      | PcBackFiber \<Rightarrow> \<exists>a. ft_fiber (ft fr) = Some a \<and> back_fiber a (h a)
      | PcRequeueFiber \<Rightarrow> \<exists>a. ft_fiber (ft fr) = Some a \<and> back_fiber a (h a)
      | PcBackIdle \<Rightarrow> ft fr = empty_task \<and> m_state (the (h (idleFiber fr))) \<noteq> State_INIT
      | _ \<Rightarrow> ft fr = empty_task)"

definition on_fiber :: "(faddr \<Rightarrow> fiber option) \<Rightarrow> run_frame \<Rightarrow> cont \<Rightarrow> faddr \<Rightarrow> bool" where
  "on_fiber h fr k a \<longleftrightarrow> (\<exists>f. h a = Some f \<and>
     (pc fr = PcBackIdle \<and> a = idleFiber fr \<and> in_idle k a f \<and> ft fr = empty_task \<and>
        (\<forall>c. cbFiber fr = Some c \<longrightarrow> kept_fiber (h c)) \<or>
      pc fr = PcBackFiber \<and> ft_fiber (ft fr) = Some a \<and> in_program k a f \<and> idle_rests (idleFiber fr) (h (idleFiber fr)) \<and>
        (\<forall>c. cbFiber fr = Some c \<longrightarrow> kept_fiber (h c)) \<or>
      pc fr = PcBackCb \<and> cbFiber fr = Some a \<and> in_program k a f \<and> idle_rests (idleFiber fr) (h (idleFiber fr)) \<and>
        ft fr = empty_task))"

definition thread_ok :: "tid \<Rightarrow> (faddr \<Rightarrow> fiber option) \<Rightarrow> thread_local \<Rightarrow> run_frame option \<Rightarrow> bool" where
  "thread_ok t h l fro \<longleftrightarrow>
     (case fro of
        None \<Rightarrow> outside t l
      | Some fr \<Rightarrow>
          if pc fr = PcEnter then l = (init_tls t)\<lparr>cpu := KRun None\<rparr>
          else \<exists>m mf. t_mainFiber l = Some m \<and> t_threadFiber l = Some m \<and>
            h m = Some mf \<and> m_state mf = State_EXEC \<and>
            (if cpu l = KRun None
             then cpu_stack l = Native t \<and> t_fiber l = Some m \<and> idle_rests (idleFiber fr) (h (idleFiber fr)) \<and> at_home h fr
             else m_ctx mf = CtxSaved (Native t) (KRun None) \<and>
               (\<exists>a. cpu_stack l = Heap a \<and> t_fiber l = Some a \<and> on_fiber h fr (cpu l) a)))"

subsection \<open>The invariant\<close>

definition pool_ok :: "sys \<Rightarrow> bool" where
  "pool_ok s \<longleftrightarrow> m_rootThread s = -1 \<and> m_rootFiber s = None \<and> frames s (-1) = None \<and>
     (\<forall>t. thread_ok t (heap s) (tls s t) (frames s t)) \<and>
     (\<forall>x \<in> set (m_fibers s). task_ok (heap s) x) \<and>
     (\<forall>t. distinct (owned (tls s t) (frames s t) @ task_fibers (m_fibers s))) \<and>
     (\<forall>t u. t \<noteq> u \<longrightarrow> set (owned (tls s t) (frames s t)) \<inter> set (owned (tls s u) (frames s u)) = {}) \<and>
     (\<forall>t. \<forall>a \<in> set (owned (tls s t) (frames s t) @ task_fibers (m_fibers s)). a < brk s)"

subsection \<open>The abstract pool\<close>

definition rest_of :: "ctx \<Rightarrow> client_op list" where
  "rest_of c = (case c of CtxSaved _ (KBody _ _ (Client p)) \<Rightarrow> p | _ \<Rightarrow> [])"

definition callback_program :: "callback option \<Rightarrow> client_op list" where
  "callback_program cb = (case cb of Some (Client p) \<Rightarrow> p | _ \<Rightarrow> [])"

definition item_of :: "(faddr \<Rightarrow> fiber option) \<Rightarrow> task \<Rightarrow> item" where
  "item_of h x =
     (case ft_fiber x of
        Some a \<Rightarrow> QFiber (rest_of (m_ctx (the (h a)))) (ft_thread x)
      | None \<Rightarrow> QCallback (callback_program (ft_cb x)) (ft_thread x))"

definition turn_of :: "fiber \<Rightarrow> turn_end" where
  "turn_of f =
     (case m_state f of State_READY \<Rightarrow> Ready (rest_of (m_ctx f)) | State_HOLD \<Rightarrow> Held | _ \<Rightarrow> Over)"

definition idle_of :: "fiber \<Rightarrow> idle_fiber" where
  "idle_of f = (case m_state f of State_INIT \<Rightarrow> Unused | State_TERM \<Rightarrow> Finished | _ \<Rightarrow> Waiting)"

definition home_view :: "(faddr \<Rightarrow> fiber option) \<Rightarrow> run_frame \<Rightarrow> view" where
  "home_view h fr =
     (let d = idle_of (the (h (idleFiber fr))) in
      case pc fr of
        PcEnter \<Rightarrow> Entering
      | PcLoop \<Rightarrow> Looping d
      | PcDispatch n found \<Rightarrow> (if found then Taking (item_of h (ft fr)) d else NotFound d)
      | PcBackFiber \<Rightarrow> Back (turn_of (the (h (the (ft_fiber (ft fr)))))) d
      | PcRequeueFiber \<Rightarrow> Requeueing (turn_of (the (h (the (ft_fiber (ft fr)))))) d
      | PcBackCb \<Rightarrow> Back (turn_of (the (h (the (cbFiber fr))))) d
      | PcRequeueCb \<Rightarrow> Requeueing (turn_of (the (h (the (cbFiber fr))))) d
      | PcBackIdle \<Rightarrow> IdleBack d
      | PcReturn \<Rightarrow> Leaving)"

definition fiber_view :: "(faddr \<Rightarrow> fiber option) \<Rightarrow> run_frame \<Rightarrow> cont \<Rightarrow> faddr \<Rightarrow> view" where
  "fiber_view h fr k a =
     (let d = idle_of (the (h (idleFiber fr))); f = the (h a) in
      case k of
        KEntry e \<Rightarrow> (if pc fr = PcBackIdle then IdleStart else Starting (callback_program (m_cb f)) d)
      | KBody e c (Client p) \<Rightarrow> Running p d
      | KBody e c _ \<Rightarrow> IdleRun
      | KYield e c b (Client p) \<Rightarrow> Switching (if m_state f = State_READY then Ready p else Held) d
      | KYield e c b _ \<Rightarrow> IdleSwitching Waiting
      | _ \<Rightarrow> (if pc fr = PcBackIdle then IdleSwitching Finished else Switching Over d))"

definition view_of :: "(faddr \<Rightarrow> fiber option) \<Rightarrow> thread_local \<Rightarrow> run_frame option \<Rightarrow> view" where
  "view_of h l fro =
     (case fro of
        None \<Rightarrow> Gone
      | Some fr \<Rightarrow> if cpu l = KRun None then home_view h fr else fiber_view h fr (cpu l) (the (t_fiber l)))"

definition pool_of :: "sys \<Rightarrow> pool" where
  "pool_of s =
     \<lparr>views = (\<lambda>t. view_of (heap s) (tls s t) (frames s t)),
      queue = map (item_of (heap s)) (m_fibers s),
      stopping = m_autoStop s \<and> \<not> m_isRunning s\<rparr>"

subsection \<open>A thread depends on its own objects\<close>

lemma owned_fibers:
  "pc fr \<noteq> PcEnter \<Longrightarrow> t_mainFiber l = Some m \<Longrightarrow> owned l (Some fr) = m # idleFiber fr # cb_fibers fr @ task_fiber (ft fr)"
  by (simp add: owned_def)

lemma task_cong:
  assumes "\<forall>a \<in> set (task_fiber x). h' a = h a"
  shows "task_ok h' x = task_ok h x" "item_of h' x = item_of h x"
  using assms by (auto simp: task_ok_def item_of_def task_fiber_def split: option.split)

lemma own_objects:
  assumes "\<forall>a \<in> set (idleFiber fr # cb_fibers fr @ task_fiber (ft fr)). h' a = h a"
  shows "cbFiber fr = Some c \<Longrightarrow> h' c = h c" "ft_fiber (ft fr) = Some a \<Longrightarrow> h' a = h a"
    "h' (idleFiber fr) = h (idleFiber fr)" "task_ok h' (ft fr) = task_ok h (ft fr)"
    "item_of h' (ft fr) = item_of h (ft fr)"
  using assms task_cong [of "ft fr" h' h] by (auto simp: cb_fibers_def task_fiber_def)

lemma at_home_cong:
  assumes same: "\<forall>a \<in> set (idleFiber fr # cb_fibers fr @ task_fiber (ft fr)). h' a = h a" and ok: "at_home h fr"
  shows "at_home h' fr \<and> home_view h' fr = home_view h fr"
  using ok own_objects [OF same] unfolding at_home_def home_view_def
  by (cases "pc fr") (auto simp: Let_def split: bool.splits)

lemma on_fiber_cong:
  assumes same: "\<forall>a \<in> set (idleFiber fr # cb_fibers fr @ task_fiber (ft fr)). h' a = h a"
    and ok: "on_fiber h fr k a"
  shows "on_fiber h' fr k a \<and> fiber_view h' fr k a = fiber_view h fr k a"
proof -
  note own = own_objects [OF same]
  have a: "h' a = h a" using ok own(1-3) by (auto simp: on_fiber_def)
  then show ?thesis using ok own(1,3) unfolding on_fiber_def fiber_view_def by auto
qed

lemma thread_cong:
  assumes same: "\<forall>a \<in> set (owned l fro). h' a = h a" and ok: "thread_ok t h l fro"
  shows "thread_ok t h' l fro \<and> view_of h' l fro = view_of h l fro"
proof (cases "fro = None \<or> (\<exists>fr. fro = Some fr \<and> pc fr = PcEnter)")
  case True
  with ok show ?thesis
    by (auto simp: thread_ok_def view_of_def home_view_def fiber_view_def init_tls_def)
next
  case False
  then obtain fr where fr: "fro = Some fr" "pc fr \<noteq> PcEnter" by (cases fro) auto
  with ok obtain m mf where m: "t_mainFiber l = Some m" "t_threadFiber l = Some m" "h m = Some mf"
    "m_state mf = State_EXEC" and c: "if cpu l = KRun None
      then cpu_stack l = Native t \<and> t_fiber l = Some m \<and> idle_rests (idleFiber fr) (h (idleFiber fr)) \<and> at_home h fr
      else m_ctx mf = CtxSaved (Native t) (KRun None) \<and>
        (\<exists>a. cpu_stack l = Heap a \<and> t_fiber l = Some a \<and> on_fiber h fr (cpu l) a)"
    by (auto simp: thread_ok_def)
  from same fr m(1) have hm: "h' m = h m"
    and rest: "\<forall>a \<in> set (idleFiber fr # cb_fibers fr @ task_fiber (ft fr)). h' a = h a"
    by (auto simp: owned_def)
  show ?thesis
  proof (cases "cpu l = KRun None")
    case True
    with c at_home_cong [OF rest] own_objects(3) [OF rest] fr m hm show ?thesis
      by (auto simp: thread_ok_def view_of_def)
  next
    case False
    with c obtain a where a: "cpu_stack l = Heap a" "t_fiber l = Some a" "on_fiber h fr (cpu l) a"
      and "m_ctx mf = CtxSaved (Native t) (KRun None)" by auto
    with False on_fiber_cong [OF rest a(3)] fr m hm show ?thesis
      by (auto simp: thread_ok_def view_of_def)
  qed
qed

text \<open>
  A step of thread \<open>t\<close>: it changes the objects it owns, makes new ones, and passes fibers between
  itself and the queue.
\<close>

lemma task_fibers_concat: "task_fibers q = concat (map task_fiber q)"
  by (simp add: task_fibers_def task_fiber_def [abs_def])

lemma pool_ok_step:
  assumes ok: "pool_ok s"
    and st: "tls s' = (tls s)(t := l')" "frames s' = (frames s)(t := fro')" "t = -1 \<Longrightarrow> fro' = None"
    and root: "m_rootThread s' = m_rootThread s" "m_rootFiber s' = m_rootFiber s"
    and brk: "brk s \<le> brk s'"
    and heap: "\<And>a. a < brk s \<Longrightarrow> a \<notin> set (owned (tls s t) (frames s t)) \<Longrightarrow> heap s' a = heap s a"
    and thr: "thread_ok t (heap s') l' fro'"
    and queue: "\<And>x. x \<in> set (m_fibers s') \<Longrightarrow> x \<in> set (m_fibers s) \<or> task_ok (heap s') x"
    and dist: "distinct (owned l' fro' @ task_fibers (m_fibers s'))"
    and own: "set (owned l' fro' @ task_fibers (m_fibers s')) \<subseteq>
      set (owned (tls s t) (frames s t) @ task_fibers (m_fibers s)) \<union> {brk s..<brk s'}"
  shows "pool_ok s' \<and> (\<forall>x \<in> set (m_fibers s). item_of (heap s') x = item_of (heap s) x) \<and>
    views (pool_of s') = (views (pool_of s))(t := view_of (heap s') l' fro')"
proof -
  let ?own = "\<lambda>s t. owned (tls s t) (frames s t)"
  have D: "distinct (?own s u @ task_fibers (m_fibers s))"
    and E: "u \<noteq> v \<Longrightarrow> set (?own s u) \<inter> set (?own s v) = {}"
    and B: "a \<in> set (?own s u @ task_fibers (m_fibers s)) \<Longrightarrow> a < brk s" for u v a
    using ok unfolding pool_ok_def by blast+
  have same: "?own s' u = ?own s u" if "u \<noteq> t" for u using that by (simp add: st)
  have other: "\<forall>a \<in> set (?own s u). heap s' a = heap s a" if "u \<noteq> t" for u
    using heap B [of _ u] E [OF that] by auto
  have threads: "thread_ok u (heap s') (tls s' u) (frames s' u) \<and>
      view_of (heap s') (tls s' u) (frames s' u) =
        (if u = t then view_of (heap s') l' fro' else view_of (heap s) (tls s u) (frames s u))" for u
  proof (cases "u = t")
    case False
    have "thread_ok u (heap s) (tls s u) (frames s u)" using ok by (simp add: pool_ok_def)
    from thread_cong [OF other [OF False] this] False show ?thesis by (simp add: st)
  qed (use thr in \<open>simp add: st\<close>)
  have tasks: "\<forall>a \<in> set (task_fiber x). heap s' a = heap s a" if "x \<in> set (m_fibers s)" for x
    using that D [of t] B [of _ t] heap by (fastforce simp: task_fibers_concat)
  have "task_ok (heap s') x" if "x \<in> set (m_fibers s')" for x
    using queue [OF that] ok task_cong(1) [OF tasks [of x]] by (auto simp: pool_ok_def)
  moreover have "distinct (?own s' u @ task_fibers (m_fibers s'))" for u
  proof (cases "u = t")
    case False
    have "set (?own s u) \<inter> {brk s..<brk s'} = {}" by (auto dest!: B [of _ u, simplified, OF disjI1])
    moreover have "set (?own s u) \<inter> set (task_fibers (m_fibers s)) = {}" "distinct (?own s u)"
      using D [of u] by auto
    ultimately show ?thesis using dist own E [OF False] by (auto simp: same [OF False])
  qed (use dist in \<open>simp add: st\<close>)
  moreover have "set (?own s' u) \<inter> set (?own s' v) = {}" if "u \<noteq> v" for u v
  proof -
    have t: "set (?own s w) \<inter> set (owned l' fro') = {}" if "w \<noteq> t" for w
    proof -
      have "set (?own s w) \<inter> {brk s..<brk s'} = {}" by (auto dest!: B [of _ w, simplified, OF disjI1])
      moreover have "set (?own s w) \<inter> set (task_fibers (m_fibers s)) = {}" using D [of w] by auto
      ultimately show ?thesis using own E [OF that] by auto
    qed
    show ?thesis using that t E [OF that] by (cases "u = t"; cases "v = t") (auto simp: st)
  qed
  moreover have "a < brk s'" if "a \<in> set (?own s' u @ task_fibers (m_fibers s'))" for a u
  proof -
    have "a \<in> set (?own s u) \<or> a \<in> set (owned l' fro' @ task_fibers (m_fibers s'))"
      using that by (cases "u = t") (auto simp: st)
    with own B [of a u] B [of a t] brk show ?thesis by auto
  qed
  ultimately have "pool_ok s'"
    using threads ok st(3) root unfolding pool_ok_def by (auto simp: st(2))
  moreover have "views (pool_of s') = (views (pool_of s))(t := view_of (heap s') l' fro')"
    using threads by (auto simp: pool_of_def)
  ultimately show ?thesis using task_cong(2) [OF tasks] by blast
qed

end
