(* ===== verification/PoolSteps.thy ===== *)
theory PoolSteps
  imports PoolOwners
begin

section \<open>The machine of threads implements the pool\<close>

lemma cpu_idem: "cpu l = k \<Longrightarrow> l\<lparr>cpu := k\<rparr> = l"
  by simp

text \<open>
  One lemma for each point a thread of the pool can be at: its next step does not fail, keeps the
  invariant and is the step of the abstract pool.
\<close>

definition simulated :: "tid \<Rightarrow> sys \<Rightarrow> bool" where
  "simulated t s \<longleftrightarrow> (\<exists>s' l' fro'. thread_step scheduler_vt t s = Inr s' \<and> pool_ok s' \<and>
     pool_of s' = pool_step_with (Scheduler_stopped s) t (pool_of s) \<and>
     tls s' = (tls s)(t := l') \<and> frames s' = (frames s)(t := fro') \<and>
     m_autoStop s' = m_autoStop s \<and> m_isRunning s' = m_isRunning s \<and>
     (frames s t = None \<longrightarrow> fro' = None) \<and>
     (frames s t \<noteq> None \<longrightarrow> m_threads s' = m_threads s \<and> (fro' = None \<longrightarrow> cpu l' = KExit)))"

lemma simulatedI:
  assumes step: "thread_step scheduler_vt t s = Inr s'" and ok: "pool_ok s"
    and st: "tls s' = (tls s)(t := l')" "frames s' = (frames s)(t := fro')" "t = -1 \<Longrightarrow> fro' = None"
    and root: "m_rootThread s' = m_rootThread s" "m_rootFiber s' = m_rootFiber s"
    and flags: "m_autoStop s' = m_autoStop s" "m_isRunning s' = m_isRunning s"
    and brk: "brk s \<le> brk s'"
    and heap: "\<And>a. a < brk s \<Longrightarrow> a \<notin> set (owned (tls s t) (frames s t)) \<Longrightarrow> heap s' a = heap s a"
    and thr: "thread_ok t (heap s') l' fro'"
    and queue: "m_fibers s' = m_fibers s @ new" "\<And>x. x \<in> set new \<Longrightarrow> task_ok (heap s') x"
    and dist: "distinct (owned l' fro' @ task_fibers (m_fibers s'))"
    and own: "set (owned l' fro' @ task_fibers (m_fibers s')) \<subseteq>
      set (owned (tls s t) (frames s t) @ task_fibers (m_fibers s)) \<union> {brk s..<brk s'}"
    and abstract: "pool_step_with (Scheduler_stopped s) t (pool_of s) =
      goto t (view_of (heap s') l' fro') (enqueue (map (item_of (heap s')) new) (pool_of s))"
    and leave: "frames s t = None \<Longrightarrow> fro' = None" "frames s t \<noteq> None \<Longrightarrow> m_threads s' = m_threads s"
      "frames s t \<noteq> None \<Longrightarrow> fro' = None \<Longrightarrow> cpu l' = KExit"
  shows "simulated t s"
proof -
  have "x \<in> set (m_fibers s) \<or> task_ok (heap s') x" if "x \<in> set (m_fibers s')" for x
    using that queue by auto
  from pool_ok_step [OF ok st root brk heap thr this dist own]
  have s': "pool_ok s'" "\<forall>x \<in> set (m_fibers s). item_of (heap s') x = item_of (heap s) x"
    "views (pool_of s') = (views (pool_of s))(t := view_of (heap s') l' fro')" by auto
  have "pool_of s' = pool_step_with (Scheduler_stopped s) t (pool_of s)"
    unfolding abstract by (rule pool.equality) (use s'(2,3) flags queue(1) in \<open>simp_all add: pool_of_def\<close>)
  with step s'(1) st flags leave show ?thesis
    unfolding simulated_def by (intro exI [of _ s'] exI [of _ l'] exI [of _ fro']) blast
qed

subsection \<open>What is known of a thread\<close>

lemma pool_okD:
  assumes "pool_ok s"
  shows "m_rootThread s = -1" "m_rootFiber s = None" "frames s (-1) = None"
    "thread_ok t (heap s) (tls s t) (frames s t)" "x \<in> set (m_fibers s) \<Longrightarrow> task_ok (heap s) x"
    "distinct (owned (tls s t) (frames s t) @ task_fibers (m_fibers s))"
    "a \<in> set (owned (tls s t) (frames s t) @ task_fibers (m_fibers s)) \<Longrightarrow> a < brk s"
  using assms unfolding pool_ok_def by blast+

text \<open>The facts about a thread in \<open>run\<close> on its own stack, and on the stack of the fiber \<open>a\<close>.\<close>

definition thread_home :: "sys \<Rightarrow> tid \<Rightarrow> run_frame \<Rightarrow> faddr \<Rightarrow> fiber \<Rightarrow> fiber \<Rightarrow> bool" where
  "thread_home s t fr m mf fi \<longleftrightarrow>
     t_mainFiber (tls s t) = Some m \<and> t_threadFiber (tls s t) = Some m \<and> cpu (tls s t) = KRun None \<and>
     heap s m = Some mf \<and> m_state mf = State_EXEC \<and> cpu_stack (tls s t) = Native t \<and>
     t_fiber (tls s t) = Some m \<and> heap s (idleFiber fr) = Some fi \<and> idle_rests (idleFiber fr) (Some fi) \<and>
     at_home (heap s) fr \<and> frames s t = Some fr \<and> pc fr \<noteq> PcEnter \<and> t \<noteq> -1 \<and>
     distinct (m # idleFiber fr # cb_fibers fr @ task_fiber (ft fr) @ task_fibers (m_fibers s)) \<and>
     (\<forall>a \<in> set (m # idleFiber fr # cb_fibers fr @ task_fiber (ft fr) @ task_fibers (m_fibers s)). a < brk s) \<and>
     owned (tls s t) (Some fr) = m # idleFiber fr # cb_fibers fr @ task_fiber (ft fr) \<and>
     views (pool_of s) t = home_view (heap s) fr"

definition thread_away :: "sys \<Rightarrow> tid \<Rightarrow> run_frame \<Rightarrow> faddr \<Rightarrow> fiber \<Rightarrow> faddr \<Rightarrow> fiber \<Rightarrow> bool" where
  "thread_away s t fr m mf a f \<longleftrightarrow>
     t_mainFiber (tls s t) = Some m \<and> t_threadFiber (tls s t) = Some m \<and> cpu (tls s t) \<noteq> KRun None \<and>
     heap s m = Some mf \<and> m_state mf = State_EXEC \<and> m_ctx mf = CtxSaved (Native t) (KRun None) \<and>
     cpu_stack (tls s t) = Heap a \<and> t_fiber (tls s t) = Some a \<and> heap s a = Some f \<and>
     on_fiber (heap s) fr (cpu (tls s t)) a \<and> a \<noteq> m \<and> frames s t = Some fr \<and> pc fr \<noteq> PcEnter \<and> t \<noteq> -1 \<and>
     a \<in> set (idleFiber fr # cb_fibers fr @ task_fiber (ft fr)) \<and>
     distinct (m # idleFiber fr # cb_fibers fr @ task_fiber (ft fr) @ task_fibers (m_fibers s)) \<and>
     (\<forall>a \<in> set (m # idleFiber fr # cb_fibers fr @ task_fiber (ft fr) @ task_fibers (m_fibers s)). a < brk s) \<and>
     owned (tls s t) (Some fr) = m # idleFiber fr # cb_fibers fr @ task_fiber (ft fr) \<and>
     views (pool_of s) t = fiber_view (heap s) fr (cpu (tls s t)) a"

lemma thread_cases:
  assumes ok: "pool_ok s" and fr: "frames s t = Some fr" "pc fr \<noteq> PcEnter"
  obtains m mf fi where "thread_home s t fr m mf fi" | m mf a f where "thread_away s t fr m mf a f"
proof -
  have t: "t \<noteq> -1" using fr(1) pool_okD(3) [OF ok] by auto
  from pool_okD(4) [OF ok, of t] fr obtain m mf where m: "t_mainFiber (tls s t) = Some m"
    "t_threadFiber (tls s t) = Some m" "heap s m = Some mf" "m_state mf = State_EXEC"
    and c: "if cpu (tls s t) = KRun None
      then cpu_stack (tls s t) = Native t \<and> t_fiber (tls s t) = Some m \<and>
        idle_rests (idleFiber fr) (heap s (idleFiber fr)) \<and> at_home (heap s) fr
      else m_ctx mf = CtxSaved (Native t) (KRun None) \<and>
        (\<exists>a. cpu_stack (tls s t) = Heap a \<and> t_fiber (tls s t) = Some a \<and> on_fiber (heap s) fr (cpu (tls s t)) a)"
    by (auto simp: thread_ok_def)
  have o: "owned (tls s t) (Some fr) = m # idleFiber fr # cb_fibers fr @ task_fiber (ft fr)"
    using owned_fibers [OF fr(2) m(1)] .
  have d: "distinct (m # idleFiber fr # cb_fibers fr @ task_fiber (ft fr) @ task_fibers (m_fibers s))"
    using pool_okD(6) [OF ok, of t] unfolding fr(1) o by simp
  have b: "\<forall>a \<in> set (m # idleFiber fr # cb_fibers fr @ task_fiber (ft fr) @ task_fibers (m_fibers s)). a < brk s"
    using pool_okD(7) [OF ok, of _ t] unfolding fr(1) o by auto
  show thesis
  proof (cases "cpu (tls s t) = KRun None")
    case True
    then obtain fi where "heap s (idleFiber fr) = Some fi" using c by (auto simp: idle_rests_def)
    with True c m o d b fr t have "thread_home s t fr m mf fi"
      unfolding thread_home_def by (simp add: pool_of_def view_of_def)
    then show thesis by (rule that(1))
  next
    case False
    with c obtain a where a: "m_ctx mf = CtxSaved (Native t) (KRun None)" "cpu_stack (tls s t) = Heap a"
      "t_fiber (tls s t) = Some a" "on_fiber (heap s) fr (cpu (tls s t)) a" by auto
    then obtain f where f: "heap s a = Some f" by (auto simp: on_fiber_def)
    have i: "a \<in> set (idleFiber fr # cb_fibers fr @ task_fiber (ft fr))"
      using a(4) by (auto simp: on_fiber_def cb_fibers_def task_fiber_def)
    with d have "a \<noteq> m" by auto
    with False a f i m o d b fr t have "thread_away s t fr m mf a f"
      unfolding thread_away_def by (simp add: pool_of_def view_of_def)
    then show thesis by (rule that(2))
  qed
qed

text \<open>The frequent case of a step that neither makes an object nor takes a task.\<close>

lemma simulated_local:
  assumes step: "thread_step scheduler_vt t s = Inr s'" and ok: "pool_ok s"
    and st: "tls s' = (tls s)(t := l')" "frames s' = (frames s)(t := fro')" "t \<noteq> -1"
    and same: "m_rootThread s' = m_rootThread s" "m_rootFiber s' = m_rootFiber s"
      "m_autoStop s' = m_autoStop s" "m_isRunning s' = m_isRunning s" "brk s' = brk s"
    and queue: "m_fibers s' = m_fibers s @ new" "\<And>x. x \<in> set new \<Longrightarrow> task_ok (heap s') x"
    and fr: "frames s t = Some fr" "owned (tls s t) (Some fr) = xs" "distinct (xs @ task_fibers (m_fibers s))"
    and heap: "\<And>a. a \<notin> set xs \<Longrightarrow> heap s' a = heap s a"
    and thr: "thread_ok t (heap s') l' fro'"
    and own: "owned l' fro' = ys" "set (ys @ task_fibers new) \<subseteq> set xs" "distinct (ys @ task_fibers new)"
    and abstract: "pool_step_with (Scheduler_stopped s) t (pool_of s) =
      goto t (view_of (heap s') l' fro') (enqueue (map (item_of (heap s')) new) (pool_of s))"
    and leave: "m_threads s' = m_threads s" "fro' = None \<Longrightarrow> cpu l' = KExit"
  shows "simulated t s"
  by (rule simulatedI [OF step ok st(1,2) _ same(1-4) _ _ thr queue _ _ abstract])
    (use st(3) same(5) heap own fr(2,3) leave in \<open>auto simp: fr(1) own(1) queue(1)\<close>)

subsection \<open>Entering and leaving\<close>

lemma sim_outside:
  assumes ok: "pool_ok s" and fr: "frames s t = None"
  shows "simulated t s"
proof -
  have o: "outside t (tls s t)" using pool_okD(4) [OF ok, of t] fr by (simp add: thread_ok_def)
  have "\<exists>k s'. thread_step scheduler_vt t s = Inr s' \<and> outside t ((tls s t)\<lparr>cpu := k\<rparr>) \<and>
      tls s' = (tls s)(t := (tls s t)\<lparr>cpu := k\<rparr>) \<and> frames s' = frames s \<and> heap s' = heap s \<and>
      m_fibers s' = m_fibers s \<and> brk s' = brk s \<and> m_rootThread s' = m_rootThread s \<and>
      m_rootFiber s' = m_rootFiber s \<and> m_autoStop s' = m_autoStop s \<and> m_isRunning s' = m_isRunning s"
  proof (cases "cpu (tls s t)")
    case KStopSwap
    then show ?thesis
      using o by (intro exI [of _ "KJoin (map snd (m_threads s))"]) (simp add: thread_step_def stop_swap_def set_cpu_def set_tls_def outside_def)
  next
    case (KJoin us)
    show ?thesis
    proof (cases "stop_join t us s")
      case None
      with KJoin o show ?thesis by (intro exI [of _ "KJoin us"]) (simp add: thread_step_def fun_upd_idem cpu_idem)
    next
      case (Some s1)
      then obtain k where "s1 = set_cpu t k s" "k = KOutside \<or> (\<exists>us. k = KJoin us)"
        by (auto simp: stop_join_def split: list.splits if_splits)
      with Some KJoin o show ?thesis
        by (intro exI [of _ k]) (auto simp: thread_step_def set_cpu_def set_tls_def outside_def)
    qed
  qed (use o in \<open>auto simp: thread_step_def outside_def intro!: exI [of _ "cpu (tls s t)"] simp: fun_upd_idem cpu_idem\<close>)
  then obtain k s' where s': "thread_step scheduler_vt t s = Inr s'" "outside t ((tls s t)\<lparr>cpu := k\<rparr>)"
      "tls s' = (tls s)(t := (tls s t)\<lparr>cpu := k\<rparr>)" "frames s' = frames s" "heap s' = heap s"
      "m_fibers s' = m_fibers s" "brk s' = brk s" "m_rootThread s' = m_rootThread s"
      "m_rootFiber s' = m_rootFiber s" "m_autoStop s' = m_autoStop s" "m_isRunning s' = m_isRunning s" by blast
  have "pool_step_with (Scheduler_stopped s) t (pool_of s) = pool_of s"
    using fr by (intro pool_step_with_gone) (simp add: pool_of_def view_of_def)
  also have "... = goto t Gone (enqueue [] (pool_of s))"
    using fr by (simp add: goto_def enqueue_def pool_of_def view_of_def fun_upd_idem cpu_idem)
  finally show ?thesis
    by (intro simulatedI [OF s'(1) ok s'(3), where fro' = None and new = "[]"])
      (use s' fr pool_okD(6) [OF ok, of t] in \<open>auto simp: thread_ok_def owned_def view_of_def fun_upd_idem cpu_idem\<close>)
qed

lemma sim_enter:
  assumes ok: "pool_ok s" and fr: "frames s t = Some fr" "pc fr = PcEnter"
  shows "simulated t s"
proof -
  have l: "tls s t = (init_tls t)\<lparr>cpu := KRun None\<rparr>" using pool_okD(4) [OF ok, of t] fr by (simp add: thread_ok_def)
  have t: "t \<noteq> -1" using fr(1) pool_okD(3) [OF ok] by auto
  define m i where "m = brk s" and "i = Suc (brk s)"
  define fm where "fm = \<lparr>m_id = 0, m_stackSize = 0, m_state = State_EXEC, m_ctx = CtxGot, m_stack = False, m_cb = None\<rparr>"
  define fi where "fi = \<lparr>m_id = s_fiber_id s + 1, m_stackSize = g_fiberStackSize s, m_state = State_INIT,
    m_ctx = CtxEntry MainFunc, m_stack = True, m_cb = Some SchedulerIdle\<rparr>"
  define l' where "l' = \<lparr>t_fiber = Some m, t_threadFiber = Some m, t_scheduler = True, t_mainFiber = Some m,
    cpu_stack = Native t, cpu = KRun None\<rparr>"
  define fr' where "fr' = \<lparr>pc = PcLoop, ft = empty_task, cbFiber = None, idleFiber = i\<rparr>"
  define s' where "s' = s\<lparr>s_fiber_id := s_fiber_id s + 1, s_fiber_count := s_fiber_count s + 2, brk := Suc i,
    heap := (heap s)(m := Some fm, i := Some fi), tls := (tls s)(t := l'), frames := (frames s)(t := Some fr')\<rparr>"
  have step: "thread_step scheduler_vt t s = Inr s'"
    using l fr t pool_okD(1) [OF ok]
    by (simp add: step_defs s'_def l'_def fr'_def fm_def fi_def m_def i_def cong: rbind_weak_cong)
  have q: "\<forall>a \<in> set (task_fibers (m_fibers s)). a < brk s" and d: "distinct (task_fibers (m_fibers s))"
    using pool_okD(6) [OF ok, of t] pool_okD(7) [OF ok, of _ t] by auto
  have o: "owned (tls s t) (frames s t) = []" using fr by (simp add: owned_def)
  have o': "owned l' (Some fr') = [m, i]"
    by (simp add: owned_def fr'_def l'_def cb_fibers_def task_fiber_def empty_task_def)
  have thr: "thread_ok t (heap s') l' (Some fr')"
    by (simp add: thread_ok_def s'_def fr'_def l'_def fm_def fi_def m_def i_def idle_rests_def at_home_def)
  have view: "view_of (heap s') l' (Some fr') = Looping Unused"
    by (simp add: view_of_def home_view_def s'_def fr'_def l'_def fi_def idle_of_def)
  have "views (pool_of s) t = Entering" using fr l by (simp add: pool_of_def view_of_def home_view_def)
  then have abstract: "pool_step_with (Scheduler_stopped s) t (pool_of s) =
      goto t (view_of (heap s') l' (Some fr')) (enqueue (map (item_of (heap s')) []) (pool_of s))"
    by (simp add: view pool_step_with_def enqueue_def)
  show ?thesis
    by (rule simulatedI [OF step ok _ _ _ _ _ _ _ _ _ thr _ _ _ _ abstract])
      (use q d t fr in \<open>auto simp: o o' s'_def m_def i_def\<close>)
qed

subsection \<open>The search\<close>

lemma pin_item_of [simp]: "pin (item_of h x) = ft_thread x"
  by (simp add: item_of_def split: option.split)

lemma scan_pool:
  "\<forall>x \<in> set q. task_ok h x \<Longrightarrow>
   (\<exists>n. scan t h q = Inr (None, q, n) \<and> first_item t (map (item_of h) q) = None) \<or>
   (\<exists>n ys x zs. q = ys @ x # zs \<and> scan t h q = Inr (Some x, ys @ zs, n) \<and>
      first_item t (map (item_of h) q) = Some (item_of h x, map (item_of h) (ys @ zs)))"
proof (induction q)
  case (Cons x q)
  show ?case
  proof (cases "ft_thread x = -1 \<or> ft_thread x = t")
    case True
    have "scan t h (x # q) = Inr (Some x, q, False)"
      using Cons.prems True by (auto simp: task_ok_def ready_fiber_def split: option.splits)
    moreover have "first_item t (map (item_of h) (x # q)) = Some (item_of h x, map (item_of h) q)"
      using True by (simp add: may_take_def)
    ultimately show ?thesis by (intro disjI2 exI [of _ False] exI [of _ "[]"] exI [of _ x] exI [of _ q]) simp
  next
    case False
    then have m: "\<not> may_take t (item_of h x)" by (simp add: may_take_def)
    from Cons consider n where "scan t h q = Inr (None, q, n)" "first_item t (map (item_of h) q) = None"
      | n ys y zs where "q = ys @ y # zs" "scan t h q = Inr (Some y, ys @ zs, n)"
        "first_item t (map (item_of h) q) = Some (item_of h y, map (item_of h) (ys @ zs))" by auto
    then show ?thesis
    proof cases
      case 1
      with False m show ?thesis by (intro disjI1 exI [of _ True]) simp
    next
      case 2
      with False m show ?thesis
        by (intro disjI2 exI [of _ True] exI [of _ "x # ys"] exI [of _ y] exI [of _ zs]) simp
    qed
  qed
next
  case Nil
  show ?case by (intro disjI1 exI [of _ False]) simp
qed

lemma sim_search:
  assumes ok: "pool_ok s" and home: "thread_home s t fr m mf fi" and pc: "pc fr = PcLoop"
  shows "simulated t s"
proof -
  note h = home [unfolded thread_home_def]
  have ft: "ft fr = empty_task" using h pc by (simp add: at_home_def)
  let ?d = "idle_of fi"
  have v: "views (pool_of s) t = Looping ?d" using h pc by (simp add: home_view_def)
  have tasks: "\<forall>x \<in> set (m_fibers s). task_ok (heap s) x" using pool_okD(5) [OF ok] by blast
  from scan_pool [OF tasks, of t] consider
      n where "scan t (heap s) (m_fibers s) = Inr (None, m_fibers s, n)"
        "first_item t (map (item_of (heap s)) (m_fibers s)) = None"
    | n ys x zs where "m_fibers s = ys @ x # zs" "scan t (heap s) (m_fibers s) = Inr (Some x, ys @ zs, n)"
        "first_item t (map (item_of (heap s)) (m_fibers s)) = Some (item_of (heap s) x, map (item_of (heap s)) (ys @ zs))"
    by blast
  then show ?thesis
  proof cases
    case 1
    define fr' where "fr' = fr\<lparr>ft := empty_task, pc := PcDispatch n False\<rparr>"
    define s' where "s' = s\<lparr>frames := (frames s)(t := Some fr')\<rparr>"
    have step: "thread_step scheduler_vt t s = Inr s'"
      using h pc 1 by (simp add: thread_step_def run_step_def run_search_def frame_of_def set_frame_def s'_def fr'_def)
    have own: "owned (tls s t) (Some fr') = m # idleFiber fr # cb_fibers fr"
      using h by (simp add: owned_def fr'_def cb_fibers_def task_fiber_def empty_task_def)
    have thr: "thread_ok t (heap s') (tls s t) (Some fr')"
      using h pc by (auto simp: thread_ok_def s'_def fr'_def at_home_def)
    have abstract: "pool_step_with (Scheduler_stopped s) t (pool_of s) =
        goto t (view_of (heap s') (tls s t) (Some fr')) (enqueue (map (item_of (heap s')) []) (pool_of s))"
      using 1(2) h v by (simp add: pool_step_with_def pool_of_def enqueue_def view_of_def home_view_def s'_def fr'_def)
    show ?thesis
      by (rule simulated_local [OF step ok _ _ _ _ _ _ _ _ _ _ _ _ _ _ thr own _ _ abstract])
        (use h in \<open>auto simp: s'_def ft task_fiber_def empty_task_def\<close>)
  next
    case 2
    define fr' where "fr' = fr\<lparr>ft := x, pc := PcDispatch n True\<rparr>"
    define s' where "s' = s\<lparr>m_fibers := ys @ zs, m_activeThreadCount := m_activeThreadCount s + 1,
      frames := (frames s)(t := Some fr')\<rparr>"
    have step: "thread_step scheduler_vt t s = Inr s'"
      using h pc 2 by (simp add: thread_step_def run_step_def run_search_def frame_of_def set_frame_def s'_def fr'_def)
    have o': "owned (tls s t) (Some fr') = m # idleFiber fr # cb_fibers fr @ task_fiber x"
      using h by (simp add: owned_def fr'_def cb_fibers_def)
    have x: "task_ok (heap s) x" using tasks 2(1) by simp
    have thr: "thread_ok t (heap s') (tls s t) (Some fr')"
      using h pc x by (auto simp: thread_ok_def s'_def fr'_def at_home_def)
    have view: "view_of (heap s') (tls s t) (Some fr') = Taking (item_of (heap s) x) ?d"
      using h by (simp add: view_of_def home_view_def s'_def fr'_def)
    have "pool_ok s' \<and> (\<forall>x \<in> set (m_fibers s). item_of (heap s') x = item_of (heap s) x) \<and>
        views (pool_of s') = (views (pool_of s))(t := view_of (heap s') (tls s t) (Some fr'))"
      by (rule pool_ok_step [OF ok _ _ _ _ _ _ _ thr])
        (use h in \<open>auto simp: o' s'_def 2(1) ft task_fibers_concat task_fiber_def empty_task_def\<close>)
    moreover have "pool_step_with (Scheduler_stopped s) t (pool_of s) =
        goto t (Taking (item_of (heap s) x) ?d) ((pool_of s)\<lparr>queue := map (item_of (heap s)) (ys @ zs)\<rparr>)"
      using 2(3) by (simp add: pool_step_with_def v) (simp add: pool_of_def)
    ultimately have "pool_of s' = pool_step_with (Scheduler_stopped s) t (pool_of s)" "pool_ok s'"
      by (auto simp: view intro!: pool.equality) (simp_all add: pool_of_def s'_def)
    with step h show ?thesis
      unfolding simulated_def
      by (intro exI [of _ s'] exI [of _ "tls s t"] exI [of _ "Some fr'"]) (simp add: s'_def)
  qed
qed

subsection \<open>The dispatch\<close>

text \<open>The state after a switch to the fiber \<open>a\<close>, whose object is \<open>f\<close> then.\<close>

definition away :: "tid \<Rightarrow> sys \<Rightarrow> faddr \<Rightarrow> fiber \<Rightarrow> faddr \<Rightarrow> fiber \<Rightarrow> cont \<Rightarrow> run_frame \<Rightarrow> sys" where
  "away t s m mf a f k fr' =
     s\<lparr>heap := (heap s)(m := Some (mf\<lparr>m_ctx := CtxSaved (Native t) (KRun None)\<rparr>), a := Some f),
       tls := (tls s)(t := (tls s t)\<lparr>t_fiber := Some a, cpu_stack := Heap a, cpu := k\<rparr>),
       frames := (frames s)(t := Some fr')\<rparr>"

lemma swap_in:
  assumes "heap s m = Some mf" "heap s a = Some f" "a \<noteq> m" "m_state f \<noteq> State_EXEC" "m_ctx f \<noteq> CtxGot"
    "t_mainFiber (tls s t) = Some m" "cpu_stack (tls s t) = Native t"
    "resume a (m_ctx f) l = l\<lparr>cpu_stack := Heap a, cpu := k\<rparr>" "l = (tls s t)\<lparr>t_fiber := Some a\<rparr>"
  shows "swapIn t a (KRun None) (s\<lparr>frames := (frames s)(t := Some fr')\<rparr>) =
    Inr (away t s m mf a (f\<lparr>m_state := State_EXEC\<rparr>) k fr')"
  using assms
  by (simp add: swapIn_def swapcontext_def Let_def setThis_def set_tls_def put_fiber_def fiber_at_def away_def
      fun_upd_twist)

lemma away_simulated:
  assumes step: "thread_step scheduler_vt t s = Inr (away t s1 m mf a f k fr')" and ok: "pool_ok s"
    and home: "thread_home s t fr m mf fi"
    and s1: "\<exists>n. s1 = s\<lparr>m_idleThreadCount := n\<rparr>"
    and fr': "pc fr' \<noteq> PcEnter" "idleFiber fr' = idleFiber fr" "cb_fibers fr' = cb_fibers fr"
      "set (task_fiber (ft fr')) \<subseteq> set (task_fiber (ft fr))"
    and a: "a \<in> set (idleFiber fr # cb_fibers fr @ task_fiber (ft fr))" and k: "k \<noteq> KRun None"
    and on: "on_fiber ((heap s)(m := Some (mf\<lparr>m_ctx := CtxSaved (Native t) (KRun None)\<rparr>), a := Some f)) fr' k a"
    and abstract: "pool_step_with (Scheduler_stopped s) t (pool_of s) = goto t (fiber_view
      ((heap s)(m := Some (mf\<lparr>m_ctx := CtxSaved (Native t) (KRun None)\<rparr>), a := Some f)) fr' k a) (pool_of s)"
  shows "simulated t s"
proof -
  note h = home [unfolded thread_home_def]
  let ?s' = "away t s1 m mf a f k fr'"
  let ?l = "(tls s t)\<lparr>t_fiber := Some a, cpu_stack := Heap a, cpu := k\<rparr>"
  obtain n where n: "s1 = s\<lparr>m_idleThreadCount := n\<rparr>" using s1 by blast
  have am: "a \<noteq> m" "m \<noteq> idleFiber fr" using a h by auto
  have own: "owned ?l (Some fr') = m # idleFiber fr # cb_fibers fr @ task_fiber (ft fr')"
    using h fr' by (simp add: owned_def)
  have thr: "thread_ok t (heap ?s') ?l (Some fr')"
    using h fr' k on am by (simp add: thread_ok_def away_def n)
  have abs: "pool_step_with (Scheduler_stopped s) t (pool_of s) = goto t (view_of (heap ?s') ?l (Some fr')) (enqueue (map (item_of (heap ?s')) []) (pool_of s))"
    using k by (simp add: abstract view_of_def away_def n enqueue_def)
  have d: "distinct (task_fiber (ft fr'))" by (simp add: task_fiber_def split: option.split)
  show ?thesis
    by (rule simulated_local [OF step ok _ _ _ _ _ _ _ _ _ _ _ _ _ _ thr own _ _ abs, where xs =
          "m # idleFiber fr # cb_fibers fr @ task_fiber (ft fr)"])
      (use h a d fr'(4) in \<open>auto simp: away_def n\<close>)
qed

lemma sim_dispatch_none:
  assumes ok: "pool_ok s" and home: "thread_home s t fr m mf fi" and pc: "pc fr = PcDispatch n False"
  shows "simulated t s"
proof -
  note h = home [unfolded thread_home_def]
  have ft: "ft fr = empty_task" and cb: "\<forall>c. cbFiber fr = Some c \<longrightarrow> kept_fiber (heap s c)"
    using h pc by (auto simp: at_home_def)
  have "views (pool_of s) t = NotFound (idle_of fi)" using h pc by (simp add: home_view_def)
  then have ps: "pool_step_with (Scheduler_stopped s) t (pool_of s) =
      goto t (case idle_of fi of Unused \<Rightarrow> IdleStart | Waiting \<Rightarrow> IdleRun | Finished \<Rightarrow> Leaving) (pool_of s)"
    by (simp add: pool_step_with_def)
  have step: "thread_step scheduler_vt t s = run_idle t None s"
    using h pc by (cases n) (simp_all add: thread_step_def run_step_def run_dispatch_def scheduler_vt_def
      Scheduler_notify_def frame_of_def ft empty_task_def)
  let ?i = "idleFiber fr"
  let ?s1 = "s\<lparr>m_idleThreadCount := m_idleThreadCount s + 1\<rparr>"
  have im: "?i \<noteq> m" "\<forall>c. cbFiber fr = Some c \<longrightarrow> c \<noteq> m \<and> c \<noteq> ?i" using h by (auto simp: cb_fibers_def)
  define fr' where "fr' = fr\<lparr>pc := PcBackIdle\<rparr>"
  have fr': "pc fr' \<noteq> PcEnter" "idleFiber fr' = ?i" "cb_fibers fr' = cb_fibers fr"
    "set (task_fiber (ft fr')) \<subseteq> set (task_fiber (ft fr))" by (simp_all add: fr'_def cb_fibers_def)
  consider "m_state fi = State_TERM"
    | "m_state fi = State_INIT" "m_ctx fi = CtxEntry MainFunc" "m_cb fi = Some SchedulerIdle"
    | "m_state fi = State_HOLD" "m_ctx fi = CtxSaved (Heap ?i) (KBody MainFunc ?i SchedulerIdle)"
    using h by (auto simp: idle_rests_def)
  then show ?thesis
  proof cases
    case 1
    define fr2 where "fr2 = fr\<lparr>pc := PcReturn\<rparr>"
    define s' where "s' = s\<lparr>frames := (frames s)(t := Some fr2)\<rparr>"
    have "thread_step scheduler_vt t s = Inr s'"
      using h 1 by (simp add: step run_idle_def frame_of_def set_frame_def s'_def fr2_def fiber_at_def)
    moreover have own: "owned (tls s t) (Some fr2) = m # ?i # cb_fibers fr"
      using h by (simp add: owned_def fr2_def cb_fibers_def task_fiber_def ft empty_task_def)
    moreover have thr: "thread_ok t (heap s') (tls s t) (Some fr2)"
      using h pc ft by (simp add: thread_ok_def s'_def fr2_def at_home_def)
    moreover have "pool_step_with (Scheduler_stopped s) t (pool_of s) =
        goto t (view_of (heap s') (tls s t) (Some fr2)) (enqueue (map (item_of (heap s')) []) (pool_of s))"
      using h by (simp add: ps 1 idle_of_def enqueue_def view_of_def home_view_def s'_def fr2_def)
    ultimately show ?thesis
      by (intro simulated_local [OF _ ok _ _ _ _ _ _ _ _ _ _ _ _ _ _ thr own])
        (use h in \<open>auto simp: s'_def ft task_fiber_def empty_task_def\<close>)
  next
    case 2
    have s: "thread_step scheduler_vt t s = Inr (away t ?s1 m mf ?i (fi\<lparr>m_state := State_EXEC\<rparr>) (KEntry MainFunc) fr')"
      unfolding step run_idle_def using h 2 im(1)
      by (simp add: frame_of_def set_frame_def fiber_at_def fr'_def [symmetric] swap_in [where s = ?s1, simplified])
    show ?thesis
      by (rule away_simulated [OF s ok home _ fr'])
        (use h 2 im cb ft in \<open>auto simp: fr'_def on_fiber_def in_idle_def fiber_view_def ps idle_of_def\<close>)
  next
    case 3
    have s: "thread_step scheduler_vt t s =
        Inr (away t ?s1 m mf ?i (fi\<lparr>m_state := State_EXEC\<rparr>) (KBody MainFunc ?i SchedulerIdle) fr')"
      unfolding step run_idle_def using h 3 im(1)
      by (simp add: frame_of_def set_frame_def fiber_at_def fr'_def [symmetric] swap_in [where s = ?s1, simplified])
    show ?thesis
      by (rule away_simulated [OF s ok home _ fr'])
        (use h 3 im cb ft in \<open>auto simp: fr'_def on_fiber_def in_idle_def fiber_view_def ps idle_of_def\<close>)
  qed
qed

lemma sim_dispatch_fiber:
  assumes ok: "pool_ok s" and home: "thread_home s t fr m mf fi" and pc: "pc fr = PcDispatch n True"
    and a: "ft_fiber (ft fr) = Some a"
  shows "simulated t s"
proof -
  note h = home [unfolded thread_home_def]
  have cb: "\<forall>c. cbFiber fr = Some c \<longrightarrow> kept_fiber (heap s c)" and x: "task_ok (heap s) (ft fr)"
    using h pc by (auto simp: at_home_def)
  from x a obtain f p where f: "heap s a = Some f" "m_state f = State_READY" "m_stack f"
    "m_ctx f = CtxSaved (Heap a) (KBody MainFunc a (Client p))" "tame p"
    by (auto simp: task_ok_def ready_fiber_def)
  have "views (pool_of s) t = Taking (QFiber p (ft_thread (ft fr))) (idle_of fi)"
    using h pc a f by (simp add: home_view_def item_of_def rest_of_def)
  then have ps: "pool_step_with (Scheduler_stopped s) t (pool_of s) = goto t (Running p (idle_of fi)) (pool_of s)" by (simp add: pool_step_with_def)
  have am: "a \<noteq> m" "a \<noteq> idleFiber fr" "\<forall>c. cbFiber fr = Some c \<longrightarrow> c \<noteq> m \<and> c \<noteq> a" "idleFiber fr \<noteq> m"
    using h a by (auto simp: cb_fibers_def task_fiber_def)
  define fr' where "fr' = fr\<lparr>pc := PcBackFiber\<rparr>"
  have fr': "pc fr' \<noteq> PcEnter" "idleFiber fr' = idleFiber fr" "cb_fibers fr' = cb_fibers fr"
    "set (task_fiber (ft fr')) \<subseteq> set (task_fiber (ft fr))" by (simp_all add: fr'_def cb_fibers_def)
  have s: "thread_step scheduler_vt t s =
      Inr (away t s m mf a (f\<lparr>m_state := State_EXEC\<rparr>) (KBody MainFunc a (Client p)) fr')"
    using h pc a f am by (cases n) (simp_all add: thread_step_def run_step_def run_dispatch_def scheduler_vt_def
      Scheduler_notify_def frame_of_def fiber_at_def run_fiber_def set_frame_def fr'_def [symmetric] swap_in)
  show ?thesis
    by (rule away_simulated [OF s ok home _ fr'])
      (use h a f am cb in \<open>auto simp: fr'_def on_fiber_def in_program_def fiber_view_def ps
         task_fiber_def intro!: exI [of _ "m_idleThreadCount s"]\<close>)
qed

lemma sim_dispatch_callback:
  assumes ok: "pool_ok s" and home: "thread_home s t fr m mf fi" and pc: "pc fr = PcDispatch n True"
    and x: "ft_fiber (ft fr) = None"
  shows "simulated t s"
proof -
  note h = home [unfolded thread_home_def]
  have cb: "\<forall>c. cbFiber fr = Some c \<longrightarrow> kept_fiber (heap s c)" and "task_ok (heap s) (ft fr)"
    using h pc by (auto simp: at_home_def)
  with x obtain p where p: "ft_cb (ft fr) = Some (Client p)" "tame p" by (auto simp: task_ok_def)
  have "views (pool_of s) t = Taking (QCallback p (ft_thread (ft fr))) (idle_of fi)"
    using h pc x p by (simp add: home_view_def item_of_def callback_program_def)
  then have ps: "pool_step_with (Scheduler_stopped s) t (pool_of s) = goto t (Starting p (idle_of fi)) (pool_of s)" by (simp add: pool_step_with_def)
  have im: "idleFiber fr \<noteq> m" "idleFiber fr < brk s" "m < brk s" using h by auto
  show ?thesis
  proof (cases "cbFiber fr")
    case (Some c)
    with cb obtain f where f: "heap s c = Some f" "m_stack f" "m_state f = State_INIT" by (auto simp: kept_fiber_def)
    have cm: "c \<noteq> m" "c \<noteq> idleFiber fr" using h Some by (auto simp: cb_fibers_def)
    define fr' where "fr' = fr\<lparr>cbFiber := Some c, ft := empty_task, pc := PcBackCb\<rparr>"
    have fr': "pc fr' \<noteq> PcEnter" "idleFiber fr' = idleFiber fr" "cb_fibers fr' = cb_fibers fr"
      "set (task_fiber (ft fr')) \<subseteq> set (task_fiber (ft fr))"
      by (simp_all add: fr'_def cb_fibers_def Some task_fiber_def empty_task_def)
    have s: "thread_step scheduler_vt t s =
        Inr (away t s m mf c (f\<lparr>m_cb := Some (Client p), m_ctx := CtxEntry MainFunc, m_state := State_EXEC\<rparr>)
          (KEntry MainFunc) fr')"
      using h pc x p f cm Some
      by (cases n) (simp_all add: step_defs away_def fr'_def fun_upd_twist del: rbind_eq_Inr cong: rbind_weak_cong)
    show ?thesis
      by (rule away_simulated [OF s ok home _ fr'])
        (use h f cm cb Some im p in \<open>auto simp: fr'_def on_fiber_def in_program_def fiber_view_def ps
           cb_fibers_def callback_program_def intro!: exI [of _ "m_idleThreadCount s"]\<close>)
  next
    case None
    define c where "c = brk s"
    define f where "f = \<lparr>m_id = s_fiber_id s + 1, m_stackSize = g_fiberStackSize s, m_state = State_EXEC,
      m_ctx = CtxEntry MainFunc, m_stack = True, m_cb = Some (Client p)\<rparr>"
    define fr' where "fr' = fr\<lparr>cbFiber := Some c, ft := empty_task, pc := PcBackCb\<rparr>"
    define l' where "l' = (tls s t)\<lparr>t_fiber := Some c, cpu_stack := Heap c, cpu := KEntry MainFunc\<rparr>"
    define s' where "s' = s\<lparr>s_fiber_id := s_fiber_id s + 1, s_fiber_count := s_fiber_count s + 1, brk := Suc c,
      heap := (heap s)(m := Some (mf\<lparr>m_ctx := CtxSaved (Native t) (KRun None)\<rparr>), c := Some f),
      tls := (tls s)(t := l'), frames := (frames s)(t := Some fr')\<rparr>"
    have cm: "c \<noteq> m" "c \<noteq> idleFiber fr" using im by (auto simp: c_def)
    have step: "thread_step scheduler_vt t s = Inr s'"
      using h pc x p cm None
      by (cases n) (simp_all add: step_defs s'_def fr'_def f_def l'_def c_def fun_upd_twist
        del: rbind_eq_Inr cong: rbind_weak_cong)
    have own: "owned l' (Some fr') = [m, idleFiber fr, c]"
      using h by (simp add: owned_def l'_def fr'_def cb_fibers_def task_fiber_def empty_task_def)
    have thr: "thread_ok t (heap s') l' (Some fr')"
      using h cm im p by (simp add: thread_ok_def s'_def l'_def fr'_def on_fiber_def in_program_def f_def)
    have abs: "pool_step_with (Scheduler_stopped s) t (pool_of s) =
        goto t (view_of (heap s') l' (Some fr')) (enqueue (map (item_of (heap s')) []) (pool_of s))"
      using h cm im by (simp add: ps view_of_def fiber_view_def s'_def l'_def fr'_def f_def callback_program_def enqueue_def)
    show ?thesis
      by (rule simulatedI [OF step ok _ _ _ _ _ _ _ _ _ thr _ _ _ _ abs])
        (use h im in \<open>auto simp: own s'_def c_def\<close>)
  qed
qed

subsection \<open>On the stack of a fiber\<close>

text \<open>A step that stays on the fiber \<open>a\<close> and changes at most its object.\<close>

lemma stay_simulated:
  assumes step: "thread_step scheduler_vt t s = Inr (s\<lparr>heap := (heap s)(a := Some f'),
      tls := (tls s)(t := (tls s t)\<lparr>cpu := k\<rparr>), m_fibers := m_fibers s @ new\<rparr>)"
    and ok: "pool_ok s" and away: "thread_away s t fr m mf a f"
    and k: "k \<noteq> KRun None" and on: "on_fiber ((heap s)(a := Some f')) fr k a"
    and new: "\<And>h x. x \<in> set new \<Longrightarrow> task_ok h x" "task_fibers new = []"
    and abstract: "pool_step_with (Scheduler_stopped s) t (pool_of s) =
      goto t (fiber_view ((heap s)(a := Some f')) fr k a) (enqueue (map (item_of ((heap s)(a := Some f'))) new) (pool_of s))"
  shows "simulated t s"
proof -
  note h = away [unfolded thread_away_def]
  let ?l = "(tls s t)\<lparr>cpu := k\<rparr>"
  have own: "owned ?l (Some fr) = m # idleFiber fr # cb_fibers fr @ task_fiber (ft fr)"
    using h by (simp add: owned_def)
  have thr: "thread_ok t (heap (s\<lparr>heap := (heap s)(a := Some f'),
      tls := (tls s)(t := ?l), m_fibers := m_fibers s @ new\<rparr>)) ?l (Some fr)"
    using h on k by (simp add: thread_ok_def)
  show ?thesis
    by (rule simulated_local [OF step ok _ _ _ _ _ _ _ _ _ _ _ _ _ _ thr own _ _])
      (use h k new abstract in \<open>auto simp: fun_upd_idem view_of_def\<close>)
qed

definition on_work :: "(faddr \<Rightarrow> fiber option) \<Rightarrow> run_frame \<Rightarrow> faddr \<Rightarrow> bool" where
  "on_work h fr a \<longleftrightarrow> idle_rests (idleFiber fr) (h (idleFiber fr)) \<and>
     (pc fr = PcBackFiber \<and> ft_fiber (ft fr) = Some a \<and> (\<forall>c. cbFiber fr = Some c \<longrightarrow> kept_fiber (h c)) \<or>
      pc fr = PcBackCb \<and> cbFiber fr = Some a \<and> ft fr = empty_task)"

lemma on_fiber_program:
  "pc fr \<noteq> PcBackIdle \<Longrightarrow> on_fiber h fr k a \<longleftrightarrow> on_work h fr a \<and> (\<exists>f. h a = Some f \<and> in_program k a f)"
  by (auto simp: on_fiber_def on_work_def)

lemma on_fiber_idle:
  "pc fr = PcBackIdle \<Longrightarrow> on_fiber h fr k a \<longleftrightarrow> a = idleFiber fr \<and> ft fr = empty_task \<and>
     (\<forall>c. cbFiber fr = Some c \<longrightarrow> kept_fiber (h c)) \<and> (\<exists>f. h a = Some f \<and> in_idle k a f)"
  by (auto simp: on_fiber_def)

lemma thread_awayD:
  assumes "thread_away s t fr m mf a f"
  shows "on_fiber (heap s) fr (cpu (tls s t)) a" "heap s a = Some f"
    "distinct (idleFiber fr # cb_fibers fr @ task_fiber (ft fr))"
  using assms by (auto simp: thread_away_def)

lemma away_program:
  assumes away: "thread_away s t fr m mf a f" and pc: "pc fr \<noteq> PcBackIdle"
  shows "on_work (heap s) fr a" "in_program (cpu (tls s t)) a f" "a \<noteq> idleFiber fr" "heap s a = Some f"
    "on_work ((heap s)(a := Some f')) fr a"
proof -
  show w: "on_work (heap s) fr a" "in_program (cpu (tls s t)) a f" "heap s a = Some f"
    using thread_awayD(1,2) [OF away] by (auto simp: on_fiber_program [OF pc])
  show ai: "a \<noteq> idleFiber fr"
    using w(1) thread_awayD(3) [OF away] by (auto simp: on_work_def cb_fibers_def task_fiber_def)
  have "\<forall>c. pc fr = PcBackFiber \<longrightarrow> cbFiber fr = Some c \<longrightarrow> c \<noteq> a"
    using w(1) thread_awayD(3) [OF away] by (auto simp: on_work_def cb_fibers_def task_fiber_def)
  then show "on_work ((heap s)(a := Some f')) fr a" using w(1) ai by (auto simp: on_work_def)
qed

lemma away_idle:
  assumes away: "thread_away s t fr m mf a f" and pc: "pc fr = PcBackIdle"
  shows "a = idleFiber fr" "ft fr = empty_task" "\<forall>c. cbFiber fr = Some c \<longrightarrow> kept_fiber (heap s c) \<and> c \<noteq> a"
    "in_idle (cpu (tls s t)) a f" "heap s a = Some f"
  using thread_awayD [OF away] by (auto simp: on_fiber_idle [OF pc] cb_fibers_def)

text \<open>The two kinds of steps on a fiber that stay on it: of a program and of \<open>Scheduler::idle\<close>.\<close>

lemma program_simulated:
  assumes away: "thread_away s t fr m mf a f" and pc: "pc fr \<noteq> PcBackIdle"
    and step: "thread_step scheduler_vt t s = Inr (s\<lparr>heap := (heap s)(a := Some f'),
      tls := (tls s)(t := (tls s t)\<lparr>cpu := k\<rparr>), m_fibers := m_fibers s @ new\<rparr>)"
    and ok: "pool_ok s" and k: "k \<noteq> KRun None" "in_program k a f'"
    and new: "\<And>h x. x \<in> set new \<Longrightarrow> task_ok h x" "task_fibers new = []"
    and v: "fiber_view (heap s) fr (cpu (tls s t)) a = v"
    and abstract: "\<And>P. views P t = v \<Longrightarrow> pool_step_with (Scheduler_stopped s) t P =
      goto t (fiber_view ((heap s)(a := Some f')) fr k a) (enqueue (map (item_of ((heap s)(a := Some f'))) new) P)"
  shows "simulated t s"
proof (rule stay_simulated [OF step ok away k(1) _ new abstract])
  show "on_fiber ((heap s)(a := Some f')) fr k a"
    using away_program [OF away pc] k(2) by (simp add: on_fiber_program [OF pc])
  show "views (pool_of s) t = v" using away v by (simp add: thread_away_def)
qed

lemma idle_simulated:
  assumes away: "thread_away s t fr m mf a f" and pc: "pc fr = PcBackIdle"
    and step: "thread_step scheduler_vt t s = Inr (s\<lparr>heap := (heap s)(a := Some f'),
      tls := (tls s)(t := (tls s t)\<lparr>cpu := k\<rparr>), m_fibers := m_fibers s @ []\<rparr>)"
    and ok: "pool_ok s" and k: "k \<noteq> KRun None" "in_idle k a f'"
    and v: "fiber_view (heap s) fr (cpu (tls s t)) a = v"
    and abstract: "views (pool_of s) t = v \<Longrightarrow> pool_step_with (Scheduler_stopped s) t (pool_of s) =
      goto t (fiber_view ((heap s)(a := Some f')) fr k a) (pool_of s)"
  shows "simulated t s"
proof (rule stay_simulated [OF step ok away k(1)])
  show "on_fiber ((heap s)(a := Some f')) fr k a"
    using away_idle [OF away pc] k(2) by (simp add: on_fiber_idle [OF pc])
  have "views (pool_of s) t = v" using away v by (simp add: thread_away_def)
  from abstract [OF this] show "pool_step_with (Scheduler_stopped s) t (pool_of s) = goto t (fiber_view ((heap s)(a := Some f')) fr k a)
      (enqueue (map (item_of ((heap s)(a := Some f'))) []) (pool_of s))" by (simp add: enqueue_def)
qed simp_all

lemma sim_entry:
  assumes ok: "pool_ok s" and away: "thread_away s t fr m mf a f" and k: "cpu (tls s t) = KEntry e"
  shows "simulated t s"
proof (cases "pc fr = PcBackIdle")
  case True
  note i = away_idle [OF away True] and h = away [unfolded thread_away_def]
  have f: "e = MainFunc" "m_state f = State_EXEC" "m_cb f = Some SchedulerIdle"
    using i(4) k by (auto simp: in_idle_def)
  have "thread_step scheduler_vt t s = Inr (s\<lparr>heap := (heap s)(a := Some f),
      tls := (tls s)(t := (tls s t)\<lparr>cpu := KBody MainFunc a SchedulerIdle\<rparr>), m_fibers := m_fibers s @ []\<rparr>)"
    using h k f by (simp add: step_defs fun_upd_idem cong: rbind_weak_cong)
  then show ?thesis
    by (rule idle_simulated [OF away True _ ok])
      (use f k True in \<open>auto simp: in_idle_def fiber_view_def pool_step_with_def\<close>)
next
  case False
  note i = away_program [OF away False] and h = away [unfolded thread_away_def]
  obtain p where f: "e = MainFunc" "m_state f = State_EXEC" "m_cb f = Some (Client p)" "tame p" "m_stack f"
    using i(2) k by (auto simp: in_program_def)
  have "thread_step scheduler_vt t s = Inr (s\<lparr>heap := (heap s)(a := Some f),
      tls := (tls s)(t := (tls s t)\<lparr>cpu := KBody MainFunc a (Client p)\<rparr>), m_fibers := m_fibers s @ []\<rparr>)"
    using h k f by (simp add: step_defs fun_upd_idem cong: rbind_weak_cong)
  then show ?thesis
    by (rule program_simulated [OF away False _ ok])
      (use f k False i(4) in \<open>auto simp: in_program_def fiber_view_def pool_step_with_def callback_program_def
         fun_upd_idem enqueue_def Let_def\<close>)
qed

lemma sim_body_program:
  assumes ok: "pool_ok s" and away: "thread_away s t fr m mf a f" and k: "cpu (tls s t) = KBody e c (Client p)"
  shows "simulated t s"
proof -
  note h = away [unfolded thread_away_def]
  have pc: "pc fr \<noteq> PcBackIdle"
    using away_idle(4) [OF away] k by (auto simp: in_idle_def)
  note i = away_program [OF away pc]
  have f: "e = MainFunc" "c = a" "m_state f = State_EXEC" "tame p" "m_stack f"
    using i(2) k by (auto simp: in_program_def)
  have v: "fiber_view (heap s) fr (cpu (tls s t)) a = Running p (idle_of (the (heap s (idleFiber fr))))"
    using k by (simp add: fiber_view_def)
  have d: "idleFiber fr \<noteq> a" using i(3) by simp
  note sim = program_simulated [OF away pc _ ok _ _ _ _ v]
  show ?thesis
  proof (cases p)
    case Nil
    have "thread_step scheduler_vt t s = Inr (s\<lparr>heap := (heap s)(a := Some (f\<lparr>m_cb := None, m_state := State_TERM\<rparr>)),
        tls := (tls s)(t := (tls s t)\<lparr>cpu := KEpilogue MainFunc a\<rparr>), m_fibers := m_fibers s @ []\<rparr>)"
      using h k f Nil by (simp add: step_defs cong: rbind_weak_cong)
    then show ?thesis
      by (rule sim) (use f pc in \<open>simp_all add: in_program_def fiber_view_def pool_step_with_def Nil enqueue_def d Let_def\<close>)
  next
    case (Cons x r)
    show ?thesis
    proof (cases x)
      case (OpThrow w)
      have "thread_step scheduler_vt t s = Inr (s\<lparr>heap := (heap s)(a := Some (f\<lparr>m_state := State_EXCEPT\<rparr>)),
          tls := (tls s)(t := (tls s t)\<lparr>cpu := KEpilogue MainFunc a\<rparr>), m_fibers := m_fibers s @ []\<rparr>)"
        using h k f Cons OpThrow by (simp add: step_defs cong: rbind_weak_cong)
      then show ?thesis
        by (rule sim) (use f pc in \<open>simp_all add: in_program_def fiber_view_def pool_step_with_def Cons OpThrow enqueue_def d Let_def\<close>)
    next
      case OpYieldToReady
      have "thread_step scheduler_vt t s = Inr (s\<lparr>heap := (heap s)(a := Some (f\<lparr>m_state := State_READY\<rparr>)),
          tls := (tls s)(t := (tls s t)\<lparr>cpu := KYield MainFunc a a (Client r)\<rparr>), m_fibers := m_fibers s @ []\<rparr>)"
        using h k f Cons OpYieldToReady by (simp add: step_defs cong: rbind_weak_cong)
      then show ?thesis
        by (rule sim) (use f pc in \<open>simp_all add: in_program_def fiber_view_def pool_step_with_def Cons OpYieldToReady enqueue_def d Let_def\<close>)
    next
      case OpYieldToHold
      have "thread_step scheduler_vt t s = Inr (s\<lparr>heap := (heap s)(a := Some (f\<lparr>m_state := State_HOLD\<rparr>)),
          tls := (tls s)(t := (tls s t)\<lparr>cpu := KYield MainFunc a a (Client r)\<rparr>), m_fibers := m_fibers s @ []\<rparr>)"
        using h k f Cons OpYieldToHold by (simp add: step_defs cong: rbind_weak_cong)
      then show ?thesis
        by (rule sim) (use f pc in \<open>simp_all add: in_program_def fiber_view_def pool_step_with_def Cons OpYieldToHold enqueue_def d Let_def\<close>)
    next
      case (OpScheduleCb q thr)
      have "thread_step scheduler_vt t s = Inr (s\<lparr>heap := (heap s)(a := Some f),
          tls := (tls s)(t := (tls s t)\<lparr>cpu := KBody MainFunc a (Client r)\<rparr>),
          m_fibers := m_fibers s @ [cb_task (Client q) thr]\<rparr>)"
        using h k f Cons OpScheduleCb by (simp add: step_defs fun_upd_idem cong: rbind_weak_cong)
      then show ?thesis
        by (rule sim) (use f pc Cons OpScheduleCb in \<open>simp_all add: in_program_def fiber_view_def pool_step_with_def d Let_def
          task_ok_def cb_task_def item_of_def callback_program_def tame_def\<close>)
    qed (use f Cons in simp_all)
  qed
qed

lemma sim_body_idle:
  assumes ok: "pool_ok s" and away: "thread_away s t fr m mf a f" and k: "cpu (tls s t) = KBody e c SchedulerIdle"
  shows "simulated t s"
proof -
  note h = away [unfolded thread_away_def]
  have pc: "pc fr = PcBackIdle" using away_program(2) [OF away] k by (auto simp: in_program_def)
  note i = away_idle [OF away pc]
  have f: "e = MainFunc" "c = a" "m_state f = State_EXEC" using i(4) k by (auto simp: in_idle_def)
  have v: "fiber_view (heap s) fr (cpu (tls s t)) a = IdleRun" using k by (simp add: fiber_view_def)
  have b: "thread_step scheduler_vt t s = Scheduler_idle Scheduler_stopped MainFunc a t s"
    using k f by (simp add: thread_step_def body_step_def scheduler_vt_def)
  show ?thesis
  proof (cases "Scheduler_stopped s")
    case True
    have "thread_step scheduler_vt t s = Inr (s\<lparr>heap := (heap s)(a := Some (f\<lparr>m_cb := None, m_state := State_TERM\<rparr>)),
        tls := (tls s)(t := (tls s t)\<lparr>cpu := KEpilogue MainFunc a\<rparr>), m_fibers := m_fibers s @ []\<rparr>)"
      using i(5) True
      by (simp add: b Scheduler_idle_def mainFunc_return_def set_cpu_def set_tls_def put_fiber_def fiber_at_def)
    then show ?thesis
      by (rule idle_simulated [OF away pc _ ok _ _ v])
        (use f pc True in \<open>simp_all add: in_idle_def fiber_view_def pool_step_with_def Let_def\<close>)
  next
    case False
    have "thread_step scheduler_vt t s = Inr (s\<lparr>heap := (heap s)(a := Some (f\<lparr>m_state := State_HOLD\<rparr>)),
        tls := (tls s)(t := (tls s t)\<lparr>cpu := KYield MainFunc a a SchedulerIdle\<rparr>), m_fibers := m_fibers s @ []\<rparr>)"
      using h False
      by (simp add: b Scheduler_idle_def yield_store_def getThis_def set_cpu_def set_tls_def put_fiber_def fiber_at_def)
    then show ?thesis
      by (rule idle_simulated [OF away pc _ ok _ _ v])
        (use f pc False in \<open>simp_all add: in_idle_def fiber_view_def pool_step_with_def Let_def\<close>)
  qed
qed

text \<open>The switch back to the thread's own stack.\<close>

lemma swap_out:
  assumes "thread_away s t fr m mf a f"
  shows "swapOut t a k s = Inr (s\<lparr>heap := (heap s)(a := Some (f\<lparr>m_ctx := CtxSaved (Heap a) k\<rparr>)),
    tls := (tls s)(t := (tls s t)\<lparr>t_fiber := Some m, cpu_stack := Native t, cpu := KRun None\<rparr>)\<rparr>)"
  using assms unfolding thread_away_def
  by (simp add: swapOut_def swapcontext_def Let_def setThis_def set_tls_def put_fiber_def fiber_at_def)

lemma out_simulated:
  assumes step: "thread_step scheduler_vt t s = swapOut t a k s" and ok: "pool_ok s"
    and away: "thread_away s t fr m mf a f"
    and home: "at_home ((heap s)(a := Some (f\<lparr>m_ctx := CtxSaved (Heap a) k\<rparr>))) fr"
    and idle: "idle_rests (idleFiber fr) (((heap s)(a := Some (f\<lparr>m_ctx := CtxSaved (Heap a) k\<rparr>))) (idleFiber fr))"
    and abstract: "pool_step_with (Scheduler_stopped s) t (pool_of s) =
      goto t (home_view ((heap s)(a := Some (f\<lparr>m_ctx := CtxSaved (Heap a) k\<rparr>))) fr) (pool_of s)"
  shows "simulated t s"
proof -
  note h = away [unfolded thread_away_def]
  let ?l = "(tls s t)\<lparr>t_fiber := Some m, cpu_stack := Native t, cpu := KRun None\<rparr>"
  let ?s' = "s\<lparr>heap := (heap s)(a := Some (f\<lparr>m_ctx := CtxSaved (Heap a) k\<rparr>)), tls := (tls s)(t := ?l)\<rparr>"
  have step': "thread_step scheduler_vt t s = Inr ?s'" using step swap_out [OF away] by simp
  have own: "owned ?l (Some fr) = m # idleFiber fr # cb_fibers fr @ task_fiber (ft fr)"
    using h by (simp add: owned_def)
  have thr: "thread_ok t (heap ?s') ?l (Some fr)" using h home idle by (simp add: thread_ok_def)
  have abs: "pool_step_with (Scheduler_stopped s) t (pool_of s) =
      goto t (view_of (heap ?s') ?l (Some fr)) (enqueue (map (item_of (heap ?s')) []) (pool_of s))"
    by (simp add: abstract view_of_def enqueue_def)
  show ?thesis
    by (rule simulated_local [OF step' ok _ _ _ _ _ _ _ _ _ _ _ _ _ _ thr own _ _ abs])
      (use h in \<open>auto simp: fun_upd_idem\<close>)
qed

lemma idle_out:
  assumes ok: "pool_ok s" and away: "thread_away s t fr m mf a f" and pc: "pc fr = PcBackIdle"
    and step: "thread_step scheduler_vt t s = swapOut t a k s"
    and f: "m_state f = State_HOLD \<and> k = KBody MainFunc a SchedulerIdle \<or> m_state f = State_TERM"
    and v: "fiber_view (heap s) fr (cpu (tls s t)) a = IdleSwitching (idle_of f)"
  shows "simulated t s"
proof (rule out_simulated [OF step ok away])
  note i = away_idle [OF away pc]
  have "views (pool_of s) t = IdleSwitching (idle_of f)" using away v by (simp add: thread_away_def)
  then show "pool_step_with (Scheduler_stopped s) t (pool_of s) =
      goto t (home_view ((heap s)(a := Some (f\<lparr>m_ctx := CtxSaved (Heap a) k\<rparr>))) fr) (pool_of s)"
    by (simp add: pool_step_with_def home_view_def pc i(1) idle_of_def)
  show "at_home ((heap s)(a := Some (f\<lparr>m_ctx := CtxSaved (Heap a) k\<rparr>))) fr"
    using i(1-3) pc f by (auto simp: at_home_def)
  show "idle_rests (idleFiber fr) (((heap s)(a := Some (f\<lparr>m_ctx := CtxSaved (Heap a) k\<rparr>))) (idleFiber fr))"
    using i(1) f by (auto simp: idle_rests_def)
qed

lemma program_out:
  assumes ok: "pool_ok s" and away: "thread_away s t fr m mf a f" and pc: "pc fr \<noteq> PcBackIdle"
    and step: "thread_step scheduler_vt t s = swapOut t a k s"
    and f: "back_fiber a (Some (f\<lparr>m_ctx := CtxSaved (Heap a) k\<rparr>))"
    and v: "fiber_view (heap s) fr (cpu (tls s t)) a =
      Switching (turn_of (f\<lparr>m_ctx := CtxSaved (Heap a) k\<rparr>)) (idle_of (the (heap s (idleFiber fr))))"
  shows "simulated t s"
proof (rule out_simulated [OF step ok away])
  note i = away_program [OF away pc]
  have "views (pool_of s) t = Switching (turn_of (f\<lparr>m_ctx := CtxSaved (Heap a) k\<rparr>)) (idle_of (the (heap s (idleFiber fr))))"
    using away v by (simp add: thread_away_def)
  then show "pool_step_with (Scheduler_stopped s) t (pool_of s) =
      goto t (home_view ((heap s)(a := Some (f\<lparr>m_ctx := CtxSaved (Heap a) k\<rparr>))) fr) (pool_of s)"
    using i(1) i(3) [symmetric] by (auto simp: pool_step_with_def home_view_def on_work_def Let_def)
  show "at_home ((heap s)(a := Some (f\<lparr>m_ctx := CtxSaved (Heap a) k\<rparr>))) fr"
    using i(5) [of "f\<lparr>m_ctx := CtxSaved (Heap a) k\<rparr>"] f by (auto simp: at_home_def on_work_def)
  show "idle_rests (idleFiber fr) (((heap s)(a := Some (f\<lparr>m_ctx := CtxSaved (Heap a) k\<rparr>))) (idleFiber fr))"
    using i(5) by (simp add: on_work_def)
qed

lemma sim_out:
  assumes ok: "pool_ok s" and away: "thread_away s t fr m mf a f"
    and k: "(\<exists>e c b cb. cpu (tls s t) = KYield e c b cb) \<or> (\<exists>e c. cpu (tls s t) = KEpilogue e c)"
  shows "simulated t s"
proof (cases "pc fr = PcBackIdle")
  case True
  from away_idle(4) [OF away True] k consider
      "cpu (tls s t) = KYield MainFunc a a SchedulerIdle" "m_state f = State_HOLD"
    | "cpu (tls s t) = KEpilogue MainFunc a" "m_state f = State_TERM"
    by (auto simp: in_idle_def)
  then show ?thesis
  proof cases
    case 1
    then have "thread_step scheduler_vt t s = swapOut t a (KBody MainFunc a SchedulerIdle) s"
      by (simp add: thread_step_def)
    then show ?thesis
      by (rule idle_out [OF ok away True]) (use 1 in \<open>simp_all add: fiber_view_def idle_of_def\<close>)
  next
    case 2
    then have "thread_step scheduler_vt t s = swapOut t a (KNever a) s"
      by (simp add: thread_step_def mainFunc_leave_def)
    then show ?thesis
      by (rule idle_out [OF ok away True]) (use 2 True in \<open>simp_all add: fiber_view_def idle_of_def\<close>)
  qed
next
  case False
  from away_program(2) [OF away False] k consider
      p where "cpu (tls s t) = KYield MainFunc a a (Client p)" "m_state f \<in> {State_READY, State_HOLD}" "tame p" "m_stack f"
    | "cpu (tls s t) = KEpilogue MainFunc a" "m_state f \<in> {State_TERM, State_EXCEPT}" "m_stack f"
    by (auto simp: in_program_def)
  then show ?thesis
  proof cases
    case 1
    then have "thread_step scheduler_vt t s = swapOut t a (KBody MainFunc a (Client p)) s"
      by (simp add: thread_step_def)
    then show ?thesis
      by (rule program_out [OF ok away False])
        (use 1 away_program(4) [OF away False] in
          \<open>auto simp: fiber_view_def turn_of_def rest_of_def back_fiber_def ready_fiber_def\<close>)
  next
    case 2
    then have "thread_step scheduler_vt t s = swapOut t a (KNever a) s"
      by (simp add: thread_step_def mainFunc_leave_def)
    then show ?thesis
      by (rule program_out [OF ok away False])
        (use 2 False in \<open>auto simp: fiber_view_def turn_of_def back_fiber_def\<close>)
  qed
qed

subsection \<open>After the switch back\<close>

text \<open>A step on the thread's own stack that changes at most the object \<open>a\<close>.\<close>

lemma home_simulated:
  assumes home: "thread_home s t fr m mf fi" and ok: "pool_ok s"
    and step: "thread_step scheduler_vt t s = Inr (s\<lparr>heap := (heap s)(a := g), frames := (frames s)(t := Some fr'),
      m_fibers := m_fibers s @ new, m_activeThreadCount := na, m_idleThreadCount := ni\<rparr>)"
    and a: "a \<in> set (idleFiber fr # cb_fibers fr @ task_fiber (ft fr))"
    and fr': "pc fr' \<noteq> PcEnter" "idleFiber fr' = idleFiber fr"
      "set (cb_fibers fr' @ task_fiber (ft fr') @ task_fibers new) \<subseteq> set (cb_fibers fr @ task_fiber (ft fr))"
      "distinct (cb_fibers fr' @ task_fiber (ft fr') @ task_fibers new)"
    and rest: "at_home ((heap s)(a := g)) fr'" "idle_rests (idleFiber fr) (((heap s)(a := g)) (idleFiber fr))"
    and new: "\<And>x. x \<in> set new \<Longrightarrow> task_ok ((heap s)(a := g)) x"
    and v: "home_view (heap s) fr = v"
    and abstract: "\<And>P. views P t = v \<Longrightarrow> pool_step_with (Scheduler_stopped s) t P =
      goto t (home_view ((heap s)(a := g)) fr') (enqueue (map (item_of ((heap s)(a := g))) new) P)"
  shows "simulated t s"
proof -
  note h = home [unfolded thread_home_def]
  let ?s' = "s\<lparr>heap := (heap s)(a := g), frames := (frames s)(t := Some fr'),
      m_fibers := m_fibers s @ new, m_activeThreadCount := na, m_idleThreadCount := ni\<rparr>"
  have own: "owned (tls s t) (Some fr') = m # idleFiber fr # cb_fibers fr' @ task_fiber (ft fr')"
    using h fr' by (simp add: owned_def)
  have d: "distinct (m # idleFiber fr # cb_fibers fr @ task_fiber (ft fr))" using h by (simp add: Int_Un_distrib)
  have am: "a \<noteq> m" using a d by auto
  have thr: "thread_ok t (heap ?s') (tls s t) (Some fr')"
    using h rest fr'(1,2) am by (simp add: thread_ok_def)
  have "views (pool_of s) t = v" using h v by simp
  from abstract [OF this] have abs: "pool_step_with (Scheduler_stopped s) t (pool_of s) =
      goto t (view_of (heap ?s') (tls s t) (Some fr')) (enqueue (map (item_of (heap ?s')) new) (pool_of s))"
    using h by (simp add: view_of_def)
  have o: "distinct ((m # idleFiber fr # cb_fibers fr' @ task_fiber (ft fr')) @ task_fibers new)"
    "set ((m # idleFiber fr # cb_fibers fr' @ task_fiber (ft fr')) @ task_fibers new)
      \<subseteq> set (m # idleFiber fr # cb_fibers fr @ task_fiber (ft fr))"
    using fr'(3,4) d by auto
  have new': "task_ok (heap ?s') x" if "x \<in> set new" for x using new [OF that] by simp
  have a': "a \<in> set (m # idleFiber fr # cb_fibers fr @ task_fiber (ft fr))" using a by simp
  have q: "distinct ((m # idleFiber fr # cb_fibers fr @ task_fiber (ft fr)) @ task_fibers (m_fibers s))"
    using h by simp
  show ?thesis
    by (rule simulated_local [OF step ok _ _ _ _ _ _ _ _ _ new' _ _ q _ thr own o(2,1) abs])
      (use h a' in \<open>auto simp: fun_upd_idem\<close>)
qed

lemma sim_back:
  assumes ok: "pool_ok s" and home: "thread_home s t fr m mf fi" and pc: "pc fr = PcBackFiber \<or> pc fr = PcBackCb"
  shows "simulated t s"
proof -
  note h = home [unfolded thread_home_def]
  have i: "idle_rests (idleFiber fr) (heap s (idleFiber fr))" "heap s (idleFiber fr) = Some fi"
    "at_home (heap s) fr" "distinct (cb_fibers fr @ task_fiber (ft fr))" using h by auto
  define fr' where "fr' = fr\<lparr>pc := (if pc fr = PcBackFiber then PcRequeueFiber else PcRequeueCb)\<rparr>"
  have step: "thread_step scheduler_vt t s = Inr (s\<lparr>heap := (heap s)(idleFiber fr := Some fi),
      frames := (frames s)(t := Some fr'), m_fibers := m_fibers s @ [],
      m_activeThreadCount := m_activeThreadCount s - 1, m_idleThreadCount := m_idleThreadCount s\<rparr>)"
    using h pc by (auto simp: thread_step_def run_step_def run_back_def frame_of_def set_frame_def fr'_def fun_upd_idem)
  show ?thesis
    by (rule home_simulated [OF home ok step])
      (use i pc in \<open>auto simp: fr'_def cb_fibers_def at_home_def home_view_def pool_step_with_def fun_upd_idem enqueue_def Let_def\<close>)
qed

lemma sim_requeue_fiber:
  assumes ok: "pool_ok s" and home: "thread_home s t fr m mf fi" and pc: "pc fr = PcRequeueFiber"
  shows "simulated t s"
proof -
  note h = home [unfolded thread_home_def]
  have ah: "at_home (heap s) fr" and i: "idle_rests (idleFiber fr) (heap s (idleFiber fr))"
    and d: "distinct (idleFiber fr # cb_fibers fr @ task_fiber (ft fr))" and t: "frames s t = Some fr" "cpu (tls s t) = KRun None"
    using h by auto
  from ah pc obtain a where a: "ft_fiber (ft fr) = Some a" "back_fiber a (heap s a)"
    and cb: "\<forall>c. cbFiber fr = Some c \<longrightarrow> kept_fiber (heap s c)" by (auto simp: at_home_def)
  from a(2) obtain f where f: "heap s a = Some f" by (auto simp: back_fiber_def ready_fiber_def)
  have ne: "a \<noteq> idleFiber fr" "\<forall>c. cbFiber fr = Some c \<longrightarrow> c \<noteq> a"
    using d a(1) by (auto simp: cb_fibers_def task_fiber_def)
  define fr' where "fr' = fr\<lparr>ft := empty_task, pc := PcLoop\<rparr>"
  have v: "home_view (heap s) fr = Requeueing (turn_of f) (idle_of (the (heap s (idleFiber fr))))"
    using pc a(1) f by (simp add: home_view_def)
  have e: "task_fiber empty_task = []" "ft_fiber empty_task = None" by (simp_all add: task_fiber_def empty_task_def)
  define new where "new = (if m_state f = State_READY then [fiber_task a (-1)] else [])"
  have step: "thread_step scheduler_vt t s = Inr (s\<lparr>heap := (heap s)(a := Some f),
      frames := (frames s)(t := Some fr'), m_fibers := m_fibers s @ new,
      m_activeThreadCount := m_activeThreadCount s, m_idleThreadCount := m_idleThreadCount s\<rparr>)"
    using t pc a(1,2) f
    by (auto simp: step_defs fr'_def new_def fun_upd_idem back_fiber_def ready_fiber_def cong: rbind_weak_cong)
  have tf: "task_fibers new = (if m_state f = State_READY then [a] else [])"
    by (simp add: new_def fiber_task_def)
  show ?thesis
    by (rule home_simulated [OF home ok step _ _ _ _ _ _ _ _ v])
      (use a f cb ne i pc d in \<open>auto simp: fr'_def e tf at_home_def cb_fibers_def home_view_def pool_step_with_def task_fiber_def
         new_def turn_of_def fun_upd_idem item_of_def fiber_task_def task_ok_def back_fiber_def enqueue_def
         split: fiber_state.split\<close>)
qed


lemma sim_requeue_cb:
  assumes ok: "pool_ok s" and home: "thread_home s t fr m mf fi" and pc: "pc fr = PcRequeueCb"
  shows "simulated t s"
proof -
  note h = home [unfolded thread_home_def]
  have ah: "at_home (heap s) fr" and i: "idle_rests (idleFiber fr) (heap s (idleFiber fr))"
    and d: "distinct (idleFiber fr # cb_fibers fr)" and t: "frames s t = Some fr" "cpu (tls s t) = KRun None"
    using h by auto
  from ah pc obtain c where c: "cbFiber fr = Some c" "back_fiber c (heap s c)" "ft fr = empty_task"
    by (auto simp: at_home_def)
  from c(2) obtain f where f: "heap s c = Some f" by (auto simp: back_fiber_def ready_fiber_def)
  have ne: "c \<noteq> idleFiber fr" using d c(1) by (auto simp: cb_fibers_def)
  have v: "home_view (heap s) fr = Requeueing (turn_of f) (idle_of (the (heap s (idleFiber fr))))"
    using pc c(1) f by (simp add: home_view_def)
  have e: "task_fiber empty_task = []" "ft_fiber empty_task = None" by (simp_all add: task_fiber_def empty_task_def)
  consider "m_state f = State_READY" "ready_fiber c (heap s c)"
    | "m_state f = State_TERM \<or> m_state f = State_EXCEPT" "m_stack f" | "m_state f = State_HOLD"
    using c(2) f by (auto simp: back_fiber_def ready_fiber_def)
  then show ?thesis
  proof cases
    case 1
    have step: "thread_step scheduler_vt t s = Inr (s\<lparr>heap := (heap s)(c := Some f),
        frames := (frames s)(t := Some (fr\<lparr>cbFiber := None, pc := PcLoop\<rparr>)), m_fibers := m_fibers s @ [fiber_task c (-1)],
        m_activeThreadCount := m_activeThreadCount s, m_idleThreadCount := m_idleThreadCount s\<rparr>)"
      using t pc c f 1(1) by (simp add: step_defs fun_upd_idem cong: rbind_weak_cong)
    show ?thesis
      by (rule home_simulated [OF home ok step _ _ _ _ _ _ _ _ v])
        (use c f ne i pc 1 in \<open>auto simp: e at_home_def cb_fibers_def home_view_def pool_step_with_def fun_upd_idem
           turn_of_def item_of_def fiber_task_def task_ok_def\<close>)
  next
    case 2
    define g where "g = f\<lparr>m_cb := None, m_ctx := CtxEntry MainFunc, m_state := State_INIT\<rparr>"
    have step: "thread_step scheduler_vt t s = Inr (s\<lparr>heap := (heap s)(c := Some g),
        frames := (frames s)(t := Some (fr\<lparr>cbFiber := Some c, pc := PcLoop\<rparr>)), m_fibers := m_fibers s @ [],
        m_activeThreadCount := m_activeThreadCount s, m_idleThreadCount := m_idleThreadCount s\<rparr>)"
      using t pc c f 2 by (auto simp: step_defs g_def cong: rbind_weak_cong)
    have "turn_of f = Over" using 2(1) by (auto simp: turn_of_def)
    with ne show ?thesis
      by (intro home_simulated [OF home ok step _ _ _ _ _ _ _ _ v])
        (use c f i pc 2 in \<open>auto simp: e at_home_def cb_fibers_def home_view_def pool_step_with_def g_def kept_fiber_def enqueue_def\<close>)
  next
    case 3
    have step: "thread_step scheduler_vt t s = Inr (s\<lparr>heap := (heap s)(c := Some f),
        frames := (frames s)(t := Some (fr\<lparr>cbFiber := None, pc := PcLoop\<rparr>)), m_fibers := m_fibers s @ [],
        m_activeThreadCount := m_activeThreadCount s, m_idleThreadCount := m_idleThreadCount s\<rparr>)"
      using t pc c f 3 by (simp add: step_defs fun_upd_idem cong: rbind_weak_cong)
    have "turn_of f = Held" using 3 by (simp add: turn_of_def)
    with ne show ?thesis
      by (intro home_simulated [OF home ok step _ _ _ _ _ _ _ _ v])
        (use c f i pc in \<open>auto simp: e at_home_def cb_fibers_def home_view_def pool_step_with_def fun_upd_idem enqueue_def\<close>)
  qed
qed

lemma sim_back_idle:
  assumes ok: "pool_ok s" and home: "thread_home s t fr m mf fi" and pc: "pc fr = PcBackIdle"
  shows "simulated t s"
proof -
  note h = home [unfolded thread_home_def]
  have ah: "at_home (heap s) fr" and i: "idle_rests (idleFiber fr) (heap s (idleFiber fr))" "heap s (idleFiber fr) = Some fi"
    and t: "frames s t = Some fr" "cpu (tls s t) = KRun None" and d: "distinct (idleFiber fr # cb_fibers fr)" using h by auto
  from ah pc have ft: "ft fr = empty_task" and cb: "\<forall>c. cbFiber fr = Some c \<longrightarrow> kept_fiber (heap s c)"
    by (auto simp: at_home_def)
  define g where "g = (if m_state fi = State_TERM then fi else fi\<lparr>m_state := State_HOLD\<rparr>)"
  have step: "thread_step scheduler_vt t s = Inr (s\<lparr>heap := (heap s)(idleFiber fr := Some g),
      frames := (frames s)(t := Some (fr\<lparr>pc := PcLoop\<rparr>)), m_fibers := m_fibers s @ [],
      m_activeThreadCount := m_activeThreadCount s, m_idleThreadCount := m_idleThreadCount s - 1\<rparr>)"
    using t pc i by (auto simp: step_defs g_def fun_upd_idem idle_rests_def cong: rbind_weak_cong)
  have g: "m_state fi \<noteq> State_INIT" "idle_rests (idleFiber fr) (Some g)" "idle_of g = idle_of fi"
    using ah pc i by (auto simp: at_home_def g_def idle_rests_def idle_of_def)
  have v: "home_view (heap s) fr = IdleBack (idle_of fi)" using pc i by (simp add: home_view_def)
  show ?thesis
    by (rule home_simulated [OF home ok step _ _ _ _ _ _ _ _ v])
      (use g ft cb pc d in \<open>auto simp: at_home_def cb_fibers_def home_view_def pool_step_with_def enqueue_def
         task_fiber_def empty_task_def\<close>)
qed

lemma sim_return:
  assumes ok: "pool_ok s" and home: "thread_home s t fr m mf fi" and pc: "pc fr = PcReturn"
  shows "simulated t s"
proof -
  note h = home [unfolded thread_home_def]
  let ?l = "(tls s t)\<lparr>cpu := KExit\<rparr>"
  let ?s' = "s\<lparr>frames := (frames s)(t := None), tls := (tls s)(t := ?l)\<rparr>"
  have step: "thread_step scheduler_vt t s = Inr ?s'"
    using h pc by (simp add: thread_step_def run_step_def run_return_def set_cpu_def set_tls_def)
  have own: "owned ?l None = []" by (simp add: owned_def)
  have thr: "thread_ok t (heap ?s') ?l None" using h by (simp add: thread_ok_def outside_def)
  have "views (pool_of s) t = Leaving" using h pc by (simp add: home_view_def)
  then have abs: "pool_step_with (Scheduler_stopped s) t (pool_of s) =
      goto t (view_of (heap ?s') ?l None) (enqueue (map (item_of (heap ?s')) []) (pool_of s))"
    by (simp add: pool_step_with_def view_of_def enqueue_def)
  have q: "distinct ((m # idleFiber fr # cb_fibers fr @ task_fiber (ft fr)) @ task_fibers (m_fibers s))"
    using h by simp
  show ?thesis
    by (rule simulated_local [OF step ok _ _ _ _ _ _ _ _ _ _ _ _ q _ thr own _ _ abs])
      (use h in auto)
qed

subsection \<open>Every step\<close>

text \<open>The two readings of \<open>stopped()\<close>.\<close>

lemma working_view:
  assumes "thread_ok t h l (Some fr)"
  shows "working (view_of h l (Some fr)) \<longleftrightarrow> active_pc (pc fr)"
proof (cases "cpu l = KRun None")
  case True
  then show ?thesis by (cases "pc fr") (auto simp: view_of_def home_view_def active_pc_def Let_def)
next
  case False
  with assms obtain a where a: "t_fiber l = Some a" "on_fiber h fr (cpu l) a"
    by (auto simp: thread_ok_def init_tls_def split: if_splits)
  show ?thesis
  proof (cases "pc fr = PcBackIdle")
    case True
    with a(2) have "\<exists>f. in_idle (cpu l) a f" by (auto simp: on_fiber_idle)
    with True False a(1) show ?thesis
      by (auto simp: in_idle_def view_of_def fiber_view_def active_pc_def Let_def)
  next
    case pc: False
    with a(2) have "\<exists>f. in_program (cpu l) a f" "on_work h fr a" by (auto simp: on_fiber_program)
    with pc False a(1) show ?thesis
      by (auto simp: in_program_def on_work_def view_of_def fiber_view_def active_pc_def Let_def)
  qed
qed

lemma stopped_pool:
  assumes "pool_ok s" and "counters_ok s" and "card (dom (frames s)) < 2 ^ 64"
  shows "Scheduler_stopped s \<longleftrightarrow> pool_stopped (pool_of s)"
proof -
  have "working (views (pool_of s) t) \<longleftrightarrow> (\<exists>fr. frames s t = Some fr \<and> active_pc (pc fr))" for t
    using working_view pool_okD(4) [OF assms(1), of t]
    by (cases "frames s t") (auto simp: pool_of_def view_of_def [of _ _ None])
  with counters_exact [OF assms(2,3)] show ?thesis by (auto simp: pool_stopped_def pool_of_def)
qed

lemma pool_simulated:
  assumes ok: "pool_ok s"
  shows "simulated t s"
proof (cases "frames s t")
  case None
  with ok show ?thesis by (rule sim_outside)
next
  case (Some fr)
  show ?thesis
  proof (cases "pc fr = PcEnter")
    case True
    with ok Some show ?thesis by (rule sim_enter)
  next
    case False
    from thread_cases [OF ok Some False] show ?thesis
    proof cases
      case (1 m mf fi)
      show ?thesis
      proof (cases "pc fr")
        case (PcDispatch n found)
        show ?thesis
        proof (cases found)
          case True
          with PcDispatch 1 ok show ?thesis
            by (cases "ft_fiber (ft fr)") (auto intro: sim_dispatch_callback sim_dispatch_fiber)
        qed (use PcDispatch 1 ok in \<open>auto intro: sim_dispatch_none\<close>)
      qed (use 1 ok False in \<open>auto intro: sim_search sim_back sim_requeue_fiber sim_requeue_cb sim_back_idle sim_return\<close>)
    next
      case (2 m mf a f)
      consider e where "cpu (tls s t) = KEntry e" | e c p where "cpu (tls s t) = KBody e c (Client p)"
        | e c where "cpu (tls s t) = KBody e c SchedulerIdle"
        | "(\<exists>e c b cb. cpu (tls s t) = KYield e c b cb) \<or> (\<exists>e c. cpu (tls s t) = KEpilogue e c)"
        using thread_awayD(1) [OF 2] unfolding on_fiber_def in_idle_def in_program_def by blast
      then show ?thesis
        using sim_entry [OF ok 2] sim_body_program [OF ok 2] sim_body_idle [OF ok 2] sim_out [OF ok 2]
        by cases blast+
    qed
  qed
qed

end
