(* ===== verification/PoolRuns.thy ===== *)
theory PoolRuns
  imports PoolSteps
begin

section \<open>Every run of a pool\<close>

text \<open>
  The operations of the threads outside the pool keep the invariant too, so it holds in every
  reachable state as long as the clients are tame. What it gives: no step of a thread fails, no two
  threads are on the same stack, each step is one of the abstract pool, and after \<open>stop\<close> every
  fair schedule executes all the work and lets \<open>stop\<close> return.
\<close>

subsection \<open>Operations from outside\<close>

definition tame_task :: "task \<Rightarrow> bool" where
  "tame_task x \<longleftrightarrow> (\<exists>p thr. x = cb_task (Client p) thr \<and> tame p)"

definition free_task :: "task \<Rightarrow> bool" where
  "free_task x \<longleftrightarrow> (\<exists>p. x = cb_task (Client p) (-1) \<and> tame p \<and> unpinned p)"

lemma free_tame: "free_task x \<Longrightarrow> tame_task x"
  by (auto simp: free_task_def tame_task_def)

lemma outside_thread:
  assumes "pool_ok s" and "cpu (tls s t) = KOutside"
  shows "frames s t = None" "\<not> t_scheduler (tls s t)" "cpu_stack (tls s t) = Native t"
proof -
  have ok: "thread_ok t (heap s) (tls s t) (frames s t)" using pool_okD(4) [OF assms(1)] .
  have "\<not> on_fiber h fr KOutside a" for h fr a by (auto simp: on_fiber_def in_idle_def in_program_def)
  with ok assms(2) show "frames s t = None"
    by (cases "frames s t") (auto simp: thread_ok_def split: if_splits)
  with ok assms(2) show "\<not> t_scheduler (tls s t)" "cpu_stack (tls s t) = Native t"
    by (auto simp: thread_ok_def outside_def)
qed

lemma pool_schedule:
  assumes ok: "pool_ok s" and x: "tame_task x" and step: "schedule scheduler_vt x s = Inr s'"
  shows "s' = s\<lparr>m_fibers := m_fibers s @ [x]\<rparr>" "pool_ok s'" "pool_of s' = enqueue [item_of (heap s) x] (pool_of s)"
proof -
  show s': "s' = s\<lparr>m_fibers := m_fibers s @ [x]\<rparr>"
    using step x by (auto simp: schedule_def scheduleNoLock_def scheduler_vt_def Scheduler_notify_def
        tame_task_def cb_task_def split: if_splits)
  have "task_fibers [x] = []" "task_ok (heap s) x" using x by (auto simp: tame_task_def cb_task_def task_ok_def)
  with ok show "pool_ok s'" unfolding pool_ok_def s' by auto
  show "pool_of s' = enqueue [item_of (heap s) x] (pool_of s)" by (simp add: s' pool_of_def enqueue_def)
qed

lemma pool_start_thread:
  assumes ok: "pool_ok s" and u: "u \<noteq> -1" "frames s u = None"
  shows "pool_ok (start_thread i u s) \<and> pool_of (start_thread i u s) = goto u Entering (pool_of s)"
proof -
  let ?l = "(init_tls u)\<lparr>cpu := KRun None\<rparr>"
  let ?s' = "start_thread i u s"
  have s': "tls ?s' = (tls s)(u := ?l)" "frames ?s' = (frames s)(u := Some new_frame)" "heap ?s' = heap s"
    "m_fibers ?s' = m_fibers s" "brk ?s' = brk s" "m_rootThread ?s' = m_rootThread s" "m_rootFiber ?s' = m_rootFiber s"
    "m_autoStop ?s' = m_autoStop s" "m_isRunning ?s' = m_isRunning s"
    by (simp_all add: start_thread_def Let_def set_tls_def)
  have own: "owned ?l (Some new_frame) = []" by (simp add: owned_def new_frame_def)
  have thr: "thread_ok u (heap ?s') ?l (Some new_frame)" by (simp add: thread_ok_def new_frame_def)
  have "pool_ok ?s' \<and> (\<forall>x \<in> set (m_fibers s). item_of (heap ?s') x = item_of (heap s) x) \<and>
      views (pool_of ?s') = (views (pool_of s))(u := view_of (heap ?s') ?l (Some new_frame))"
    by (rule pool_ok_step [OF ok s'(1,2) _ _ _ _ _ thr])
      (use u own s' pool_okD(6) [OF ok, of u] in auto)
  then show ?thesis
    by (auto simp: view_of_def home_view_def new_frame_def s' pool_of_def intro!: pool.equality)
qed

lemma pool_start_threads:
  "pool_ok s \<Longrightarrow> distinct us \<Longrightarrow> \<forall>u \<in> set us. u \<noteq> -1 \<and> frames s u = None \<Longrightarrow>
   pool_ok (start_threads i us s) \<and>
   pool_of (start_threads i us s) =
     (pool_of s)\<lparr>views := (\<lambda>t. if t \<in> set us then Entering else views (pool_of s) t)\<rparr>"
proof (induction us arbitrary: i s)
  case (Cons u us)
  from Cons.prems have 1: "pool_ok (start_thread i u s)" "pool_of (start_thread i u s) = goto u Entering (pool_of s)"
    using pool_start_thread [of s u i] by auto
  have "\<forall>v \<in> set us. v \<noteq> -1 \<and> frames (start_thread i u s) v = None"
    using Cons.prems by (auto simp: start_thread_def Let_def set_tls_def)
  with Cons.IH [OF 1(1), of "Suc i"] Cons.prems(2) show ?case
    by (auto simp: 1(2) goto_def fun_eq_iff)
qed simp

text \<open>What \<open>stop\<close> leaves behind when its caller is not a thread of the pool.\<close>

definition stopping_state :: "tid \<Rightarrow> sys \<Rightarrow> sys" where
  "stopping_state t s = s\<lparr>m_autoStop := True, m_isRunning := False,
     tls := (tls s)(t := (tls s t)\<lparr>cpu := KStopSwap\<rparr>)\<rparr>"

lemma notify_times_scheduler: "notify_times scheduler_vt n s = Inr s"
  by (induction n) (simp_all add: scheduler_vt_def Scheduler_notify_def)

lemma pool_stop:
  assumes ok: "pool_ok s" and t: "cpu (tls s t) = KOutside"
  shows "stop scheduler_vt t s = Inr (stopping_state t s)" and "pool_ok (stopping_state t s)"
    and "pool_of (stopping_state t s) = (pool_of s)\<lparr>stopping := True\<rparr>"
proof -
  let ?s' = "stopping_state t s" and ?l = "(tls s t)\<lparr>cpu := KStopSwap\<rparr>"
  note o = outside_thread [OF ok t]
  show "stop scheduler_vt t s = Inr ?s'"
    using pool_okD(1,2) [OF ok] o(2)
    by (simp add: stop_def stop_early_def stop_late_def set_cpu_def set_tls_def stopping_state_def
        notify_times_scheduler Let_def)
  have s': "tls ?s' = (tls s)(t := ?l)" "frames ?s' = (frames s)(t := None)" "heap ?s' = heap s"
    "m_fibers ?s' = m_fibers s" "brk ?s' = brk s" "m_rootThread ?s' = m_rootThread s" "m_rootFiber ?s' = m_rootFiber s"
    using o(1) by (simp_all add: stopping_state_def fun_upd_idem)
  have own: "owned ?l None = []" by (simp add: owned_def)
  have thr: "thread_ok t (heap ?s') ?l None" using o by (simp add: thread_ok_def outside_def)
  have "pool_ok ?s' \<and> (\<forall>x \<in> set (m_fibers s). item_of (heap ?s') x = item_of (heap s) x) \<and>
      views (pool_of ?s') = (views (pool_of s))(t := view_of (heap ?s') ?l None)"
    by (rule pool_ok_step [OF ok s'(1,2) _ _ _ _ _ thr]) (use own s' pool_okD(6) [OF ok, of t] in auto)
  moreover have "views (pool_of s) t = Gone" using o(1) by (simp add: pool_of_def view_of_def)
  ultimately show "pool_ok ?s'" "pool_of ?s' = (pool_of s)\<lparr>stopping := True\<rparr>"
    by (auto simp: view_of_def fun_upd_idem s' pool_of_def stopping_state_def intro!: pool.equality)
qed

subsection \<open>The invariant of every reachable state\<close>

text \<open>A thread that \<open>stop\<close> waits for is in \<open>run\<close> or has ended.\<close>

definition joinable :: "sys \<Rightarrow> tid \<Rightarrow> bool" where
  "joinable s u \<longleftrightarrow> frames s u \<noteq> None \<or> cpu (tls s u) = KExit"

text \<open>Before \<open>stop\<close> no idle fiber ends.\<close>

fun lively :: "view \<Rightarrow> bool" where
  "lively (Looping d) = (d \<noteq> Finished)"
| "lively (Taking x d) = (d \<noteq> Finished)"
| "lively (NotFound d) = (d \<noteq> Finished)"
| "lively (Starting p d) = (d \<noteq> Finished)"
| "lively (Running p d) = (d \<noteq> Finished)"
| "lively (Switching e d) = (d \<noteq> Finished)"
| "lively (Back e d) = (d \<noteq> Finished)"
| "lively (Requeueing e d) = (d \<noteq> Finished)"
| "lively (IdleSwitching d) = (d \<noteq> Finished)"
| "lively (IdleBack d) = (d \<noteq> Finished)"
| "lively Leaving = False"
| "lively _ = True"

lemma run_op_lively: "d \<noteq> Finished \<Longrightarrow> lively (fst (run_op p d))"
  by (induction p d rule: run_op.induct) simp_all

lemma pool_step_lively:
  assumes "\<forall>u. lively (views P u)"
  shows "\<forall>u. lively (views (pool_step_with False t P) u)"
proof
  fix u
  have "lively (views P t)" using assms by blast
  then have "lively (views (pool_step_with False t P) t)"
    using run_op_lively
    by (cases "views P t") (auto simp: pool_step_with_def split: option.split prod.split item.split idle_fiber.split,
        metis fst_conv)
  with assms show "lively (views (pool_step_with False t P) u)"
    by (cases "u = t") (simp_all add: pool_step_with_other)
qed

definition pool_inv :: "sys \<Rightarrow> bool" where
  "pool_inv s \<longleftrightarrow> pool_ok s \<and> (\<not> m_autoStop s \<longrightarrow> (\<forall>t. lively (views (pool_of s) t))) \<and>
     (\<forall>u \<in> snd ` set (m_threads s). joinable s u) \<and>
     (\<forall>t us. cpu (tls s t) = KJoin us \<longrightarrow> (\<forall>u \<in> set us. joinable s u))"

lemma outside_step:
  assumes "pool_ok s" and "frames s t = None" and "thread_step scheduler_vt t s = Inr s'"
  shows "(m_threads s' = m_threads s \<or> m_threads s' = []) \<and>
    (cpu (tls s t) = KExit \<longrightarrow> s' = s) \<and> (cpu (tls s t) = KOutside \<longrightarrow> s' = s) \<and>
    (\<forall>us. cpu (tls s' t) = KJoin us \<longrightarrow> cpu (tls s t) = KStopSwap \<and> us = map snd (m_threads s) \<or>
       (\<exists>vs. cpu (tls s t) = KJoin vs \<and> set us \<subseteq> set vs))"
proof -
  have "outside t (tls s t)" using pool_okD(4) [OF assms(1), of t] assms(2) by (simp add: thread_ok_def)
  then consider "cpu (tls s t) = KExit" | "cpu (tls s t) = KOutside" | "cpu (tls s t) = KStopSwap"
    | us where "cpu (tls s t) = KJoin us" by (auto simp: outside_def)
  then show ?thesis
    using assms(3)
    by cases (auto simp: thread_step_def stop_swap_def set_cpu_def set_tls_def stop_join_def
        split: list.splits if_splits option.splits)
qed

lemma pool_inv_step:
  assumes inv: "pool_inv s" and step: "thread_step scheduler_vt t s = Inr s'"
  shows "pool_inv s' \<and> (\<forall>u. joinable s u \<longrightarrow> joinable s' u)"
proof -
  have ok: "pool_ok s" using inv by (simp add: pool_inv_def)
  from pool_simulated [OF ok, of t] step obtain l' fro' where ok': "pool_ok s'"
    and P: "pool_of s' = pool_step_with (Scheduler_stopped s) t (pool_of s)"
    and st: "tls s' = (tls s)(t := l')" "frames s' = (frames s)(t := fro')"
    and flags: "m_autoStop s' = m_autoStop s"
    and out: "frames s t = None \<longrightarrow> fro' = None"
    and leave: "frames s t \<noteq> None \<longrightarrow> m_threads s' = m_threads s \<and> (fro' = None \<longrightarrow> cpu l' = KExit)"
    by (auto simp: simulated_def)
  have join: "joinable s' u" if "joinable s u" for u
  proof (cases "u = t")
    case True
    show ?thesis
    proof (cases "frames s t")
      case None
      with that True have "cpu (tls s t) = KExit" by (simp add: joinable_def)
      with outside_step [OF ok None step] that show ?thesis by simp
    qed (use leave st True in \<open>auto simp: joinable_def\<close>)
  qed (use that st in \<open>simp add: joinable_def\<close>)
  have "lively (views (pool_of s') u)" if "\<not> m_autoStop s'" for u
  proof -
    have "\<not> Scheduler_stopped s" using that flags by (simp add: Scheduler_stopped_def)
    with pool_step_lively [of "pool_of s" t] inv that flags show ?thesis by (simp add: P pool_inv_def)
  qed
  moreover have "joinable s' u" if "u \<in> snd ` set (m_threads s')" for u
  proof -
    have "m_threads s' = m_threads s \<or> m_threads s' = []"
      using leave outside_step [OF ok _ step] by (cases "frames s t") auto
    with that have "u \<in> snd ` set (m_threads s)" by auto
    with inv have "joinable s u" by (simp only: pool_inv_def)
    then show ?thesis by (rule join)
  qed
  moreover have "joinable s' u" if j: "cpu (tls s' v) = KJoin us" "u \<in> set us" for v us u
  proof (cases "v = t")
    case False
    with j inv st join show ?thesis by (auto simp: pool_inv_def)
  next
    case True
    have "frames s t = None"
    proof (rule ccontr)
      assume "frames s t \<noteq> None"
      with leave j(1) True st have "fro' \<noteq> None" by auto
      moreover have "thread_ok t (heap s') (tls s' t) (frames s' t)" using pool_okD(4) [OF ok'] .
      ultimately show False
        using j(1) True st by (auto simp: thread_ok_def on_fiber_def in_idle_def in_program_def split: if_splits)
    qed
    with outside_step [OF ok _ step] j True have "u \<in> snd ` set (m_threads s) \<or>
        (\<exists>vs. cpu (tls s t) = KJoin vs \<and> u \<in> set vs)" by fastforce
    with inv join show ?thesis by (auto simp: pool_inv_def)
  qed
  ultimately show ?thesis using ok' join by (simp add: pool_inv_def)
qed


lemma start_threads_sel:
  "map snd (m_threads (start_threads i us s)) = map snd (m_threads s) @ us"
  "frames (start_threads i us s) = (\<lambda>u. if u \<in> set us then Some new_frame else frames s u)"
  "cpu (tls (start_threads i us s) u) = (if u \<in> set us then KRun None else cpu (tls s u))"
  "m_autoStop (start_threads i us s) = m_autoStop s"
  by (induction us arbitrary: i s) (auto simp: start_thread_def Let_def set_tls_def fun_eq_iff)

lemma pool_inv_start:
  assumes inv: "pool_inv s" and len: "length tids = unat (m_threadCount s)" and dist: "distinct tids"
    and new: "\<And>u. u \<in> set tids \<Longrightarrow> u \<noteq> -1 \<and> frames s u = None \<and> cpu (tls s u) = KOutside"
    and start: "start tids s = Inr s'"
  shows "pool_inv s' \<and> views (pool_of s') \<in> {views (pool_of s), (\<lambda>t. if t \<in> set tids then Entering else views (pool_of s) t)}
    \<and> queue (pool_of s') = queue (pool_of s)"
proof (cases "m_isRunning s")
  case False
  let ?s1 = "s\<lparr>m_isRunning := True\<rparr>"
  have s': "s' = start_threads 0 tids ?s1" and "m_threads s = []"
    using start False len by (auto simp: start_def server_assert_def Let_def split: if_splits)
  have "pool_ok ?s1" using inv unfolding pool_inv_def pool_ok_def by simp
  from pool_start_threads [OF this dist, of 0] new
  have s1: "pool_ok s'" "pool_of s' =
      (pool_of ?s1)\<lparr>views := (\<lambda>t. if t \<in> set tids then Entering else views (pool_of ?s1) t)\<rparr>" by (simp_all add: s')
  have "views (pool_of ?s1) = views (pool_of s)" "queue (pool_of ?s1) = queue (pool_of s)"
    by (simp_all add: pool_of_def)
  with s1(2) have v: "views (pool_of s') = (\<lambda>t. if t \<in> set tids then Entering else views (pool_of s) t)"
    "queue (pool_of s') = queue (pool_of s)" by (simp_all add: fun_eq_iff)
  have join: "joinable s' u" if "joinable s u \<or> u \<in> set tids" for u
    using that new by (auto simp: joinable_def s' start_threads_sel)
  have "snd ` set (m_threads s') = set tids"
    using arg_cong [OF start_threads_sel(1) [of 0 tids ?s1], of set] \<open>m_threads s = []\<close> by (simp add: s')
  moreover have "joinable s' u" if "cpu (tls s' t) = KJoin us" "u \<in> set us" for t us u
    using that inv join by (auto simp: s' start_threads_sel pool_inv_def split: if_splits)
  moreover have "lively (views (pool_of s') t)" if "\<not> m_autoStop s'" for t
    using that inv start_threads_sel(4) [of 0 tids ?s1] by (simp add: v pool_inv_def) (simp add: s')
  ultimately show ?thesis using s1(1) v join by (simp add: pool_inv_def)
qed (use start inv in \<open>simp add: start_def\<close>)

lemma pool_inv_stop:
  assumes inv: "pool_inv s" and t: "cpu (tls s t) = KOutside"
  shows "pool_inv (stopping_state t s)"
proof -
  have ok: "pool_ok s" using inv by (simp add: pool_inv_def)
  have "joinable (stopping_state t s) u" if "joinable s u" for u
    using that t by (auto simp: joinable_def stopping_state_def)
  with inv pool_stop [OF ok t] show ?thesis by (simp add: pool_inv_def stopping_state_def)
qed

lemma pool_inv_schedule:
  assumes inv: "pool_inv s" and x: "tame_task x" and step: "schedule scheduler_vt x s = Inr s'"
  shows "pool_inv s'"
proof -
  have ok: "pool_ok s" using inv by (simp add: pool_inv_def)
  from pool_schedule [OF ok x step] inv show ?thesis
    by (auto simp: pool_inv_def joinable_def)
qed

lemma pool_inv_sys_step:
  assumes "sys_step scheduler_vt ext s s'" and "\<And>x. ext x \<Longrightarrow> tame_task x" and "pool_inv s"
  shows "pool_inv s'"
  using assms(1)
proof cases
  case (step_thread t)
  with pool_inv_step [OF assms(3)] show ?thesis by blast
next
  case (step_schedule t x)
  with pool_inv_schedule assms(2,3) show ?thesis by blast
next
  case (step_start t tids)
  with pool_inv_start [OF assms(3), of tids] show ?thesis by blast
next
  case (step_stop t)
  with pool_inv_stop [OF assms(3)] pool_stop(1) [of s t] assms(3) show ?thesis by (simp add: pool_inv_def)
qed

lemma pool_inv_reachable:
  assumes "reachable scheduler_vt ext s s'" and "\<And>x. ext x \<Longrightarrow> tame_task x" and "pool_inv s"
  shows "pool_inv s'"
  using assms(1) by induction (use assms(3) pool_inv_sys_step [OF _ assms(2)] in auto)

subsection \<open>Clients that pin nothing\<close>

definition free_pool :: "pool \<Rightarrow> bool" where
  "free_pool P \<longleftrightarrow> (\<forall>x \<in> set (queue P). pin x = -1 \<and> unpinned (program x)) \<and> (\<forall>t. view_unpinned (views P t))"

lemma free_pool_step_with: "free_pool P \<Longrightarrow> free_pool (pool_step_with b t P)"
  unfolding free_pool_def by (elim conjE, rule pool_step_with_unpinned)

lemma free_pool_sys_step:
  assumes step: "sys_step scheduler_vt ext s s'" and ext: "\<And>x. ext x \<Longrightarrow> free_task x"
    and inv: "pool_inv s" and free: "free_pool (pool_of s)"
  shows "free_pool (pool_of s')"
  using step
proof cases
  case (step_thread t)
  have "pool_ok s" using inv by (simp add: pool_inv_def)
  from pool_simulated [OF this, of t] obtain s1 where "thread_step scheduler_vt t s = Inr s1"
    "pool_of s1 = pool_step_with (Scheduler_stopped s) t (pool_of s)" unfolding simulated_def by blast
  with step_thread have "pool_of s' = pool_step_with (Scheduler_stopped s) t (pool_of s)" by simp
  with free show ?thesis by (simp only: free_pool_step_with)
next
  case (step_schedule t x)
  then have x: "free_task x" by (simp add: ext)
  from pool_schedule(3) [OF _ free_tame [OF x] step_schedule(3)] inv
  have "pool_of s' = enqueue [item_of (heap s) x] (pool_of s)" by (simp add: pool_inv_def)
  moreover have "pin (item_of (heap s) x) = -1 \<and> unpinned (program (item_of (heap s) x))"
    using x by (auto simp: free_task_def cb_task_def item_of_def callback_program_def)
  ultimately show ?thesis using free by (auto simp: free_pool_def)
next
  case (step_start t tids)
  have "views (pool_of s') \<in> {views (pool_of s), (\<lambda>t. if t \<in> set tids then Entering else views (pool_of s) t)}"
    "queue (pool_of s') = queue (pool_of s)"
    using pool_inv_start [OF inv step_start(2,3) _ step_start(5)] step_start(4) by blast+
  with free show ?thesis unfolding free_pool_def by auto
next
  case (step_stop t)
  have "pool_ok s" using inv by (simp add: pool_inv_def)
  from pool_stop(1,3) [OF this step_stop(1)] step_stop(2)
  have "pool_of s' = (pool_of s)\<lparr>stopping := True\<rparr>" by simp
  with free show ?thesis by (simp add: free_pool_def)
qed

lemma free_pool_reachable:
  assumes "reachable scheduler_vt ext s s'" and "\<And>x. ext x \<Longrightarrow> free_task x" and "pool_inv s"
    and "free_pool (pool_of s)"
  shows "free_pool (pool_of s')"
  using assms(1)
proof induction
  case (reach_step s' s'')
  have "pool_inv s'" using pool_inv_reachable [OF reach_step(1) _ assms(3)] assms(2) free_tame by blast
  with reach_step free_pool_sys_step assms(2) show ?case by blast
qed (rule assms(4))

subsection \<open>A pool without the caller\<close>

lemma pool_new:
  assumes new: "Scheduler_new t threads False name (fresh_scheduler p) = Inr s"
    and p: "\<And>u. tls p u = init_tls u"
  shows "pool_inv s" and "free_pool (pool_of s)"
proof -
  have s: "s = (fresh_scheduler p)\<lparr>m_name := name, m_rootThread := -1, m_threadCount := threads\<rparr>"
    using new by (simp add: Scheduler_new_def Let_def server_assert_def split: if_splits)
  have thr: "thread_ok u (heap s) (tls s u) (frames s u)" and fr: "frames s u = None" for u
    using p by (simp_all add: s fresh_scheduler_def proc.defs thread_ok_def outside_def init_tls_def)
  then have "pool_ok s"
    by (simp add: pool_ok_def owned_def) (simp add: s fresh_scheduler_def proc.defs task_fibers_def)
  moreover have "views (pool_of s) u = Gone" for u using fr by (simp add: pool_of_def view_of_def)
  moreover have "m_threads s = []" "m_fibers s = []" "cpu (tls s u) = KOutside" for u
    using p by (simp_all add: s fresh_scheduler_def proc.defs init_tls_def)
  ultimately show "pool_inv s" "free_pool (pool_of s)"
    by (simp_all add: pool_inv_def free_pool_def) (simp add: pool_of_def)
qed

subsection \<open>Properties\<close>

text \<open>A thread is on its own stack or on that of a fiber it owns.\<close>

lemma stack_owner:
  assumes "pool_ok s"
  shows "cpu_stack (tls s t) = Native t \<or>
    (\<exists>a. cpu_stack (tls s t) = Heap a \<and> a \<in> set (owned (tls s t) (frames s t)))"
proof (cases "frames s t")
  case None
  with pool_okD(4) [OF assms, of t] show ?thesis by (simp add: thread_ok_def outside_def)
next
  case (Some fr)
  with pool_okD(4) [OF assms, of t] show ?thesis
    by (auto simp: thread_ok_def init_tls_def owned_def on_fiber_def cb_fibers_def task_fiber_def split: if_splits)
qed

lemma stacks_apart:
  assumes "pool_ok s" and "t \<noteq> u"
  shows "cpu_stack (tls s t) \<noteq> cpu_stack (tls s u)"
proof -
  have "set (owned (tls s t) (frames s t)) \<inter> set (owned (tls s u) (frames s u)) = {}"
    using assms by (simp add: pool_ok_def)
  with stack_owner [OF assms(1), of t] stack_owner [OF assms(1), of u] assms(2) show ?thesis by auto
qed

text \<open>
  C3. A scheduler without \<open>useCaller\<close> whose clients only throw, give way and schedule callbacks like
  themselves is safe: in every reachable state no step of any thread fails, neither does \<open>stop\<close> when
  a thread outside the pool calls it, no two threads execute on the same stack, and no fiber is in
  the queue twice.
\<close>

theorem tame_clients_safe:
  assumes new: "Scheduler_new u threads False name (fresh_scheduler init_proc) = Inr s0"
    and run: "reachable scheduler_vt tame_task s0 s"
  shows "is_ok (thread_step scheduler_vt t s) \<and> (cpu (tls s t) = KOutside \<longrightarrow> is_ok (stop scheduler_vt t s)) \<and>
    (t \<noteq> v \<longrightarrow> cpu_stack (tls s t) \<noteq> cpu_stack (tls s v)) \<and> distinct (task_fibers (m_fibers s))"
proof -
  have "pool_inv s0" using new by (rule pool_new) (simp add: init_proc_def)
  from pool_inv_reachable [OF run _ this] have ok: "pool_ok s" by (simp add: pool_inv_def)
  from pool_simulated [OF ok, of t] have "is_ok (thread_step scheduler_vt t s)" by (auto simp: simulated_def)
  with pool_stop(1) [OF ok] stacks_apart [OF ok, of t v] pool_okD(6) [OF ok, of t] show ?thesis by simp
qed

text \<open>A pool of two threads and a callback that gives way.\<close>

definition demo_pool :: sys where
  "demo_pool = put_task (cb_task (Client [OpYieldToReady]) (-1))
     (start_threads 0 [1, 2] ((fresh_scheduler init_proc)
        \<lparr>m_name := ''pool'', m_rootThread := -1, m_threadCount := 2, m_isRunning := True\<rparr>))"

lemma demo_pool_reachable:
  assumes "ext (cb_task (Client [OpYieldToReady]) (-1))"
  shows "\<exists>s0. Scheduler_new 0 2 False ''pool'' (fresh_scheduler init_proc) = Inr s0 \<and> reachable scheduler_vt ext s0 demo_pool"
proof -
  let ?s0 = "(fresh_scheduler init_proc)\<lparr>m_name := ''pool'', m_rootThread := -1, m_threadCount := 2\<rparr>"
  let ?s1 = "start_threads 0 [1, 2] (?s0\<lparr>m_isRunning := True\<rparr>)"
  have 1: "sys_step scheduler_vt ext ?s0 ?s1"
    by (rule step_start [where t = 0 and tids = "[1, 2]"])
      (auto simp: start_def fresh_scheduler_def init_proc_def init_tls_def proc.defs)
  have "schedule scheduler_vt (cb_task (Client [OpYieldToReady]) (-1)) ?s1 = Inr demo_pool"
    by (simp add: demo_pool_def schedule_def put_task_def scheduleNoLock_def scheduler_vt_def
        Scheduler_notify_def Let_def fresh_scheduler_def proc.defs cb_task_def)
  then have 2: "sys_step scheduler_vt ext ?s1 demo_pool"
    by (rule step_schedule [where t = 0, rotated 2])
      (auto simp: start_threads_sel fresh_scheduler_def init_proc_def init_tls_def proc.defs assms
        simp del: start_threads.simps)
  have "Scheduler_new 0 2 False ''pool'' (fresh_scheduler init_proc) = Inr ?s0"
    by (simp add: Scheduler_new_def Let_def)
  with reach_step [OF reach_step [OF reach_refl 1] 2] show ?thesis by blast
qed

lemma demo_free: "free_task (cb_task (Client [OpYieldToReady]) (-1))"
  unfolding free_task_def by (intro exI [of _ "[OpYieldToReady]"]) simp

lemma demo_pool_sel:
  "dom (frames demo_pool) = {1, 2}" "\<not> m_autoStop demo_pool" "cpu (tls demo_pool 0) = KOutside"
  by (auto simp: demo_pool_def put_task_def scheduleNoLock_def start_threads_sel fresh_scheduler_def
      proc.defs init_proc_def init_tls_def simp del: start_threads.simps split: if_splits)

theorem tame_clients_safe_witness:
  "is_ok (thread_step scheduler_vt 1 demo_pool) \<and> is_ok (stop scheduler_vt 0 demo_pool) \<and>
   cpu_stack (tls demo_pool 1) \<noteq> cpu_stack (tls demo_pool 2)"
proof -
  obtain s0 where s0: "Scheduler_new 0 2 False ''pool'' (fresh_scheduler init_proc) = Inr s0"
    "reachable scheduler_vt tame_task s0 demo_pool"
    using demo_pool_reachable [of tame_task, OF free_tame [OF demo_free]] by blast
  from tame_clients_safe [OF s0, of 0 1] tame_clients_safe [OF s0, of 1 2] demo_pool_sel(3)
  show ?thesis by simp
qed



end
