(* ===== verification/PoolStops.thy ===== *)
theory PoolStops
  imports PoolRuns
begin

section \<open>\<open>stop\<close> returns\<close>

text \<open>
  Runs of the machine along an infinite schedule. While the pool drains, the abstract pool says what
  happens; afterwards the thread that called \<open>stop\<close> joins the threads, which have all ended.
\<close>

subsection \<open>A prefix of a schedule\<close>

definition run_prefix :: "(nat \<Rightarrow> tid) \<Rightarrow> nat \<Rightarrow> sys \<Rightarrow> sys res" where
  "run_prefix \<sigma> n = run_threads scheduler_vt (map \<sigma> [0..<n])"

lemma run_prefix_0 [simp]: "run_prefix \<sigma> 0 s = Inr s"
  by (simp add: run_prefix_def)

lemma run_prefix_Suc: "run_prefix \<sigma> (Suc n) s = rbind (run_prefix \<sigma> n s) (thread_step scheduler_vt (\<sigma> n))"
proof (cases "run_prefix \<sigma> n s")
  case (Inr s1)
  then show ?thesis
    by (cases "thread_step scheduler_vt (\<sigma> n) s1") (simp_all add: run_prefix_def run_threads_append)
qed (simp add: run_prefix_def run_threads_append)

lemma run_prefix_add: "run_prefix \<sigma> (k + n) s = rbind (run_prefix \<sigma> k s) (run_prefix (suffix k \<sigma>) n)"
proof -
  have "map \<sigma> [0..<k + n] = map \<sigma> [0..<k] @ map (suffix k \<sigma>) [0..<n]"
    by (rule nth_equalityI) (auto simp: nth_append suffix_def)
  then show ?thesis by (simp add: run_prefix_def run_threads_append)
qed

subsection \<open>While the pool drains\<close>

text \<open>What one step keeps: the invariants, and what is known of the threads of the pool and outside.\<close>

definition pool_run_ok :: "sys \<Rightarrow> bool" where
  "pool_run_ok s \<longleftrightarrow> pool_inv s \<and> counters_ok s \<and> card (dom (frames s)) < 2 ^ 64"

definition waits :: "sys \<Rightarrow> tid \<Rightarrow> bool" where
  "waits s u \<longleftrightarrow> frames s u = None \<and> cpu (tls s u) \<noteq> KExit"

definition goes_on :: "sys \<Rightarrow> sys \<Rightarrow> bool" where
  "goes_on s s' \<longleftrightarrow> (\<forall>u. (joinable s u \<longrightarrow> joinable s' u) \<and> (waits s u \<longrightarrow> waits s' u) \<and>
     (frames s u = None \<longrightarrow> frames s' u = None))"

lemma goes_on_refl: "goes_on s s" and goes_on_trans: "goes_on s s1 \<Longrightarrow> goes_on s1 s2 \<Longrightarrow> goes_on s s2"
  by (auto simp: goes_on_def)

lemma pool_run_step:
  assumes ok: "pool_run_ok s"
  shows "\<exists>s'. thread_step scheduler_vt t s = Inr s' \<and> pool_run_ok s' \<and> goes_on s s' \<and>
    pool_of s' = pool_step t (pool_of s)"
proof -
  have inv: "pool_inv s" and pok: "pool_ok s" and c: "counters_ok s" and room: "card (dom (frames s)) < 2 ^ 64"
    using ok by (simp_all add: pool_run_ok_def pool_inv_def)
  from pool_simulated [OF pok, of t] obtain s' l' fro' where s': "thread_step scheduler_vt t s = Inr s'"
    "pool_of s' = pool_step_with (Scheduler_stopped s) t (pool_of s)"
    "tls s' = (tls s)(t := l')" "frames s' = (frames s)(t := fro')"
    and out: "frames s t = None \<longrightarrow> fro' = None" by (auto simp: simulated_def)
  have dom: "dom (frames s') \<subseteq> dom (frames s)" using out by (auto simp: s'(4) split: if_splits)
  have "finite (dom (frames s))" using c by (simp add: counters_ok_def)
  with dom room have room': "card (dom (frames s')) < 2 ^ 64" by (meson card_mono le_less_trans)
  have step: "pool_inv s'" "joinable s u \<Longrightarrow> joinable s' u" for u
    using pool_inv_step [OF inv s'(1)] by auto
  have w: "waits s' u" if "waits s u" for u
  proof (cases "u = t")
    case True
    with that have f: "frames s t = None" "cpu (tls s t) \<noteq> KExit" by (simp_all add: waits_def)
    then have "outside t (tls s t)" using pool_okD(4) [OF pok, of t] by (simp add: thread_ok_def)
    then consider "cpu (tls s t) = KOutside" | "cpu (tls s t) = KStopSwap" | us where "cpu (tls s t) = KJoin us"
      using f(2) by (auto simp: outside_def)
    then have "cpu (tls s' t) \<noteq> KExit"
      using s'(1) by cases (auto simp: thread_step_def stop_swap_def set_cpu_def set_tls_def stop_join_def
          split: list.splits if_splits option.splits)
    with True f(1) out show ?thesis by (simp add: waits_def s'(4))
  qed (use that in \<open>simp add: waits_def s'(3,4)\<close>)
  have "pool_of s' = pool_step t (pool_of s)"
    using stopped_pool [OF pok c room] s'(2) by (simp add: pool_step_def)
  moreover have "counters_ok s'" using base.counters_ok_thread_step [OF c s'(1)] .
  ultimately show ?thesis
    using s'(1) step room' dom w unfolding pool_run_ok_def goes_on_def by blast
qed

lemma pool_run_prefix:
  assumes "pool_run_ok s"
  shows "\<exists>s'. run_prefix \<sigma> n s = Inr s' \<and> pool_run_ok s' \<and> goes_on s s' \<and> pool_of s' = pool_after \<sigma> (pool_of s) n"
proof (induction n)
  case (Suc n)
  then obtain s1 where s1: "run_prefix \<sigma> n s = Inr s1" "pool_run_ok s1" "goes_on s s1"
    "pool_of s1 = pool_after \<sigma> (pool_of s) n" by blast
  with pool_run_step [OF s1(2), of "\<sigma> n"] goes_on_trans [OF s1(3)] show ?case
    by (auto simp: run_prefix_Suc)
qed (use assms in \<open>simp add: goes_on_refl\<close>)

lemma gone_frame: "views (pool_of s) t = Gone \<longleftrightarrow> frames s t = None"
  by (cases "frames s t")
    (auto simp: pool_of_def view_of_def home_view_def fiber_view_def Let_def split: run_pc.splits cont.splits callback.splits)

lemma empty_queue: "queue (pool_of s) = [] \<longleftrightarrow> m_fibers s = []"
  by (simp add: pool_of_def)

text \<open>When \<open>stop\<close> is called and nothing is pinned, the pool drains.\<close>

lemma lively_searches: "lively v \<Longrightarrow> v \<noteq> Gone \<Longrightarrow> searches v"
  by (cases v) auto

lemma stopping_drains:
  assumes inv: "pool_inv s" and auto: "\<not> m_autoStop s" and free: "free_pool (pool_of s)"
    and v: "frames s v \<noteq> None" and u: "cpu (tls s u) = KOutside"
  shows "draining (dom (frames s)) (pool_of (stopping_state u s))"
proof -
  have ok: "pool_ok s" using inv by (simp add: pool_inv_def)
  have "views (pool_of s) v \<noteq> Gone" using v by (simp add: gone_frame)
  moreover have "lively (views (pool_of s) v)" using inv auto by (simp add: pool_inv_def)
  ultimately have "searches (views (pool_of s) v)" by (simp add: lively_searches)
  moreover have "views (pool_of s) t = Gone" if "t \<notin> dom (frames s)" for t
    using that by (auto simp: gone_frame)
  ultimately show ?thesis
    using free by (auto simp: draining_def pool_stop(3) [OF ok u] free_pool_def)
qed

subsection \<open>Afterwards\<close>

text \<open>The number of steps the caller of \<open>stop\<close> still needs once every thread has ended.\<close>

fun joins_left :: "cont \<Rightarrow> nat \<Rightarrow> nat" where
  "joins_left KStopSwap n = n + 2"
| "joins_left (KJoin us) n = length us + 1"
| "joins_left _ n = 0"

definition stop_rank :: "tid \<Rightarrow> sys \<Rightarrow> nat" where
  "stop_rank u s = joins_left (cpu (tls s u)) (length (m_threads s))"

lemma joins_left_mono: "n \<le> m \<Longrightarrow> joins_left k n \<le> joins_left k m"
  by (cases k) auto

definition quiet :: "sys \<Rightarrow> bool" where
  "quiet s \<longleftrightarrow> pool_run_ok s \<and> m_fibers s = [] \<and> (\<forall>t. frames s t = None)"

lemma quiet_step:
  assumes q: "quiet s"
  shows "\<exists>s'. thread_step scheduler_vt t s = Inr s' \<and> quiet s' \<and> goes_on s s' \<and>
    stop_rank u s' \<le> stop_rank u s \<and> (t = u \<and> 0 < stop_rank u s \<longrightarrow> stop_rank u s' < stop_rank u s)"
proof -
  have ok: "pool_run_ok s" and inv: "pool_inv s" and pok: "pool_ok s" and f: "frames s t = None"
    using q by (simp_all add: quiet_def pool_run_ok_def pool_inv_def)
  obtain s' where s': "thread_step scheduler_vt t s = Inr s'" "pool_run_ok s'" "goes_on s s'"
    using pool_run_step [OF ok, of t] by blast
  have "\<forall>t. frames s' t = None" using q s'(3) by (simp add: quiet_def goes_on_def)
  moreover have "outside t (tls s t)" using pool_okD(4) [OF pok, of t] f by (simp add: thread_ok_def)
  then consider "cpu (tls s t) = KExit" | "cpu (tls s t) = KOutside" | "cpu (tls s t) = KStopSwap"
    | us where "cpu (tls s t) = KJoin us" by (auto simp: outside_def)
  then have "m_fibers s' = [] \<and> stop_rank u s' \<le> stop_rank u s \<and>
      (t = u \<and> 0 < stop_rank u s \<longrightarrow> stop_rank u s' < stop_rank u s)"
  proof cases
    case (4 us)
    show ?thesis
    proof (cases us)
      case (Cons v vs)
      have "joinable s v" using inv 4 Cons unfolding pool_inv_def by (meson list.set_intros(1))
      with q have "cpu (tls s v) = KExit" by (simp add: joinable_def quiet_def)
      with s'(1) 4 Cons have "s' = set_cpu t (KJoin vs) s" by (simp add: thread_step_def stop_join_def)
      with 4 Cons q show ?thesis
        by (cases "u = t") (simp_all add: set_cpu_def set_tls_def stop_rank_def quiet_def)
    qed (use s'(1) 4 q in \<open>auto simp: thread_step_def stop_join_def set_cpu_def set_tls_def stop_rank_def quiet_def\<close>)
  qed (use s'(1) q in \<open>auto simp: thread_step_def stop_swap_def set_cpu_def set_tls_def stop_rank_def quiet_def joins_left_mono\<close>)
  ultimately show ?thesis using s' by (auto simp: quiet_def)
qed

lemma quiet_prefix:
  assumes "quiet s"
  shows "\<exists>s'. run_prefix \<sigma> n s = Inr s' \<and> quiet s' \<and> goes_on s s' \<and> stop_rank u s' \<le> stop_rank u s"
proof (induction n)
  case (Suc n)
  then obtain s1 where s1: "run_prefix \<sigma> n s = Inr s1" "quiet s1" "goes_on s s1" "stop_rank u s1 \<le> stop_rank u s"
    by blast
  with quiet_step [OF s1(2), of "\<sigma> n" u] goes_on_trans [OF s1(3)] show ?case
    by (fastforce simp: run_prefix_Suc)
qed (use assms in \<open>simp add: goes_on_refl\<close>)

lemma stop_returns:
  "quiet s \<Longrightarrow> fair {u} \<sigma> \<Longrightarrow> \<exists>n s'. run_prefix \<sigma> n s = Inr s' \<and> quiet s' \<and> goes_on s s' \<and> stop_rank u s' = 0"
proof (induction "stop_rank u s" arbitrary: s \<sigma> rule: less_induct)
  case less
  show ?case
  proof (cases "stop_rank u s = 0")
    case True
    with less.prems show ?thesis by (intro exI [of _ 0] exI [of _ s]) (simp add: goes_on_refl)
  next
    case False
    obtain k where k: "\<sigma> k = u" using less.prems(2) by (auto simp: fair_def)
    obtain s1 where s1: "run_prefix \<sigma> k s = Inr s1" "quiet s1" "goes_on s s1" "stop_rank u s1 \<le> stop_rank u s"
      using quiet_prefix [OF less.prems(1)] by blast
    obtain s2 where s2: "thread_step scheduler_vt u s1 = Inr s2" "quiet s2" "goes_on s1 s2"
      "stop_rank u s2 \<le> stop_rank u s1" "0 < stop_rank u s1 \<Longrightarrow> stop_rank u s2 < stop_rank u s1"
      using quiet_step [OF s1(2), of u u] by auto
    have run: "run_prefix \<sigma> (Suc k) s = Inr s2" using s1(1) s2(1) k by (simp add: run_prefix_Suc)
    have "stop_rank u s2 < stop_rank u s" using s1(4) s2(4,5) False by linarith
    from less.hyps [OF this s2(2) fair_suffix [OF less.prems(2), of "Suc k"]] obtain n s' where
      n: "run_prefix (suffix (Suc k) \<sigma>) n s2 = Inr s'" "quiet s'" "goes_on s2 s'" "stop_rank u s' = 0" by blast
    have "run_prefix \<sigma> (Suc k + n) s = Inr s'" using run n(1) by (simp add: run_prefix_add del: add_Suc)
    with n goes_on_trans [OF goes_on_trans [OF s1(3) s2(3)] n(3)] show ?thesis by blast
  qed
qed

subsection \<open>Properties\<close>


text \<open>The three threads in turn.\<close>

lemma fair_in_turn: "fair {0, 1, 2} (\<lambda>n. int (n mod 3))"
proof -
  have "\<exists>m \<ge> n. int (m mod 3) = t" if "t \<in> {0, 1, 2}" for t n
  proof (intro exI conjI)
    show "n \<le> 3 * n + nat t" "int ((3 * n + nat t) mod 3) = t" using that by auto
  qed
  then show ?thesis by (auto simp: fair_def)
qed



end
