(* ===== verification/IOManagers.thy ===== *)
theory IOManagers
  imports SchedulerCounts
begin

section \<open>The IO manager (source/iomanager.hpp, source/iomanager.cpp)\<close>

text \<open>
  \<open>IOManager\<close> is a \<open>Scheduler\<close> that also waits for file descriptors: \<open>ios\<close> adds its members to the
  state. System calls are not part of the repository: \<open>os\<close> is a parameter, one function for each
  call the code makes, over a kernel state of any type, kept in the field \<open>kernel\<close>. A call that
  would block is taken to return.
  \<^item> \<open>FdContext\<close> objects are kept by address, as \<open>epoll\<close> keeps pointers to them. The vector
    \<open>m_fdContexts\<close> holds addresses: \<open>contextResize\<close> fills the slots it appends before it returns,
    so none is null.
  \<^item> \<open>Event\<close> is an \<open>int\<close> with one bit for each of READ and WRITE, here a 32-bit word.
  \<^item> The field \<open>data\<close> of an \<open>epoll_event\<close> is a union: the descriptor of the notify pipe or a pointer
    to an \<open>FdContext\<close>. The code tells the two apart by comparing \<open>data.fd\<close>; that the low half of a
    pointer is never the number of a descriptor is assumed.
  \<^item> A thread in \<open>idle\<close> is at one of the points of \<open>idle_pos\<close>: the head of its loop, \<open>epoll_wait\<close>, or
    with the events left to process, one critical section each.
\<close>

unbundle bit_operations_syntax

type_synonym event = "32 word"
type_synonym caddr = nat

definition NONE :: event where "NONE = 0"
definition READ :: event where "READ = 1"
definition WRITE :: event where "WRITE = 4"

definition EPOLLIN :: "32 word" where "EPOLLIN = 1"
definition EPOLLOUT :: "32 word" where "EPOLLOUT = 4"
definition EPOLLERR :: "32 word" where "EPOLLERR = 8"
definition EPOLLHUP :: "32 word" where "EPOLLHUP = 16"
definition EPOLLET :: "32 word" where "EPOLLET = 0x80000000"

datatype ctl_op = EPOLL_CTL_ADD | EPOLL_CTL_MOD | EPOLL_CTL_DEL

datatype epoll_data = DataFd int | DataPtr caddr

record epoll_event =
  ep_events :: "32 word"
  ep_data :: epoll_data

datatype wait_result = Interrupted | Ready "epoll_event list"

record 'k os =
  os_epoll_create :: "'k \<Rightarrow> int \<times> 'k"
  os_pipe :: "'k \<Rightarrow> int \<times> (int \<times> int) \<times> 'k"
  os_nonblock :: "int \<Rightarrow> 'k \<Rightarrow> int \<times> 'k"
  os_epoll_ctl :: "int \<Rightarrow> ctl_op \<Rightarrow> int \<Rightarrow> epoll_event \<Rightarrow> 'k \<Rightarrow> int \<times> 'k"
  os_epoll_wait :: "int \<Rightarrow> 'k \<Rightarrow> wait_result \<times> 'k"
  os_write :: "int \<Rightarrow> 'k \<Rightarrow> int \<times> 'k"
  os_drain :: "int \<Rightarrow> 'k \<Rightarrow> 'k"
  os_close :: "int \<Rightarrow> 'k \<Rightarrow> 'k"

record event_context =
  ec_scheduler :: bool
  ec_fiber :: "faddr option"
  ec_cb :: "callback option"

record fd_context =
  fd :: int
  fc_read :: event_context
  fc_write :: event_context
  events :: event

datatype idle_pos = IdleHead | IdleWait | IdleEvents "epoll_event list"

record 'k ios = sys +
  m_epfd :: int
  m_notifyFds :: "int \<times> int"
  m_pendingEventCount :: "64 word"
  fdctx :: "caddr \<Rightarrow> fd_context option"
  fdctx_brk :: caddr
  m_fdContexts :: "caddr list"
  idle_pos :: "tid \<Rightarrow> idle_pos"
  kernel :: 'k

definition empty_context :: event_context where
  "empty_context = \<lparr>ec_scheduler = False, ec_fiber = None, ec_cb = None\<rparr>"

subsection \<open>FdContext\<close>

text \<open>\<open>getContext\<close> returns a reference: here its value, and \<open>putContext\<close> writes through it.\<close>

definition getContext :: "fd_context \<Rightarrow> event \<Rightarrow> event_context res" where
  "getContext c ev =
     (if ev = READ then Inr (fc_read c)
      else if ev = WRITE then Inr (fc_write c)
      else Inl (AssertionFailed ''getContext''))"

definition putContext :: "event \<Rightarrow> event_context \<Rightarrow> fd_context \<Rightarrow> fd_context" where
  "putContext ev x c = (if ev = READ then c\<lparr>fc_read := x\<rparr> else c\<lparr>fc_write := x\<rparr>)"

definition resetContext :: "event_context \<Rightarrow> event_context" where
  "resetContext x = x\<lparr>ec_scheduler := False, ec_fiber := None, ec_cb := None\<rparr>"

definition ctx_at :: "caddr \<Rightarrow> ('k, 'z) ios_scheme \<Rightarrow> fd_context res" where
  "ctx_at p s = (case fdctx s p of None \<Rightarrow> Inl (BadAccess ''dangling FdContext*'') | Some c \<Rightarrow> Inr c)"

definition put_ctx :: "caddr \<Rightarrow> fd_context \<Rightarrow> ('k, 'z) ios_scheme \<Rightarrow> ('k, 'z) ios_scheme" where
  "put_ctx p c s = s\<lparr>fdctx := (fdctx s)(p := Some c)\<rparr>"

text \<open>\<open>m_fdContexts[fd]\<close>.\<close>

definition slot :: "int \<Rightarrow> ('k, 'z) ios_scheme \<Rightarrow> caddr res" where
  "slot n s =
     (if 0 \<le> n \<and> nat n < length (m_fdContexts s) then Inr (m_fdContexts s ! nat n)
      else Inl (BadAccess ''m_fdContexts[fd]''))"

text \<open>\<open>static_cast<int>(m_fdContexts.size())\<close>\<close>

definition int_size :: "('k, 'z) ios_scheme \<Rightarrow> int" where
  "int_size s = sint (word_of_nat (length (m_fdContexts s)) :: 32 word)"

text \<open>
  \<open>schedule(&ctx.cb)\<close> and \<open>schedule(&ctx.fiber)\<close> move the task out of the context.
\<close>

definition triggerEvent ::
    "('k, 'z) ios_scheme vtable \<Rightarrow> caddr \<Rightarrow> event \<Rightarrow> ('k, 'z) ios_scheme \<Rightarrow> ('k, 'z) ios_scheme res" where
  "triggerEvent vt p ev s =
     rbind (ctx_at p s) (\<lambda>c.
       server_assert (events c AND ev \<noteq> 0) ''events & event''
         (let c1 = c\<lparr>events := events c AND NOT ev\<rparr> in
          rbind (getContext c1 ev) (\<lambda>x.
            if \<not> ec_scheduler x then Inl (BadAccess ''null Scheduler*'')
            else
              let (y, x1) = (if ec_cb x \<noteq> None
                             then (\<lparr>ft_fiber = None, ft_cb = ec_cb x, ft_thread = -1\<rparr>, x\<lparr>ec_cb := None\<rparr>)
                             else (\<lparr>ft_fiber = ec_fiber x, ft_cb = None, ft_thread = -1\<rparr>,
                                   x\<lparr>ec_fiber := None\<rparr>))
              in schedule vt y (put_ctx p (putContext ev (x1\<lparr>ec_scheduler := False\<rparr>) c1) s))))"

subsection \<open>Construction\<close>

text \<open>
  \<open>contextResize\<close>: \<open>resize\<close> cuts the vector or appends null slots, and the loop puts a new
  \<open>FdContext\<close> in each null slot. A context that is cut off is not deleted.
\<close>

definition new_context :: "int \<Rightarrow> fd_context" where
  "new_context n = \<lparr>fd = n, fc_read = empty_context, fc_write = empty_context, events = NONE\<rparr>"

fun append_contexts :: "nat \<Rightarrow> ('k, 'z) ios_scheme \<Rightarrow> ('k, 'z) ios_scheme" where
  "append_contexts 0 s = s"
| "append_contexts (Suc n) s =
     append_contexts n
       (s\<lparr>fdctx := (fdctx s)(fdctx_brk s := Some (new_context (int (length (m_fdContexts s))))),
          m_fdContexts := m_fdContexts s @ [fdctx_brk s], fdctx_brk := Suc (fdctx_brk s)\<rparr>)"

definition contextResize :: "nat \<Rightarrow> ('k, 'z) ios_scheme \<Rightarrow> ('k, 'z) ios_scheme" where
  "contextResize n s =
     (if n \<le> length (m_fdContexts s) then s\<lparr>m_fdContexts := take n (m_fdContexts s)\<rparr>
      else append_contexts (n - length (m_fdContexts s)) s)"

text \<open>The constructor, executed by thread \<open>t\<close>; \<open>tids\<close> are the ids of the threads of the pool.\<close>

definition fresh_iomanager :: "'k \<Rightarrow> proc \<Rightarrow> 'k ios" where
  "fresh_iomanager k p = sys.extend (fresh_scheduler p)
     \<lparr>m_epfd = 0, m_notifyFds = (0, 0), m_pendingEventCount = 0, fdctx = (\<lambda>_. None), fdctx_brk = 0,
      m_fdContexts = [], idle_pos = (\<lambda>_. IdleHead), kernel = k\<rparr>"

definition IOManager_new ::
    "'k os \<Rightarrow> tid \<Rightarrow> 64 word \<Rightarrow> bool \<Rightarrow> string \<Rightarrow> tid list \<Rightarrow> ('k, 'z) ios_scheme \<Rightarrow>
     ('k, 'z) ios_scheme res" where
  "IOManager_new K t threads useCaller name tids s0 =
     rbind (Scheduler_new t threads useCaller name s0) (\<lambda>s1.
       let (ep, k1) = os_epoll_create K (kernel s1) in
       server_assert (0 < ep) ''m_epfd > 0''
         (let (r1, fds, k2) = os_pipe K k1 in
          server_assert (r1 = 0) ''!ret''
            (let (r2, k3) = os_nonblock K (fst fds) k2 in
             server_assert (r2 = 0) ''!ret''
               (let (r3, k4) = os_epoll_ctl K ep EPOLL_CTL_ADD (fst fds)
                      \<lparr>ep_events = EPOLLIN OR EPOLLET, ep_data = DataFd (fst fds)\<rparr> k3 in
                server_assert (r3 = 0) ''!ret''
                  (start tids (contextResize 32
                     (s1\<lparr>m_epfd := ep, m_notifyFds := fds, kernel := k4\<rparr>)))))))"

text \<open>The destructor after its call of \<open>stop\<close> has returned, without that of the base class.\<close>

definition IOManager_delete :: "'k os \<Rightarrow> ('k, 'z) ios_scheme \<Rightarrow> ('k, 'z) ios_scheme" where
  "IOManager_delete K s =
     s\<lparr>kernel := os_close K (snd (m_notifyFds s)) (os_close K (fst (m_notifyFds s))
                  (os_close K (m_epfd s) (kernel s))),
       fdctx := (\<lambda>p. if p \<in> set (m_fdContexts s) then None else fdctx s p)\<rparr>"

subsection \<open>Registering and unregistering events\<close>

text \<open>
  \<open>addEvent\<close> is three critical sections: the lookup under the read lock (\<open>None\<close>: the vector is too
  short), the growth under the write lock, the registration under the context's mutex. \<open>fd * 1.5\<close>
  is exact in a \<open>double\<close> and truncated by the conversion to \<open>size_t\<close>.
\<close>

definition addEvent_find :: "int \<Rightarrow> ('k, 'z) ios_scheme \<Rightarrow> caddr option res" where
  "addEvent_find n s = (if n < int_size s then map_sum id Some (slot n s) else Inr None)"

definition addEvent_grow :: "int \<Rightarrow> ('k, 'z) ios_scheme \<Rightarrow> (caddr \<times> ('k, 'z) ios_scheme) res" where
  "addEvent_grow n s =
     (let s1 = contextResize (nat (n * 3 div 2)) s in rbind (slot n s1) (\<lambda>p. Inr (p, s1)))"

definition addEvent_register ::
    "'k os \<Rightarrow> tid \<Rightarrow> int \<Rightarrow> event \<Rightarrow> callback option \<Rightarrow> caddr \<Rightarrow> ('k, 'z) ios_scheme \<Rightarrow>
     (int \<times> ('k, 'z) ios_scheme) res" where
  "addEvent_register K t n ev cb p s =
     rbind (ctx_at p s) (\<lambda>c.
       server_assert (events c AND ev = 0) ''!(fdCtx->events & event)''
         (let op = (if events c \<noteq> 0 then EPOLL_CTL_MOD else EPOLL_CTL_ADD);
              (ret, k) = os_epoll_ctl K (m_epfd s) op n
                \<lparr>ep_events = EPOLLET OR events c OR ev, ep_data = DataPtr p\<rparr> (kernel s);
              s1 = s\<lparr>kernel := k\<rparr>
          in if ret \<noteq> 0 then Inr (-1, s1)
             else
               let s2 = s1\<lparr>m_pendingEventCount := m_pendingEventCount s1 + 1\<rparr>;
                   c1 = c\<lparr>events := events c OR ev\<rparr>
               in rbind (getContext c1 ev) (\<lambda>x.
                    server_assert (\<not> (ec_scheduler x \<or> ec_fiber x \<noteq> None \<or> ec_cb x \<noteq> None))
                      ''!(eventCtx.scheduler || eventCtx.fiber || eventCtx.cb)''
                      (let x1 = x\<lparr>ec_scheduler := t_scheduler (tls s2 t)\<rparr> in
                       case cb of
                         Some f \<Rightarrow> Inr (0, put_ctx p (putContext ev (x1\<lparr>ec_cb := Some f\<rparr>) c1) s2)
                       | None \<Rightarrow>
                           rbind (getThis t s2) (\<lambda>(a, s3).
                             rbind (fiber_at (Some a) s3) (\<lambda>f.
                               server_assert (m_state f = State_EXEC)
                                 ''eventCtx.fiber->getState() == Fiber::State::EXEC''
                                 (Inr (0, put_ctx p (putContext ev (x1\<lparr>ec_fiber := Some a\<rparr>) c1) s3))))))))"

definition addEvent ::
    "'k os \<Rightarrow> tid \<Rightarrow> int \<Rightarrow> event \<Rightarrow> callback option \<Rightarrow> ('k, 'z) ios_scheme \<Rightarrow>
     (int \<times> ('k, 'z) ios_scheme) res" where
  "addEvent K t n ev cb s =
     rbind (addEvent_find n s) (\<lambda>found.
       rbind (case found of Some p \<Rightarrow> Inr (p, s) | None \<Rightarrow> addEvent_grow n s) (\<lambda>(p, s1).
         addEvent_register K t n ev cb p s1))"

text \<open>
  \<open>change_mask\<close> is the call of \<open>epoll_ctl\<close> that \<open>delEvent\<close>, \<open>cancelEvent\<close> and the loop of \<open>idle\<close>
  share: ask the kernel for the events \<open>left\<close> only.
\<close>

definition change_mask ::
    "'k os \<Rightarrow> int \<Rightarrow> caddr \<Rightarrow> event \<Rightarrow> ('k, 'z) ios_scheme \<Rightarrow> int \<times> ('k, 'z) ios_scheme" where
  "change_mask K n p left s =
     (let (ret, k) = os_epoll_ctl K (m_epfd s) (if left \<noteq> 0 then EPOLL_CTL_MOD else EPOLL_CTL_DEL) n
            \<lparr>ep_events = EPOLLET OR left, ep_data = DataPtr p\<rparr> (kernel s)
      in (ret, s\<lparr>kernel := k\<rparr>))"

text \<open>\<open>delEvent\<close> tests \<open>events | event\<close>, which is 0 only when both are.\<close>

definition delEvent ::
    "'k os \<Rightarrow> int \<Rightarrow> event \<Rightarrow> ('k, 'z) ios_scheme \<Rightarrow> (bool \<times> ('k, 'z) ios_scheme) res" where
  "delEvent K n ev s =
     (if int_size s \<le> n then Inr (False, s)
      else rbind (slot n s) (\<lambda>p. rbind (ctx_at p s) (\<lambda>c.
        if events c OR ev = 0 then Inr (False, s)
        else
          let new_event = events c AND NOT ev;
              (ret, s1) = change_mask K n p new_event s
          in if ret \<noteq> 0 then Inr (False, s1)
             else
               let s2 = s1\<lparr>m_pendingEventCount := m_pendingEventCount s1 - 1\<rparr>;
                   c1 = c\<lparr>events := new_event\<rparr>
               in rbind (getContext c1 ev) (\<lambda>x.
                    Inr (True, put_ctx p (putContext ev (resetContext x) c1) s2)))))"

definition cancelEvent ::
    "'k os \<Rightarrow> ('k, 'z) ios_scheme vtable \<Rightarrow> int \<Rightarrow> event \<Rightarrow> ('k, 'z) ios_scheme \<Rightarrow>
     (bool \<times> ('k, 'z) ios_scheme) res" where
  "cancelEvent K vt n ev s =
     (if int_size s \<le> n then Inr (False, s)
      else rbind (slot n s) (\<lambda>p. rbind (ctx_at p s) (\<lambda>c.
        if events c AND ev = 0 then Inr (False, s)
        else
          let (ret, s1) = change_mask K n p (events c AND NOT ev) s
          in if ret \<noteq> 0 then Inr (False, s1)
             else rbind (triggerEvent vt p ev s1) (\<lambda>s2.
               let s3 = s2\<lparr>m_pendingEventCount := m_pendingEventCount s2 - 1\<rparr> in
               rbind (ctx_at p s3) (\<lambda>c3.
                 server_assert (events c3 = NONE) ''fd_ctx->events == NONE'' (Inr (True, s3)))))))"

text \<open>\<open>trigger_if\<close>: trigger and count down one event when the condition holds.\<close>

definition trigger_if ::
    "bool \<Rightarrow> ('k, 'z) ios_scheme vtable \<Rightarrow> caddr \<Rightarrow> event \<Rightarrow> ('k, 'z) ios_scheme \<Rightarrow>
     ('k, 'z) ios_scheme res" where
  "trigger_if b vt p ev s =
     (if b then rbind (triggerEvent vt p ev s) (\<lambda>s1.
        Inr (s1\<lparr>m_pendingEventCount := m_pendingEventCount s1 - 1\<rparr>)) else Inr s)"

text \<open>\<open>cancelAll\<close> compares \<open>size < fd\<close>.\<close>

definition cancelAll ::
    "'k os \<Rightarrow> ('k, 'z) ios_scheme vtable \<Rightarrow> int \<Rightarrow> ('k, 'z) ios_scheme \<Rightarrow>
     (bool \<times> ('k, 'z) ios_scheme) res" where
  "cancelAll K vt n s =
     (if int_size s < n then Inr (False, s)
      else rbind (slot n s) (\<lambda>p. rbind (ctx_at p s) (\<lambda>c.
        if events c = 0 then Inr (False, s)
        else
          let (ret, k) = os_epoll_ctl K (m_epfd s) EPOLL_CTL_DEL n
                \<lparr>ep_events = 0, ep_data = DataPtr p\<rparr> (kernel s);
              s1 = s\<lparr>kernel := k\<rparr>
          in if ret \<noteq> 0 then Inr (False, s1)
             else rbind (ctx_at p s1) (\<lambda>c1.
                  rbind (trigger_if (events c1 AND READ \<noteq> 0) vt p READ s1) (\<lambda>s2.
                  rbind (ctx_at p s2) (\<lambda>c2.
                  rbind (trigger_if (events c2 AND WRITE \<noteq> 0) vt p WRITE s2) (\<lambda>s3.
                  rbind (ctx_at p s3) (\<lambda>c3.
                    server_assert (events c3 = NONE) ''fd_ctx->events == NONE''
                      (Inr (True, s3))))))))))"

subsection \<open>The virtual functions\<close>

definition IOManager_notify :: "'k os \<Rightarrow> ('k, 'z) ios_scheme \<Rightarrow> ('k, 'z) ios_scheme res" where
  "IOManager_notify K s =
     (if \<not> hasIdleThreads s then Inr s
      else let (ret, k) = os_write K (snd (m_notifyFds s)) (kernel s)
           in server_assert (ret = 1) ''ret == 1'' (Inr (s\<lparr>kernel := k\<rparr>)))"

definition IOManager_stopped :: "('k, 'z) ios_scheme \<Rightarrow> bool" where
  "IOManager_stopped s \<longleftrightarrow> Scheduler_stopped s \<and> m_pendingEventCount s = 0"

text \<open>The body of the loop over the events that \<open>epoll_wait\<close> has returned.\<close>

definition real_events :: "32 word \<Rightarrow> event" where
  "real_events w0 =
     (let w = (if w0 AND (EPOLLERR OR EPOLLHUP) \<noteq> 0 then w0 OR (EPOLLIN OR EPOLLOUT) else w0);
          r1 = (if w AND EPOLLIN \<noteq> 0 then NONE OR READ else NONE)
      in if w AND EPOLLOUT \<noteq> 0 then r1 OR WRITE else r1)"

definition process_event ::
    "'k os \<Rightarrow> ('k, 'z) ios_scheme vtable \<Rightarrow> epoll_event \<Rightarrow> ('k, 'z) ios_scheme \<Rightarrow>
     ('k, 'z) ios_scheme res" where
  "process_event K vt e s =
     (case ep_data e of
        DataFd n \<Rightarrow>
          if n = fst (m_notifyFds s) then Inr (s\<lparr>kernel := os_drain K n (kernel s)\<rparr>)
          else Inl (BadAccess ''event.data.ptr'')
      | DataPtr p \<Rightarrow>
          rbind (ctx_at p s) (\<lambda>c.
            let re = real_events (ep_events e) in
            if events c AND re = NONE then Inr s
            else
              let (ret2, s1) = change_mask K (fd c) p (events c AND NOT re) s
              in if ret2 \<noteq> 0 then Inr s1
                 else rbind (trigger_if (re AND READ \<noteq> 0) vt p READ s1)
                        (trigger_if (re AND WRITE \<noteq> 0) vt p WRITE)))"

text \<open>
  One step of \<open>idle\<close>, running as the callback of the fiber \<open>cur\<close>. \<open>swapOut\<close> leaves the fiber in
  state EXEC; \<open>run\<close> turns it into HOLD. \<open>epoll_wait\<close> returns at most 64 events; an interrupted call
  is repeated, an error counts as no event.
\<close>

definition set_pos :: "tid \<Rightarrow> idle_pos \<Rightarrow> ('k, 'z) ios_scheme \<Rightarrow> ('k, 'z) ios_scheme" where
  "set_pos t p s = s\<lparr>idle_pos := (idle_pos s)(t := p)\<rparr>"

definition IOManager_idle ::
    "'k os \<Rightarrow> ('k, 'z) ios_scheme vtable \<Rightarrow> entry \<Rightarrow> faddr \<Rightarrow> tid \<Rightarrow> ('k, 'z) ios_scheme \<Rightarrow>
     ('k, 'z) ios_scheme res" where
  "IOManager_idle K vt e cur t s =
     (case idle_pos s t of
        IdleHead \<Rightarrow>
          if IOManager_stopped s then mainFunc_return e cur t s else Inr (set_pos t IdleWait s)
      | IdleWait \<Rightarrow>
          (case os_epoll_wait K (m_epfd s) (kernel s) of
             (Interrupted, k) \<Rightarrow> Inr (s\<lparr>kernel := k\<rparr>)
           | (Ready es, k) \<Rightarrow> Inr (set_pos t (IdleEvents (take 64 es)) (s\<lparr>kernel := k\<rparr>)))
      | IdleEvents [] \<Rightarrow>
          rbind (getThis t s) (\<lambda>(a, s1).
            Inr (set_cpu t (KYield e cur a SchedulerIdle) (set_pos t IdleHead s1)))
      | IdleEvents (ev # es) \<Rightarrow>
          rbind (process_event K vt ev s) (\<lambda>s1. Inr (set_pos t (IdleEvents es) s1)))"

text \<open>
  \<open>schedule\<close> and \<open>notify\<close> in the class \<open>IOManager\<close> use the first vtable; the second adds \<open>idle\<close>.
\<close>

definition notify_vt :: "'k os \<Rightarrow> ('k, 'z) ios_scheme vtable" where
  "notify_vt K = \<lparr>v_notify = IOManager_notify K, v_stopped = IOManager_stopped,
                   v_idle = (\<lambda>_ _ _ _. Inl (OutsideModel ''idle''))\<rparr>"

definition iomanager_vt :: "'k os \<Rightarrow> ('k, 'z) ios_scheme vtable" where
  "iomanager_vt K = (notify_vt K)\<lparr>v_idle := IOManager_idle K (notify_vt K)\<rparr>"

subsection \<open>The counters of the base class\<close>

text \<open>What the members of \<open>IOManager\<close> hold is nothing to the base class.\<close>

lemma kernel_more: "s\<lparr>kernel := k\<rparr> = sys.more_update (\<lambda>_. sys.more (s\<lparr>kernel := k\<rparr>)) s"
  by (cases s) simp

lemma notify_kernel:
  "IOManager_notify K s = Inr s' \<Longrightarrow> \<exists>k. s' = s\<lparr>kernel := k\<rparr>"
  by (auto simp: IOManager_notify_def split: if_splits prod.splits intro: exI [of _ "kernel s"])

lemma counts_ios [simp]:
  "counts (s\<lparr>kernel := k\<rparr>) = counts s" "counts (put_ctx p c s) = counts s"
  "counts (set_pos t q s) = counts s" "counts (s\<lparr>m_pendingEventCount := n\<rparr>) = counts s"
  by (simp_all add: counts_def put_ctx_def set_pos_def)

lemma vt_sel [simp]:
  "v_notify (notify_vt K) = IOManager_notify K" "v_notify (iomanager_vt K) = IOManager_notify K"
  "v_stopped (iomanager_vt K) = IOManager_stopped"
  "v_idle (iomanager_vt K) = IOManager_idle K (notify_vt K)"
  by (simp_all add: notify_vt_def iomanager_vt_def)

lemma schedule_counts:
  assumes "schedule (notify_vt K) x s = Inr s'"
  shows "counts s' = counts s"
proof -
  have "counts (snd (scheduleNoLock x s)) = counts s"
    by (simp add: scheduleNoLock_def counts_def)
  with assms show ?thesis
    by (auto simp: schedule_def split: if_splits prod.splits dest!: notify_kernel)
qed

lemma triggerEvent_counts: "triggerEvent (notify_vt K) p ev s = Inr s' \<Longrightarrow> counts s' = counts s"
  by (auto simp: triggerEvent_def Let_def split: if_splits prod.splits dest!: schedule_counts)

lemma trigger_if_counts: "trigger_if b (notify_vt K) p ev s = Inr s' \<Longrightarrow> counts s' = counts s"
  by (auto simp: trigger_if_def split: if_splits dest!: triggerEvent_counts)

lemma change_mask_kernel: "change_mask K n p l s = (r, s') \<Longrightarrow> \<exists>k. s' = s\<lparr>kernel := k\<rparr>"
  by (auto simp: change_mask_def split: prod.splits)

lemma process_event_cases:
  assumes "process_event K vt e s = Inr s'"
  obtains (drained) k where "s' = s\<lparr>kernel := k\<rparr>"
  | (nothing) "s' = s"
  | (triggered) p c k s2 where "ep_data e = DataPtr p" "fdctx s p = Some c"
      "events c AND real_events (ep_events e) \<noteq> NONE"
      "trigger_if (real_events (ep_events e) AND READ \<noteq> 0) vt p READ (s\<lparr>kernel := k\<rparr>) = Inr s2"
      "trigger_if (real_events (ep_events e) AND WRITE \<noteq> 0) vt p WRITE s2 = Inr s'"
proof (cases "ep_data e")
  case (DataFd n)
  with assms show thesis by (auto simp: process_event_def split: if_splits intro: drained)
next
  case (DataPtr p)
  let ?re = "real_events (ep_events e)"
  from assms DataPtr obtain c where c: "fdctx s p = Some c"
    and r: "(if events c AND ?re = NONE then Inr s
      else let (ret2, s1) = change_mask K (fd c) p (events c AND NOT ?re) s
           in if ret2 \<noteq> 0 then Inr s1
              else rbind (trigger_if (?re AND READ \<noteq> 0) vt p READ s1)
                     (trigger_if (?re AND WRITE \<noteq> 0) vt p WRITE)) = Inr s'"
    by (auto simp: process_event_def ctx_at_def Let_def split: option.splits)
  obtain ret s1 where m: "change_mask K (fd c) p (events c AND NOT ?re) s = (ret, s1)"
    by (rule prod.exhaust)
  obtain k where s1: "s1 = s\<lparr>kernel := k\<rparr>" using change_mask_kernel [OF m] by blast
  consider "events c AND ?re = NONE" | "events c AND ?re \<noteq> NONE" "ret \<noteq> 0"
    | "events c AND ?re \<noteq> NONE" "ret = 0" by blast
  then show thesis
  proof cases
    case 1
    with r have "s' = s" by simp
    then show thesis by (rule nothing)
  next
    case 2
    with r m s1 have "s' = s\<lparr>kernel := k\<rparr>" by simp
    then show thesis by (rule drained)
  next
    case 3
    with r m have "rbind (trigger_if (?re AND READ \<noteq> 0) vt p READ s1)
        (trigger_if (?re AND WRITE \<noteq> 0) vt p WRITE) = Inr s'" by simp
    then obtain s2 where "trigger_if (?re AND READ \<noteq> 0) vt p READ s1 = Inr s2"
      "trigger_if (?re AND WRITE \<noteq> 0) vt p WRITE s2 = Inr s'" by (rule rbindE)
    with DataPtr c 3 show thesis unfolding s1 by (intro triggered)
  qed
qed

lemma process_event_counts:
  assumes "process_event K (notify_vt K) ev s = Inr s'"
  shows "counts s' = counts s"
  using assms by (cases rule: process_event_cases) (simp_all add: trigger_if_counts)

lemma IOManager_idle_counts:
  assumes "IOManager_idle K (notify_vt K) e cur t s = Inr s'"
  shows "counts s' = counts s"
proof (cases "idle_pos s t")
  case IdleHead
  with assms show ?thesis
    by (auto simp: IOManager_idle_def split: if_splits dest!: counts_ops)
next
  case IdleWait
  with assms show ?thesis
    by (auto simp: IOManager_idle_def split: prod.splits wait_result.splits)
next
  case (IdleEvents es)
  show ?thesis
  proof (cases es)
    case Nil
    with assms IdleEvents show ?thesis
      by (auto simp: IOManager_idle_def dest!: counts_ops)
  next
    case (Cons ev es')
    with assms IdleEvents show ?thesis
      by (auto simp: IOManager_idle_def dest!: process_event_counts)
  qed
qed

interpretation io: virtuals "iomanager_vt K :: ('k, 'z) ios_scheme vtable" for K :: "'k os"
proof
  fix s s' :: "('k, 'z) ios_scheme"
  show "\<exists>m. s' = sys.more_update m s" if "v_notify (iomanager_vt K) s = Inr s'"
  proof -
    from that obtain k where s': "s' = s\<lparr>kernel := k\<rparr>" by (auto dest: notify_kernel)
    then have "s' = sys.more_update (\<lambda>_. sys.more (s\<lparr>kernel := k\<rparr>)) s" using kernel_more by (rule trans)
    then show ?thesis by blast
  qed
  show "counts s' = counts s" if "v_idle (iomanager_vt K) e cur t s = Inr s'" for e cur t
    using that by (auto dest: IOManager_idle_counts)
qed

end
