(* ===== verification/IOEvents.thy ===== *)
theory IOEvents
  imports IOManagers
begin

section \<open>What the IO manager promises\<close>

text \<open>
  Seen from outside, an IO manager is a map from registered events to what waits for them, a fiber
  or a callback: \<open>waiters\<close>. \<open>addEvent\<close> adds an entry, \<open>delEvent\<close> drops it, \<open>cancelEvent\<close>,
  \<open>cancelAll\<close> and the loop of \<open>idle\<close> move it into the queue of the scheduler, and
  \<open>m_pendingEventCount\<close> is its size.
\<close>

definition is_event :: "event \<Rightarrow> bool" where
  "is_event ev \<longleftrightarrow> ev = READ \<or> ev = WRITE"

definition econtext :: "fd_context \<Rightarrow> event \<Rightarrow> event_context" where
  "econtext c ev = (if ev = READ then fc_read c else fc_write c)"

definition registered :: "fd_context \<Rightarrow> event \<Rightarrow> bool" where
  "registered c ev \<longleftrightarrow> is_event ev \<and> events c AND ev \<noteq> 0"

type_synonym waiter = "faddr option + callback"

definition waiter_of :: "event_context \<Rightarrow> waiter" where
  "waiter_of x = (case ec_cb x of Some f \<Rightarrow> Inr f | None \<Rightarrow> Inl (ec_fiber x))"

definition task_of :: "waiter \<Rightarrow> task" where
  "task_of w = (case w of Inr f \<Rightarrow> cb_task f (-1)
                        | Inl a \<Rightarrow> \<lparr>ft_fiber = a, ft_cb = None, ft_thread = -1\<rparr>)"

definition ctx_waiters :: "fd_context \<Rightarrow> event \<rightharpoonup> waiter" where
  "ctx_waiters c = (\<lambda>ev. if registered c ev then Some (waiter_of (econtext c ev)) else None)"

definition waiters :: "('k, 'z) ios_scheme \<Rightarrow> (caddr \<times> event) \<rightharpoonup> waiter" where
  "waiters s = (\<lambda>(p, ev). case fdctx s p of None \<Rightarrow> None | Some c \<Rightarrow> ctx_waiters c ev)"

text \<open>
  \<open>ctx_ok\<close>: no bit but those of READ and WRITE; a context is empty unless its event is registered,
  and then exactly one of its fiber and its callback is there.
\<close>

definition ctx_ok :: "fd_context \<Rightarrow> bool" where
  "ctx_ok c \<longleftrightarrow> events c \<in> {0, 1, 4, 5} \<and>
     (\<forall>ev. is_event ev \<longrightarrow>
        (if registered c ev then (ec_fiber (econtext c ev) = None) \<noteq> (ec_cb (econtext c ev) = None)
         else econtext c ev = empty_context))"

text \<open>
  \<open>io_inv\<close>: every context is well formed, the vector has at index \<open>i\<close> a context of descriptor
  \<open>i\<close>, and \<open>m_pendingEventCount\<close> is the number of registered events.
\<close>

definition io_inv :: "('k, 'z) ios_scheme \<Rightarrow> bool" where
  "io_inv s \<longleftrightarrow> finite (dom (fdctx s)) \<and> (\<forall>p c. fdctx s p = Some c \<longrightarrow> ctx_ok c \<and> p < fdctx_brk s) \<and>
     (\<forall>i < length (m_fdContexts s). \<exists>c. fdctx s (m_fdContexts s ! i) = Some c \<and> fd c = int i) \<and>
     m_pendingEventCount s = of_nat (card (dom (waiters s)))"

subsection \<open>One context\<close>

lemma is_event_simps [simp]: "is_event READ" "is_event WRITE"
  by (simp_all add: is_event_def)

lemma event_bits [simp]: "READ = 1" "WRITE = 4" "NONE = 0"
  by (simp_all add: READ_def WRITE_def NONE_def)

definition unregister :: "event \<Rightarrow> fd_context \<Rightarrow> fd_context" where
  "unregister ev c = putContext ev empty_context (c\<lparr>events := events c AND NOT ev\<rparr>)"

definition register :: "event \<Rightarrow> event_context \<Rightarrow> fd_context \<Rightarrow> fd_context" where
  "register ev x c = putContext ev x (c\<lparr>events := events c OR ev\<rparr>)"

lemma getContext_event: "is_event ev \<Longrightarrow> getContext c ev = Inr (econtext c ev)"
  by (auto simp: is_event_def getContext_def econtext_def)

lemma is_event_cases:
  assumes "is_event ev" obtains "ev = 1" | "ev = 4"
  using assms by (auto simp: is_event_def)

lemma ctx_ok_events: "ctx_ok c \<Longrightarrow> events c \<in> {0, 1, 4, 5}"
  by (simp add: ctx_ok_def)

lemma registered_unregister:
  assumes "ctx_ok c" "is_event ev"
  shows "registered (unregister ev c) e \<longleftrightarrow> e \<noteq> ev \<and> registered c e"
proof -
  have "events c = 0 \<or> events c = 1 \<or> events c = 4 \<or> events c = 5"
    using ctx_ok_events [OF assms(1)] by simp
  then show ?thesis
    using assms(2) by (auto simp: registered_def unregister_def putContext_def is_event_def)
qed

lemma registered_register:
  assumes "ctx_ok c" "is_event ev"
  shows "registered (register ev x c) e \<longleftrightarrow> e = ev \<or> registered c e"
proof -
  have "events c = 0 \<or> events c = 1 \<or> events c = 4 \<or> events c = 5"
    using ctx_ok_events [OF assms(1)] by simp
  then show ?thesis
    using assms(2) by (auto simp: registered_def register_def putContext_def is_event_def)
qed

lemma econtext_put [simp]:
  "is_event ev \<Longrightarrow> is_event e \<Longrightarrow> econtext (putContext ev x c) e = (if e = ev then x else econtext c e)"
  "econtext (c\<lparr>events := w\<rparr>) e = econtext c e"
  by (auto simp: econtext_def putContext_def is_event_def)

lemma events_put [simp]: "events (putContext ev x c) = events c" "fd (putContext ev x c) = fd c"
  by (simp_all add: putContext_def)

lemma ctx_ok_unregister: "ctx_ok c \<Longrightarrow> is_event ev \<Longrightarrow> ctx_ok (unregister ev c)"
proof -
  assume a: "ctx_ok c" "is_event ev"
  have "events (unregister ev c) \<in> {0, 1, 4, 5}"
    using ctx_ok_events [OF a(1)] a(2) by (auto simp: unregister_def is_event_def)
  moreover have "econtext (unregister ev c) e = (if e = ev then empty_context else econtext c e)"
    if "is_event e" for e using a that by (simp add: unregister_def)
  ultimately show ?thesis
    using a by (auto simp: ctx_ok_def registered_unregister)
qed

lemma ctx_ok_register:
  assumes "ctx_ok c" "is_event ev" "(ec_fiber x = None) \<noteq> (ec_cb x = None)"
  shows "ctx_ok (register ev x c)"
proof -
  have "events (register ev x c) \<in> {0, 1, 4, 5}"
    using ctx_ok_events [OF assms(1)] assms(2) by (auto simp: register_def is_event_def)
  moreover have "econtext (register ev x c) e = (if e = ev then x else econtext c e)"
    if "is_event e" for e using assms that by (simp add: register_def)
  ultimately show ?thesis
    using assms by (auto simp: ctx_ok_def registered_register)
qed

lemma ctx_waiters_unregister:
  "ctx_ok c \<Longrightarrow> is_event ev \<Longrightarrow> ctx_waiters (unregister ev c) = (ctx_waiters c)(ev := None)"
  by (rule ext) (simp add: ctx_waiters_def registered_unregister, auto simp: registered_def unregister_def)

lemma ctx_waiters_register:
  "ctx_ok c \<Longrightarrow> is_event ev \<Longrightarrow>
   ctx_waiters (register ev x c) = (ctx_waiters c)(ev \<mapsto> waiter_of x)"
  by (rule ext) (simp add: ctx_waiters_def registered_register, auto simp: registered_def register_def)

subsection \<open>The table\<close>

lemma waiters_put_ctx:
  assumes "fdctx s p = Some c" and "ctx_waiters c' = (ctx_waiters c)(ev := w)"
  shows "waiters (put_ctx p c' s) = (waiters s)((p, ev) := w)"
  using assms by (auto simp: waiters_def put_ctx_def fun_eq_iff)

lemma finite_waiters:
  assumes "finite (dom (fdctx s))" shows "finite (dom (waiters s))"
proof (rule finite_subset)
  show "dom (waiters s) \<subseteq> dom (fdctx s) \<times> {READ, WRITE}"
    by (auto simp: waiters_def ctx_waiters_def registered_def is_event_def split: option.splits if_splits)
  show "finite (dom (fdctx s) \<times> {READ, WRITE})" using assms by simp
qed

lemma card_waiters_upd:
  assumes "finite (dom m)"
  shows "m x = None \<Longrightarrow> card (dom (m(x \<mapsto> w))) = Suc (card (dom m))"
    and "m x \<noteq> None \<Longrightarrow> card (dom m) = Suc (card (dom (m(x := None))))"
proof -
  show "m x = None \<Longrightarrow> card (dom (m(x \<mapsto> w))) = Suc (card (dom m))"
    using assms by (simp add: domIff)
  show "card (dom m) = Suc (card (dom (m(x := None))))" if "m x \<noteq> None"
  proof -
    have "dom (m(x := None)) = dom m - {x}" by auto
    moreover have "x \<in> dom m" using that by auto
    ultimately show ?thesis using assms by (metis card_Suc_Diff1)
  qed
qed

text \<open>The part of the state \<open>io_inv\<close> is about.\<close>

definition iview :: "('k, 'z) ios_scheme \<Rightarrow> (caddr \<Rightarrow> fd_context option) \<times> caddr \<times> caddr list \<times> 64 word" where
  "iview s = (fdctx s, fdctx_brk s, m_fdContexts s, m_pendingEventCount s)"

lemma waiters_iview: "fdctx s' = fdctx s \<Longrightarrow> waiters s' = waiters s"
  by (simp add: waiters_def)

lemma io_inv_iview: "iview s' = iview s \<Longrightarrow> io_inv s' = io_inv s"
  using waiters_iview [of s' s] by (simp add: iview_def io_inv_def)

lemma iview_simps [simp]:
  "iview (s\<lparr>kernel := k\<rparr>) = iview s" "iview (s\<lparr>m_fibers := q\<rparr>) = iview s"
  "iview (set_pos t q' s) = iview s" "iview (put_fiber a f s) = iview s" "iview (set_tls t g s) = iview s"
  by (simp_all add: iview_def set_pos_def put_fiber_def set_tls_def)

lemma io_inv_ctx: "io_inv s \<Longrightarrow> fdctx s p = Some c \<Longrightarrow> ctx_ok c"
  by (simp add: io_inv_def)

lemma waiters_at: "fdctx s p = Some c \<Longrightarrow> waiters s (p, ev) = ctx_waiters c ev"
  by (simp add: waiters_def)

lemma waiters_unregister:
  "io_inv s \<Longrightarrow> fdctx s p = Some c \<Longrightarrow> is_event ev \<Longrightarrow>
   waiters (put_ctx p (unregister ev c) s) = (waiters s)((p, ev) := None)"
  by (simp add: waiters_put_ctx [OF _ ctx_waiters_unregister] io_inv_ctx)

lemma io_inv_put_ctx:
  assumes "io_inv s" "fdctx s p = Some c" "ctx_ok c'" "fd c' = fd c"
    and "n = of_nat (card (dom (waiters (put_ctx p c' s))))"
  shows "io_inv ((put_ctx p c' s)\<lparr>m_pendingEventCount := n\<rparr>)"
proof -
  have w: "waiters ((put_ctx p c' s)\<lparr>m_pendingEventCount := n\<rparr>) = waiters (put_ctx p c' s)"
    by (rule waiters_iview) simp
  have "dom ((fdctx s)(p \<mapsto> c')) = dom (fdctx s)" using assms(2) by auto
  moreover have "\<exists>d. ((fdctx s)(p \<mapsto> c')) (m_fdContexts s ! i) = Some d \<and> fd d = int i"
    if "i < length (m_fdContexts s)" for i
    using assms that by (auto simp: io_inv_def)
  ultimately show ?thesis
    using assms unfolding io_inv_def w by (auto simp: put_ctx_def split: if_splits)
qed

lemma io_inv_unregister:
  assumes inv: "io_inv s" and c: "fdctx s p = Some c" and r: "registered c ev"
  shows "io_inv ((put_ctx p (unregister ev c) s)\<lparr>m_pendingEventCount := m_pendingEventCount s - 1\<rparr>)"
proof (rule io_inv_put_ctx [OF inv c])
  show "fd (unregister ev c) = fd c" by (simp add: unregister_def)
  have ev: "is_event ev" using r by (simp add: registered_def)
  show "ctx_ok (unregister ev c)" using io_inv_ctx [OF inv c] ev by (rule ctx_ok_unregister)
  have "waiters s (p, ev) \<noteq> None" using c r by (simp add: waiters_at ctx_waiters_def)
  moreover have "finite (dom (waiters s))" using inv by (simp add: io_inv_def finite_waiters)
  ultimately have "card (dom (waiters s)) = Suc (card (dom ((waiters s)((p, ev) := None))))"
    by (intro card_waiters_upd)
  then show "m_pendingEventCount s - 1 = of_nat (card (dom (waiters (put_ctx p (unregister ev c) s))))"
    using inv by (simp add: waiters_unregister [OF inv c ev] io_inv_def)
qed

lemma io_inv_register:
  assumes inv: "io_inv s" and c: "fdctx s p = Some c" and ev: "is_event ev" and r: "\<not> registered c ev"
    and x: "(ec_fiber x = None) \<noteq> (ec_cb x = None)"
  shows "io_inv ((put_ctx p (register ev x c) s)\<lparr>m_pendingEventCount := m_pendingEventCount s + 1\<rparr>)"
    and "waiters (put_ctx p (register ev x c) s) = (waiters s)((p, ev) \<mapsto> waiter_of x)"
proof -
  note ok = io_inv_ctx [OF inv c]
  show w: "waiters (put_ctx p (register ev x c) s) = (waiters s)((p, ev) \<mapsto> waiter_of x)"
    by (rule waiters_put_ctx [OF c ctx_waiters_register [OF ok ev]])
  show "io_inv ((put_ctx p (register ev x c) s)\<lparr>m_pendingEventCount := m_pendingEventCount s + 1\<rparr>)"
  proof (rule io_inv_put_ctx [OF inv c ctx_ok_register [OF ok ev x]])
    show "fd (register ev x c) = fd c" by (simp add: register_def)
    have "waiters s (p, ev) = None" using c r by (simp add: waiters_at ctx_waiters_def)
    moreover have "finite (dom (waiters s))" using inv by (simp add: io_inv_def finite_waiters)
    ultimately have "card (dom ((waiters s)((p, ev) \<mapsto> waiter_of x))) = Suc (card (dom (waiters s)))"
      by (intro card_waiters_upd)
    then show "m_pendingEventCount s + 1
        = of_nat (card (dom (waiters (put_ctx p (register ev x c) s))))"
      using inv by (simp add: w io_inv_def)
  qed
qed

subsection \<open>The operations\<close>

text \<open>The pipe takes the byte: what POSIX promises of a \<open>write\<close> of one byte that returns.\<close>

definition notify_works :: "'k os \<Rightarrow> bool" where
  "notify_works K \<longleftrightarrow> (\<forall>n k. fst (os_write K n k) = 1)"

lemma schedule_io:
  assumes "notify_works K" and "ft_fiber x \<noteq> None \<or> ft_cb x \<noteq> None"
  shows "\<exists>k. schedule (notify_vt K) x s = Inr (s\<lparr>m_fibers := m_fibers s @ [x], kernel := k\<rparr>)"
proof -
  have "\<exists>k. IOManager_notify K s1 = Inr (s1\<lparr>kernel := k\<rparr>)" for s1 :: "('a, 'b) ios_scheme"
    using assms(1) by (auto simp: IOManager_notify_def notify_works_def split: prod.split
        intro: exI [of _ "kernel s1"]) (metis fst_conv)
  from this [of "s\<lparr>m_fibers := m_fibers s @ [x]\<rparr>"] show ?thesis
    using assms(2)
    by (auto simp: schedule_def scheduleNoLock_def intro: exI [of _ "kernel s"])
qed

lemma triggerEvent_ok:
  assumes K: "notify_works K" and c: "fdctx s p = Some c" "ctx_ok c" and r: "registered c ev"
    and sch: "ec_scheduler (econtext c ev)"
  shows "\<exists>k. triggerEvent (notify_vt K) p ev s = Inr ((put_ctx p (unregister ev c) s)
    \<lparr>m_fibers := m_fibers s @ [task_of (waiter_of (econtext c ev))], kernel := k\<rparr>)"
proof -
  have ev: "is_event ev" and bit: "events c AND ev \<noteq> 0" using r by (simp_all add: registered_def)
  let ?x = "econtext c ev"
  have xor: "(ec_fiber ?x = None) \<noteq> (ec_cb ?x = None)" using c(2) r ev by (simp add: ctx_ok_def)
  let ?y = "if ec_cb ?x \<noteq> None then ?x\<lparr>ec_cb := None\<rparr> else ?x\<lparr>ec_fiber := None\<rparr>"
  have y: "?y\<lparr>ec_scheduler := False\<rparr> = empty_context"
    using xor by (cases ?x) (auto simp: empty_context_def)
  let ?w = "task_of (waiter_of ?x)"
  have "triggerEvent (notify_vt K) p ev s = schedule (notify_vt K) ?w (put_ctx p (unregister ev c) s)"
    using c bit sch y xor
    by (auto simp: triggerEvent_def ctx_at_def getContext_event [OF ev] task_of_def waiter_of_def
        cb_task_def unregister_def Let_def)
  moreover have "ft_fiber ?w \<noteq> None \<or> ft_cb ?w \<noteq> None"
    using xor by (auto simp: task_of_def waiter_of_def cb_task_def split: option.split)
  ultimately show ?thesis
    using schedule_io [OF K, of ?w "put_ctx p (unregister ev c) s"] by (simp add: put_ctx_def)
qed

subsection \<open>The vector of contexts\<close>

lemma ctx_waiters_new [simp]: "ctx_waiters (new_context n) = Map.empty" "ctx_ok (new_context n)"
  by (auto simp: ctx_waiters_def registered_def new_context_def ctx_ok_def econtext_def)

definition add_context :: "('k, 'z) ios_scheme \<Rightarrow> ('k, 'z) ios_scheme" where
  "add_context s =
     s\<lparr>fdctx := (fdctx s)(fdctx_brk s := Some (new_context (int (length (m_fdContexts s))))),
       m_fdContexts := m_fdContexts s @ [fdctx_brk s], fdctx_brk := Suc (fdctx_brk s)\<rparr>"

lemma add_context_ok:
  assumes "io_inv s"
  shows "waiters (add_context s) = waiters s" and "io_inv (add_context s)"
proof -
  have free: "fdctx s (fdctx_brk s) = None"
    using assms by (metis io_inv_def less_irrefl not_None_eq)
  show w: "waiters (add_context s) = waiters s"
    using free by (auto simp: waiters_def add_context_def fun_eq_iff)
  have "dom (fdctx (add_context s)) = insert (fdctx_brk s) (dom (fdctx s))"
    by (auto simp: add_context_def)
  moreover have "\<exists>c. fdctx (add_context s) (m_fdContexts (add_context s) ! i) = Some c \<and> fd c = int i"
    if "i < length (m_fdContexts (add_context s))" for i
  proof (cases "i < length (m_fdContexts s)")
    case True
    with assms obtain c where c: "fdctx s (m_fdContexts s ! i) = Some c" "fd c = int i"
      by (auto simp: io_inv_def)
    with free have "m_fdContexts s ! i \<noteq> fdctx_brk s" by auto
    with c True show ?thesis by (simp add: add_context_def nth_append)
  next
    case False
    with that have "i = length (m_fdContexts s)" by (simp add: add_context_def)
    then show ?thesis by (simp add: add_context_def new_context_def)
  qed
  ultimately show "io_inv (add_context s)"
    using assms unfolding io_inv_def w by (auto simp: add_context_def less_Suc_eq)
qed

lemma append_contexts_Suc: "append_contexts (Suc n) s = append_contexts n (add_context s)"
  by (simp add: add_context_def)

lemma append_contexts_ok:
  "io_inv s \<Longrightarrow> waiters (append_contexts n s) = waiters s \<and> io_inv (append_contexts n s) \<and>
   m_fdContexts (append_contexts n s) = m_fdContexts s @ [fdctx_brk s ..< fdctx_brk s + n]"
proof (induction n arbitrary: s)
  case 0
  then show ?case by simp
next
  case (Suc n)
  have "m_fdContexts (add_context s) = m_fdContexts s @ [fdctx_brk s]"
    "fdctx_brk (add_context s) = Suc (fdctx_brk s)" by (simp_all add: add_context_def)
  with Suc.IH [OF add_context_ok(2) [OF Suc.prems]] add_context_ok(1) [OF Suc.prems] show ?case
    by (simp add: append_contexts_Suc upt_conv_Cons del: append_contexts.simps)
qed

lemma append_contexts_frame:
  "m_fibers (append_contexts n s) = m_fibers s" "kernel (append_contexts n s) = kernel s"
  "m_epfd (append_contexts n s) = m_epfd s" "heap (append_contexts n s) = heap s"
  "tls (append_contexts n s) = tls s"
  by (induction n arbitrary: s) simp_all

text \<open>The vector grows, and no context is lost, when \<open>addEvent\<close> finds it too short.\<close>

lemma contextResize_grow:
  assumes inv: "io_inv s" and n: "length (m_fdContexts s) \<le> nat n" "2 \<le> n"
  shows "\<exists>p c. slot n (contextResize (nat (n * 3 div 2)) s) = Inr p \<and>
    fdctx (contextResize (nat (n * 3 div 2)) s) p = Some c \<and> waiters s (p, ev) = None \<and>
    waiters (contextResize (nat (n * 3 div 2)) s) = waiters s \<and>
    io_inv (contextResize (nat (n * 3 div 2)) s)"
proof -
  let ?m = "nat (n * 3 div 2)" and ?l = "length (m_fdContexts s)"
  let ?s = "append_contexts (?m - ?l) s"
  have lt: "nat n < ?m" using n(2) by linarith
  have r: "contextResize ?m s = ?s" using lt n by (simp add: contextResize_def)
  note ok = append_contexts_ok [OF inv, of "?m - ?l"]
  have len: "length (m_fdContexts ?s) = ?m" using ok lt n by simp
  let ?p = "m_fdContexts ?s ! nat n"
  have sl: "slot n ?s = Inr ?p" using lt n by (simp add: slot_def len)
  have p: "?p = fdctx_brk s + (nat n - ?l)" using ok lt n by (simp add: nth_append)
  then have "fdctx s ?p = None"
    using inv by (metis io_inv_def le_add1 not_le not_None_eq)
  then have w: "waiters s (?p, ev) = None" by (simp add: waiters_def)
  obtain c where "fdctx ?s ?p = Some c" using ok len lt by (metis io_inv_def)
  with sl w ok show ?thesis unfolding r by blast
qed

end
