(* ===== verification/IOSpecs.thy ===== *)
theory IOSpecs
  imports IOEvents
begin

section \<open>Specifications of the event operations\<close>

text \<open>
  Each operation of the interface as a change of \<open>waiters\<close> and of the scheduler's queue. The kernel
  is any \<open>os\<close>; that a call of \<open>epoll_ctl\<close> succeeds or fails is a case or a hypothesis.
\<close>

text \<open>What \<open>addEvent\<close> makes wait: the callback, or the fiber that runs.\<close>

definition new_waiter :: "tid \<Rightarrow> callback option \<Rightarrow> ('k, 'z) ios_scheme \<Rightarrow> waiter" where
  "new_waiter t cb s = (case cb of Some f \<Rightarrow> Inr f | None \<Rightarrow> Inl (t_fiber (tls s t)))"

definition can_wait :: "tid \<Rightarrow> callback option \<Rightarrow> ('k, 'z) ios_scheme \<Rightarrow> bool" where
  "can_wait t cb s \<longleftrightarrow> cb \<noteq> None \<or>
     (\<exists>a f. t_fiber (tls s t) = Some a \<and> heap s a = Some f \<and> m_state f = State_EXEC)"

text \<open>What \<open>epoll_ctl\<close> answers, whatever the operation and the mask.\<close>

definition ctl_fails :: "'k os \<Rightarrow> int \<Rightarrow> ('k, 'z) ios_scheme \<Rightarrow> bool" where
  "ctl_fails K n s \<longleftrightarrow> (\<exists>op e. fst (os_epoll_ctl K (m_epfd s) op n e (kernel s)) \<noteq> 0)"

lemma addEvent_register_ok:
  assumes inv: "io_inv s" and c: "fdctx s p = Some c" and ev: "is_event ev"
    and free: "waiters s (p, ev) = None" and cb: "can_wait t cb s"
  shows "\<exists>r s'. addEvent_register K t n ev cb p s = Inr (r, s') \<and> io_inv s' \<and>
    m_fdContexts s' = m_fdContexts s \<and> m_fibers s' = m_fibers s \<and>
    (if r = 0 then waiters s' = (waiters s)((p, ev) \<mapsto> new_waiter t cb s)
     else r = -1 \<and> waiters s' = waiters s \<and> ctl_fails K n s)"
proof -
  note ok = io_inv_ctx [OF inv c]
  have nr: "\<not> registered c ev" using free c by (simp add: waiters_at ctx_waiters_def split: if_splits)
  then have bit: "events c AND ev = 0" using ev by (simp add: registered_def)
  have emp: "econtext c ev = empty_context" using ok nr ev by (simp add: ctx_ok_def)
  let ?op = "if events c \<noteq> 0 then EPOLL_CTL_MOD else EPOLL_CTL_ADD"
  let ?e = "\<lparr>ep_events = EPOLLET OR events c OR ev, ep_data = DataPtr p\<rparr>"
  obtain ret k where ctl: "os_epoll_ctl K (m_epfd s) ?op n ?e (kernel s) = (ret, k)" by (rule prod.exhaust)
  show ?thesis
  proof (cases "ret = 0")
    case False
    let ?s' = "s\<lparr>kernel := k\<rparr>"
    have "addEvent_register K t n ev cb p s = Inr (-1, ?s')"
      using c bit ctl False by (simp add: addEvent_register_def ctx_at_def Let_def)
    moreover have "io_inv ?s'" using inv io_inv_iview [of ?s' s] by simp
    moreover have "waiters ?s' = waiters s" by (rule waiters_iview) simp
    moreover have "ctl_fails K n s" unfolding ctl_fails_def using ctl False by (metis fst_conv)
    ultimately show ?thesis by (intro exI [of _ "-1"] exI [of _ ?s']) simp
  next
    case True
    let ?x = "empty_context\<lparr>ec_scheduler := t_scheduler (tls s t), ec_cb := cb,
        ec_fiber := (if cb = None then t_fiber (tls s t) else None)\<rparr>"
    let ?s' = "(put_ctx p (register ev ?x c) s)\<lparr>m_pendingEventCount := m_pendingEventCount s + 1, kernel := k\<rparr>"
    have "addEvent_register K t n ev cb p s = Inr (0, ?s')"
    proof (cases cb)
      case None
      with cb obtain a f where f: "t_fiber (tls s t) = Some a" "heap s a = Some f" "m_state f = State_EXEC"
        by (auto simp: can_wait_def)
      then show ?thesis
        using c bit ctl True None
        by (simp add: addEvent_register_def ctx_at_def Let_def getContext_event [OF ev] emp
            empty_context_def getThis_def fiber_at_def register_def put_ctx_def)
    next
      case (Some g)
      then show ?thesis
        using c bit ctl True
        by (simp add: addEvent_register_def ctx_at_def Let_def getContext_event [OF ev] emp
            empty_context_def register_def put_ctx_def)
    qed
    moreover have x: "(ec_fiber ?x = None) \<noteq> (ec_cb ?x = None)"
      using cb by (auto simp: can_wait_def)
    moreover have "io_inv ?s'"
    proof (subst io_inv_iview)
      show "iview ?s' = iview ((put_ctx p (register ev ?x c) s)\<lparr>m_pendingEventCount := m_pendingEventCount s + 1\<rparr>)"
        by (simp add: iview_def)
    qed (rule io_inv_register(1) [OF inv c ev nr x])
    moreover have "waiters ?s' = (waiters s)((p, ev) \<mapsto> new_waiter t cb s)"
    proof -
      have "waiters ?s' = waiters (put_ctx p (register ev ?x c) s)" by (rule waiters_iview) simp
      moreover have "waiter_of ?x = new_waiter t cb s"
        by (auto simp: waiter_of_def new_waiter_def split: option.split)
      ultimately show ?thesis using io_inv_register(2) [OF inv c ev nr x] by simp
    qed
    ultimately show ?thesis by (intro exI [of _ 0] exI [of _ ?s']) (simp add: put_ctx_def)
  qed
qed

lemma int_size_eq: "length (m_fdContexts s) < 2 ^ 31 \<Longrightarrow> int_size s = int (length (m_fdContexts s))"
  by (simp add: int_size_def signed_of_nat signed_take_bit_int_eq_self)

text \<open>\<open>slot\<close> succeeds exactly below the length of the vector, on a context of that descriptor.\<close>

lemma slot_ok:
  assumes "io_inv s" "0 \<le> n" "nat n < length (m_fdContexts s)"
  obtains p c where "slot n s = Inr p" "fdctx s p = Some c" "fd c = n" "ctx_ok c"
proof -
  from assms obtain c where c: "fdctx s (m_fdContexts s ! nat n) = Some c" "fd c = int (nat n)"
    by (auto simp: io_inv_def)
  with assms have "ctx_ok c" by (auto dest: io_inv_ctx)
  with c assms show thesis by (intro that [of "m_fdContexts s ! nat n" c]) (simp_all add: slot_def)
qed

lemma slot_cong: "m_fdContexts s' = m_fdContexts s \<Longrightarrow> slot n s' = slot n s"
  by (simp add: slot_def)

text \<open>The waiter of a descriptor's event.\<close>

definition waiting :: "int \<Rightarrow> event \<Rightarrow> ('k, 'z) ios_scheme \<Rightarrow> waiter option" where
  "waiting n ev s = (case slot n s of Inl _ \<Rightarrow> None | Inr p \<Rightarrow> waiters s (p, ev))"

lemma waiting_at: "slot n s = Inr p \<Longrightarrow> fdctx s p = Some c \<Longrightarrow> waiting n ev s = ctx_waiters c ev"
  by (simp add: waiting_def waiters_at)

lemma ctx_waiters_None: "ctx_waiters c ev = None \<longleftrightarrow> \<not> registered c ev"
  by (simp add: ctx_waiters_def)

text \<open>The kernel accepts every change of descriptor \<open>n\<close>.\<close>

abbreviation ctl_works :: "'k os \<Rightarrow> int \<Rightarrow> ('k, 'z) ios_scheme \<Rightarrow> bool" where
  "ctl_works K n s \<equiv> \<not> ctl_fails K n s"

lemma is_event_num [simp]: "is_event 1" "is_event 4"
  by (simp_all add: is_event_def)

subsection \<open>An example\<close>

text \<open>
  A kernel that grants everything, and an IO manager with the 32 contexts of its constructor, made
  on thread 7, where fiber 1 runs; \<open>demo_wait\<close> has a reader on descriptor 3.
\<close>

definition demo_os :: "unit os" where
  "demo_os = \<lparr>os_epoll_create = (\<lambda>k. (5, k)), os_pipe = (\<lambda>k. (0, (6, 7), k)),
     os_nonblock = (\<lambda>_ k. (0, k)), os_epoll_ctl = (\<lambda>_ _ _ _ k. (0, k)),
     os_epoll_wait = (\<lambda>_ k. (Ready [], k)), os_write = (\<lambda>_ k. (1, k)), os_drain = (\<lambda>_ k. k),
     os_close = (\<lambda>_ k. k)\<rparr>"

definition demo_io :: "unit ios" where
  "demo_io = (fresh_iomanager () (set_tls 7 (\<lambda>l. l\<lparr>t_scheduler := True\<rparr>) demo_proc))\<lparr>
     fdctx := (\<lambda>p. if p < 32 then Some (new_context (int p)) else None), fdctx_brk := 32,
     m_fdContexts := [0..<32]\<rparr>"

lemma fd_new_context [simp]: "fd (new_context n) = n"
  by (simp add: new_context_def)

definition demo_reader :: event_context where
  "demo_reader = empty_context\<lparr>ec_scheduler := True, ec_cb := Some (Client [])\<rparr>"

definition demo_wait :: "unit ios" where
  "demo_wait = (put_ctx 3 (register READ demo_reader (new_context 3)) demo_io)\<lparr>
     m_pendingEventCount := m_pendingEventCount demo_io + 1\<rparr>"

definition demo_both :: "unit ios" where
  "demo_both = (put_ctx 3 (register WRITE demo_reader (register READ demo_reader (new_context 3)))
     demo_wait)\<lparr>m_pendingEventCount := m_pendingEventCount demo_wait + 1\<rparr>"

lemma demo_os_works: "ctl_works demo_os n s" "notify_works demo_os"
  by (simp_all add: ctl_fails_def notify_works_def demo_os_def)

lemma io_inv_demo: "io_inv demo_io"
proof -
  have d: "dom (fdctx demo_io) = {..<32}" by (auto simp: demo_io_def split: if_splits)
  have w: "waiters demo_io = Map.empty"
    by (auto simp: waiters_def demo_io_def fun_eq_iff)
  show ?thesis
    unfolding io_inv_def d w
    by (auto simp: demo_io_def fresh_iomanager_def sys.defs split: if_splits)
qed

lemma demo_io_ctx: "fdctx demo_io 3 = Some (new_context 3)" "slot 3 demo_io = Inr 3"
    "length (m_fdContexts demo_io) = 32" "m_fibers demo_io = []"
  by (simp_all add: demo_io_def slot_def fresh_iomanager_def fresh_scheduler_def sys.defs proc.defs)

lemma not_registered_new [simp]: "\<not> registered (new_context n) ev"
  by (simp add: registered_def new_context_def)

lemma demo_reader_ok: "(ec_fiber demo_reader = None) \<noteq> (ec_cb demo_reader = None)"
  by (simp add: demo_reader_def empty_context_def)

lemma io_inv_demo_wait: "io_inv demo_wait"
  unfolding demo_wait_def
  by (rule io_inv_register(1) [OF io_inv_demo demo_io_ctx(1) _ _ demo_reader_ok]) simp_all

lemma demo_wait_ctx: "fdctx demo_wait 3 = Some (register READ demo_reader (new_context 3))"
    "slot 3 demo_wait = Inr 3" "length (m_fdContexts demo_wait) = 32" "m_fibers demo_wait = []"
  using demo_io_ctx by (simp_all add: demo_wait_def slot_def put_ctx_def)

lemma econtext_register:
  "is_event ev \<Longrightarrow> is_event e \<Longrightarrow> econtext (register ev x c) e = (if e = ev then x else econtext c e)"
  by (simp add: register_def)

lemma io_inv_demo_both: "io_inv demo_both"
  unfolding demo_both_def
  by (rule io_inv_register(1) [OF io_inv_demo_wait demo_wait_ctx(1) _ _ demo_reader_ok])
    (simp_all add: registered_register del: event_bits, simp add: READ_def WRITE_def)

lemma demo_both_ctx:
  "fdctx demo_both 3 = Some (register WRITE demo_reader (register READ demo_reader (new_context 3)))"
    "slot 3 demo_both = Inr 3" "length (m_fdContexts demo_both) = 32" "m_fibers demo_both = []"
  using demo_wait_ctx by (simp_all add: demo_both_def slot_def put_ctx_def)

lemma demo_waiting:
  "waiting 3 e demo_wait = (if e = READ then Some (Inr (Client [])) else None)"
  "waiting 3 e demo_both = (if is_event e then Some (Inr (Client [])) else None)"
proof -
  have o: "ctx_ok (register READ demo_reader (new_context 3))"
    by (rule ctx_ok_register [OF _ _ demo_reader_ok]) simp_all
  have w: "waiter_of demo_reader = Inr (Client [])"
    by (simp add: waiter_of_def demo_reader_def empty_context_def)
  show "waiting 3 e demo_wait = (if e = READ then Some (Inr (Client [])) else None)"
    unfolding waiting_at [OF demo_wait_ctx(2,1)]
    by (simp add: ctx_waiters_register w del: event_bits)
  show "waiting 3 e demo_both = (if is_event e then Some (Inr (Client [])) else None)"
    unfolding waiting_at [OF demo_both_ctx(2,1)]
    by (simp add: ctx_waiters_register [OF o] ctx_waiters_register w is_event_def del: event_bits)
qed

text \<open>
  C13. \<open>addEvent\<close> for an event nobody waits for yet returns 0 or -1. When it returns 0, the callback
  (or, without one, the fiber that runs) waits for the event, nothing else has changed in the table
  and \<open>m_pendingEventCount\<close> still is the number of waiters; when it returns -1, \<open>epoll_ctl\<close> has
  failed and the table is as before. The vector of contexts grows when the descriptor is beyond it.
\<close>

theorem addEvent_spec:
  assumes inv: "io_inv s" and len: "32 \<le> length (m_fdContexts s)" "length (m_fdContexts s) < 2 ^ 31"
    and n: "0 \<le> n" and ev: "is_event ev" and free: "waiting n ev s = None" and cb: "can_wait t cb s"
  shows "\<exists>p r s'. addEvent K t n ev cb s = Inr (r, s') \<and> slot n s' = Inr p \<and> io_inv s' \<and>
    m_fibers s' = m_fibers s \<and>
    (if r = 0 then waiters s' = (waiters s)((p, ev) \<mapsto> new_waiter t cb s)
     else r = -1 \<and> waiters s' = waiters s \<and> ctl_fails K n s)"
proof (cases "n < int_size s")
  case True
  with n len have "nat n < length (m_fdContexts s)" by (simp add: int_size_eq nat_less_iff)
  with inv n obtain p c where p: "slot n s = Inr p" "fdctx s p = Some c" by (rule slot_ok)
  with free have "waiters s (p, ev) = None" by (simp add: waiting_def)
  from addEvent_register_ok [OF inv p(2) ev this cb, of K n] obtain r s' where
    r: "addEvent_register K t n ev cb p s = Inr (r, s')" "io_inv s'" "m_fdContexts s' = m_fdContexts s"
      "m_fibers s' = m_fibers s" "if r = 0 then waiters s' = (waiters s)((p, ev) \<mapsto> new_waiter t cb s)
     else r = -1 \<and> waiters s' = waiters s \<and> ctl_fails K n s" by blast
  have "slot n s' = Inr p" using p(1) slot_cong [OF r(3)] by simp
  moreover have "addEvent K t n ev cb s = Inr (r, s')"
    using True p r(1) by (simp add: addEvent_def addEvent_find_def)
  ultimately show ?thesis using r by blast
next
  case False
  with n len have l: "length (m_fdContexts s) \<le> nat n" "2 \<le> n" by (simp_all add: int_size_eq le_nat_iff)
  let ?g = "contextResize (nat (n * 3 div 2)) s"
  from contextResize_grow [OF inv l, of ev] obtain p c where
    p: "slot n ?g = Inr p" "fdctx ?g p = Some c" "waiters s (p, ev) = None" "waiters ?g = waiters s"
      "io_inv ?g" by blast
  have fr: "m_fibers ?g = m_fibers s" "kernel ?g = kernel s" "m_epfd ?g = m_epfd s"
    "heap ?g = heap s" "tls ?g = tls s"
    by (simp_all add: contextResize_def append_contexts_frame)
  have cb': "can_wait t cb ?g" using cb by (simp add: can_wait_def fr)
  have eqs: "new_waiter t cb ?g = new_waiter t cb s" "ctl_fails K n ?g = ctl_fails K n s"
    by (simp_all add: new_waiter_def ctl_fails_def fr split: option.split)
  from addEvent_register_ok [OF p(5,2) ev _ cb', of K n, unfolded p(4) eqs fr, OF p(3)] obtain r s' where
    r: "addEvent_register K t n ev cb p ?g = Inr (r, s')" "io_inv s'" "m_fdContexts s' = m_fdContexts ?g"
      "m_fibers s' = m_fibers s" "if r = 0 then waiters s' = (waiters s)((p, ev) \<mapsto> new_waiter t cb s)
     else r = -1 \<and> waiters s' = waiters s \<and> ctl_fails K n s" by blast
  have "slot n s' = Inr p" using p(1) slot_cong [OF r(3)] by simp
  moreover have "addEvent K t n ev cb s = Inr (r, s')"
    using False p(1) r(1) by (simp add: addEvent_def addEvent_find_def addEvent_grow_def Let_def)
  ultimately show ?thesis using r by blast
qed

theorem addEvent_spec_witness:
  "\<exists>s'. addEvent demo_os 7 3 READ (Some (Client [])) demo_io = Inr (0, s') \<and>
     waiting 3 READ s' = Some (Inr (Client []))"
proof -
  have "waiting 3 READ demo_io = None" by (simp add: waiting_at [OF demo_io_ctx(2,1)] ctx_waiters_None)
  moreover have "can_wait 7 (Some (Client [])) demo_io" by (simp add: can_wait_def)
  ultimately show ?thesis
    using addEvent_spec [OF io_inv_demo, of 3 READ 7 "Some (Client [])" demo_os]
    by (auto simp: demo_io_ctx demo_os_works waiting_def new_waiter_def split: if_splits)
qed

lemma ios_frame:
  "waiters (s\<lparr>m_fibers := q\<rparr>) = waiters s" "waiters (s\<lparr>kernel := k\<rparr>) = waiters s"
  "waiters (s\<lparr>m_pendingEventCount := m\<rparr>) = waiters s" "slot n (s\<lparr>m_fibers := q\<rparr>) = slot n s"
  "slot n (s\<lparr>kernel := k\<rparr>) = slot n s" "slot n (s\<lparr>m_pendingEventCount := m\<rparr>) = slot n s"
  "slot n (put_ctx p c s) = slot n s"
  by (simp_all add: waiters_def slot_def put_ctx_def)

lemma change_mask_works:
  assumes "ctl_works K n s"
  shows "\<exists>k. change_mask K n p w s = (0, s\<lparr>kernel := k\<rparr>)"
  using assms
  by (cases "os_epoll_ctl K (m_epfd s) (if w \<noteq> 0 then EPOLL_CTL_MOD else EPOLL_CTL_DEL) n
      \<lparr>ep_events = EPOLLET OR w, ep_data = DataPtr p\<rparr> (kernel s)")
    (auto simp: ctl_fails_def change_mask_def, metis fst_conv)

lemma waiting_slot:
  assumes "io_inv s" "waiting n ev s = Some w"
  obtains p c where "slot n s = Inr p" "fdctx s p = Some c" "registered c ev" "ctx_ok c"
    "w = waiter_of (econtext c ev)" "0 \<le> n" "nat n < length (m_fdContexts s)" "fd c = n"
proof -
  from assms(2) obtain p c where p: "slot n s = Inr p" "fdctx s p = Some c" "registered c ev"
    "w = waiter_of (econtext c ev)"
    by (auto simp: waiting_def waiters_def ctx_waiters_def split: sum.splits option.splits if_splits)
  have n: "0 \<le> n" "nat n < length (m_fdContexts s)" "p = m_fdContexts s ! nat n"
    using p(1) by (auto simp: slot_def split: if_splits)
  with assms(1) p have "fd c = n" by (force simp: io_inv_def)
  from that [OF p(1-3) io_inv_ctx [OF assms(1) p(2)] p(4) n(1,2) this] show thesis .
qed

text \<open>A well-formed context with no registered event has no bit set.\<close>

lemma no_events: "ctx_ok c \<Longrightarrow> \<forall>e. \<not> registered c e \<Longrightarrow> events c = 0"
proof -
  assume ok: "ctx_ok c" and no: "\<forall>e. \<not> registered c e"
  from no have "events c AND READ = 0" "events c AND WRITE = 0"
    unfolding registered_def by (metis is_event_simps(1), metis is_event_simps(2))
  then show "events c = 0" using ctx_ok_events [OF ok] by auto
qed

lemma below_size:
  "length (m_fdContexts s) < 2 ^ 31 \<Longrightarrow> 0 \<le> n \<Longrightarrow> nat n < length (m_fdContexts s) \<Longrightarrow> n < int_size s"
  by (simp add: int_size_eq nat_less_iff)

lemma event_of_registered: "registered c ev \<Longrightarrow> is_event ev \<and> events c AND ev \<noteq> 0"
  by (simp add: registered_def)

lemma or_nonzero: "events c AND ev \<noteq> 0 \<Longrightarrow> events c OR ev \<noteq> 0" for ev :: event
  by (auto simp: or_eq_0_iff)

lemma delEvent_removes:
  assumes p: "slot n s = Inr p" "fdctx s p = Some c" "registered c ev"
    and n: "length (m_fdContexts s) < 2 ^ 31" "0 \<le> n" "nat n < length (m_fdContexts s)" and K: "ctl_works K n s"
  shows "\<exists>k. delEvent K n ev s = Inr (True, (put_ctx p (unregister ev c) s)
    \<lparr>m_pendingEventCount := m_pendingEventCount s - 1, kernel := k\<rparr>)"
proof -
  note ev = event_of_registered [OF p(3)]
  from change_mask_works [OF K, of p "events c AND NOT ev"] obtain k where
    k: "change_mask K n p (events c AND NOT ev) s = (0, s\<lparr>kernel := k\<rparr>)" by blast
  have "resetContext (econtext c ev) = empty_context" by (simp add: resetContext_def empty_context_def)
  then show ?thesis
    using p k below_size [OF n] ev or_nonzero [of c ev]
    by (intro exI [of _ k])
      (simp add: delEvent_def ctx_at_def Let_def getContext_event unregister_def put_ctx_def)
qed

text \<open>
  \<open>delEvent\<close> for an event something waits for drops exactly that waiter, without scheduling
  it, counts one pending event less and answers true.
\<close>

theorem delEvent_spec:
  assumes inv: "io_inv s" and len: "length (m_fdContexts s) < 2 ^ 31"
    and w: "waiting n ev s = Some w" and K: "ctl_works K n s"
  shows "\<exists>p s'. delEvent K n ev s = Inr (True, s') \<and> slot n s = Inr p \<and> io_inv s' \<and>
    waiters s' = (waiters s)((p, ev) := None) \<and> m_fibers s' = m_fibers s"
proof -
  from waiting_slot [OF inv w] obtain p c where p: "slot n s = Inr p" "fdctx s p = Some c"
    and c: "registered c ev" "ctx_ok c" and n: "0 \<le> n" "nat n < length (m_fdContexts s)" by metis
  note ev = event_of_registered [OF c(1)]
  let ?u = "(put_ctx p (unregister ev c) s)\<lparr>m_pendingEventCount := m_pendingEventCount s - 1\<rparr>"
  from delEvent_removes [OF p c(1) len n K] obtain k where "delEvent K n ev s = Inr (True, ?u\<lparr>kernel := k\<rparr>)" by auto
  moreover have "io_inv (?u\<lparr>kernel := k\<rparr>)"
    using io_inv_unregister [OF inv p(2) c(1)] io_inv_iview [of "?u\<lparr>kernel := k\<rparr>" ?u] by simp
  moreover have "waiters (?u\<lparr>kernel := k\<rparr>) = (waiters s)((p, ev) := None)"
    using waiters_unregister [OF inv p(2)] ev by (simp add: ios_frame)
  ultimately show ?thesis using p by (intro exI [of _ p] exI [of _ "?u\<lparr>kernel := k\<rparr>"]) (simp add: put_ctx_def)
qed

theorem delEvent_spec_witness:
  "\<exists>s'. delEvent demo_os 3 READ demo_wait = Inr (True, s') \<and> waiters s' (3, READ) = None"
  using delEvent_spec [OF io_inv_demo_wait, of 3 READ "Inr (Client [])" demo_os]
  by (auto simp: demo_wait_ctx demo_waiting demo_os_works)

text \<open>
  \<open>cancelEvent\<close> for the only event registered on a descriptor moves its waiter to the end of the
  scheduler's queue, once, and counts one pending event less.
\<close>

theorem cancelEvent_spec:
  assumes inv: "io_inv s" and len: "length (m_fdContexts s) < 2 ^ 31"
    and w: "waiting n ev s = Some w" and K: "ctl_works K n s" "notify_works K"
    and only: "\<forall>e. e \<noteq> ev \<longrightarrow> waiting n e s = None"
    and sch: "\<forall>p c. slot n s = Inr p \<longrightarrow> fdctx s p = Some c \<longrightarrow> ec_scheduler (econtext c ev)"
  shows "\<exists>p s'. cancelEvent K (notify_vt K) n ev s = Inr (True, s') \<and> slot n s = Inr p \<and> io_inv s' \<and>
    waiters s' = (waiters s)((p, ev) := None) \<and> m_fibers s' = m_fibers s @ [task_of w]"
proof -
  from waiting_slot [OF inv w] obtain p c where p: "slot n s = Inr p" "fdctx s p = Some c"
    and c: "registered c ev" "ctx_ok c" and n: "0 \<le> n" "nat n < length (m_fdContexts s)"
    and w': "w = waiter_of (econtext c ev)" by metis
  note ev = event_of_registered [OF c(1)]
  from change_mask_works [OF K(1), of p "events c AND NOT ev"] obtain k where
    k: "change_mask K n p (events c AND NOT ev) s = (0, s\<lparr>kernel := k\<rparr>)" by blast
  from triggerEvent_ok [OF K(2), of "s\<lparr>kernel := k\<rparr>" p c ev] p c sch obtain k2 where
    t: "triggerEvent (notify_vt K) p ev (s\<lparr>kernel := k\<rparr>)
      = Inr ((put_ctx p (unregister ev c) s)\<lparr>m_fibers := m_fibers s @ [task_of w], kernel := k2\<rparr>)"
    by (auto simp: w' put_ctx_def)
  have none: "events (unregister ev c) = 0"
  proof -
    have "\<not> registered c e" if "e \<noteq> ev" for e
      using only that by (simp add: waiting_at [OF p] ctx_waiters_None)
    then have "\<forall>e. \<not> registered (unregister ev c) e"
      using ev registered_unregister [OF c(2)] by blast
    with ctx_ok_unregister [OF c(2)] ev show ?thesis by (blast intro: no_events)
  qed
  let ?u = "(put_ctx p (unregister ev c) s)\<lparr>m_pendingEventCount := m_pendingEventCount s - 1\<rparr>"
  let ?s' = "?u\<lparr>m_fibers := m_fibers s @ [task_of w], kernel := k2\<rparr>"
  have "cancelEvent K (notify_vt K) n ev s = Inr (True, ?s')"
    using p k t none below_size [OF len n] ev
    by (simp add: cancelEvent_def ctx_at_def Let_def put_ctx_def)
  moreover have "io_inv ?s'"
    using io_inv_unregister [OF inv p(2) c(1)] io_inv_iview [of ?s' ?u] by simp
  moreover have "waiters ?s' = (waiters s)((p, ev) := None)"
    using waiters_unregister [OF inv p(2)] ev by (simp add: ios_frame)
  ultimately show ?thesis using p by (intro exI [of _ p] exI [of _ ?s']) (simp add: put_ctx_def)
qed

theorem cancelEvent_spec_witness:
  "\<exists>s'. cancelEvent demo_os (notify_vt demo_os) 3 READ demo_wait = Inr (True, s') \<and>
     m_fibers s' = [cb_task (Client []) (-1)]"
  using cancelEvent_spec [OF io_inv_demo_wait, of 3 READ "Inr (Client [])" demo_os]
  by (auto simp: demo_wait_ctx demo_waiting demo_os_works econtext_register demo_reader_def task_of_def)

subsection \<open>Several events of one descriptor\<close>

text \<open>One round of triggering: with \<open>b\<close> the waiter moves to the queue, without it nothing happens.\<close>

definition task_list :: "waiter option \<Rightarrow> task list" where
  "task_list w = (case w of None \<Rightarrow> [] | Some x \<Rightarrow> [task_of x])"

lemma trigger_if_ok:
  assumes K: "notify_works K" and inv: "io_inv s" and c: "fdctx s p = Some c"
    and b: "b \<Longrightarrow> registered c ev \<and> ec_scheduler (econtext c ev)"
  shows "\<exists>s' c'. trigger_if b (notify_vt K) p ev s = Inr s' \<and> io_inv s' \<and>
    waiters s' = (if b then (waiters s)((p, ev) := None) else waiters s) \<and>
    m_fibers s' = m_fibers s @ (if b then task_list (waiters s (p, ev)) else []) \<and>
    fdctx s' p = Some c' \<and> m_fdContexts s' = m_fdContexts s \<and>
    (\<forall>e. is_event e \<longrightarrow> e \<noteq> ev \<longrightarrow> (registered c' e = registered c e) \<and> econtext c' e = econtext c e)"
proof (cases b)
  case False
  with inv c show ?thesis by (simp add: trigger_if_def)
next
  case True
  with b have r: "registered c ev" and sch: "ec_scheduler (econtext c ev)" by simp_all
  have ev: "is_event ev" using r by (simp add: registered_def)
  note ok = io_inv_ctx [OF inv c]
  let ?w = "waiter_of (econtext c ev)"
  from triggerEvent_ok [OF K c ok r sch] obtain k where
    t: "triggerEvent (notify_vt K) p ev s = Inr ((put_ctx p (unregister ev c) s)
      \<lparr>m_fibers := m_fibers s @ [task_of ?w], kernel := k\<rparr>)" by blast
  let ?u = "(put_ctx p (unregister ev c) s)\<lparr>m_pendingEventCount := m_pendingEventCount s - 1\<rparr>"
  let ?s' = "?u\<lparr>m_fibers := m_fibers s @ [task_of ?w], kernel := k\<rparr>"
  have "trigger_if b (notify_vt K) p ev s = Inr ?s'"
    using True t by (simp add: trigger_if_def put_ctx_def)
  moreover have "io_inv ?s'"
    using io_inv_unregister [OF inv c r] io_inv_iview [of ?s' ?u] by simp
  moreover have "waiters ?s' = (waiters s)((p, ev) := None)"
    using waiters_unregister [OF inv c ev] by (simp add: ios_frame)
  moreover have "waiters s (p, ev) = Some ?w" using r by (simp add: waiters_at [OF c] ctx_waiters_def)
  moreover have "fdctx ?s' p = Some (unregister ev c)" by (simp add: put_ctx_def)
  moreover have "econtext (unregister ev c) e = econtext c e" if "is_event e" "e \<noteq> ev" for e
    using that ev by (simp add: unregister_def)
  ultimately show ?thesis
    using True ev registered_unregister [OF ok ev]
    by (intro exI [of _ ?s'] exI [of _ "unregister ev c"]) (simp add: task_list_def put_ctx_def)
qed

text \<open>When the condition is that the event is registered, the waiter moves if there is one.\<close>

lemma trigger_registered:
  assumes K: "notify_works K" and inv: "io_inv s" and c: "fdctx s p = Some c" and ev: "is_event ev"
    and sch: "registered c ev \<Longrightarrow> ec_scheduler (econtext c ev)"
  shows "\<exists>s' c'. trigger_if (events c AND ev \<noteq> 0) (notify_vt K) p ev s = Inr s' \<and> io_inv s' \<and>
    waiters s' = (waiters s)((p, ev) := None) \<and>
    m_fibers s' = m_fibers s @ task_list (waiters s (p, ev)) \<and> fdctx s' p = Some c' \<and>
    (\<forall>e. is_event e \<longrightarrow> e \<noteq> ev \<longrightarrow> (registered c' e = registered c e) \<and> econtext c' e = econtext c e)"
proof -
  have b: "(events c AND ev \<noteq> 0) = registered c ev" using ev by (simp add: registered_def)
  have none: "(waiters s)((p, ev) := None) = waiters s \<and> task_list (waiters s (p, ev)) = []"
    if "\<not> registered c ev"
  proof -
    have "waiters s (p, ev) = None" using that by (simp add: waiters_at [OF c] ctx_waiters_None)
    then show ?thesis by (auto simp: task_list_def)
  qed
  show ?thesis
    using trigger_if_ok [OF K inv c, of "registered c ev" ev] sch none unfolding b
    by (cases "registered c ev") auto
qed

text \<open>
  \<open>cancelAll\<close> on a descriptor with registered events moves every waiter of the descriptor to the
  queue, the reader before the writer, and leaves the other descriptors alone.
\<close>

theorem cancelAll_spec:
  assumes inv: "io_inv s" and len: "length (m_fdContexts s) < 2 ^ 31"
    and w: "waiting n ev s \<noteq> None" and K: "ctl_works K n s" "notify_works K"
    and sch: "\<forall>p c e. slot n s = Inr p \<longrightarrow> fdctx s p = Some c \<longrightarrow> registered c e \<longrightarrow> ec_scheduler (econtext c e)"
  shows "\<exists>p s'. cancelAll K (notify_vt K) n s = Inr (True, s') \<and> slot n s = Inr p \<and> io_inv s' \<and>
    waiters s' = (waiters s)((p, READ) := None, (p, WRITE) := None) \<and>
    m_fibers s' = m_fibers s @ task_list (waiting n READ s) @ task_list (waiting n WRITE s)"
proof -
  from w obtain w' where "waiting n ev s = Some w'" by auto
  from waiting_slot [OF inv this] obtain p c where p: "slot n s = Inr p" "fdctx s p = Some c"
    and c: "registered c ev" "ctx_ok c" and n: "0 \<le> n" "nat n < length (m_fdContexts s)" by metis
  have nz: "events c \<noteq> 0" using event_of_registered [OF c(1)] by auto
  obtain ret k where k: "os_epoll_ctl K (m_epfd s) EPOLL_CTL_DEL n
      \<lparr>ep_events = 0, ep_data = DataPtr p\<rparr> (kernel s) = (ret, k)" by (rule prod.exhaust)
  then have ret: "ret = 0" using K(1) by (metis ctl_fails_def fst_conv)
  let ?s1 = "s\<lparr>kernel := k\<rparr>"
  have inv1: "io_inv ?s1" using inv io_inv_iview [of ?s1 s] by simp
  have sc: "registered c e \<Longrightarrow> ec_scheduler (econtext c e)" for e using sch p by blast
  have f1: "fdctx ?s1 p = Some c" using p by simp
  from trigger_registered [OF K(2) inv1 f1 is_event_simps(1) sc] obtain s2 c2 where
    s2: "trigger_if (events c AND READ \<noteq> 0) (notify_vt K) p READ ?s1 = Inr s2" "io_inv s2"
      "waiters s2 = (waiters ?s1)((p, READ) := None)"
      "m_fibers s2 = m_fibers ?s1 @ task_list (waiters ?s1 (p, READ))" "fdctx s2 p = Some c2"
      and same: "\<forall>e. is_event e \<longrightarrow> e \<noteq> READ \<longrightarrow> (registered c2 e = registered c e) \<and> econtext c2 e = econtext c e"
    by blast
  have "registered c2 WRITE \<Longrightarrow> ec_scheduler (econtext c2 WRITE)"
    using same sc by simp
  from trigger_registered [OF K(2) s2(2,5) is_event_simps(2) this] obtain s3 c3 where
    s3: "trigger_if (events c2 AND WRITE \<noteq> 0) (notify_vt K) p WRITE s2 = Inr s3" "io_inv s3"
      "waiters s3 = (waiters s2)((p, WRITE) := None)"
      "m_fibers s3 = m_fibers s2 @ task_list (waiters s2 (p, WRITE))" "fdctx s3 p = Some c3" by blast
  have w3: "waiters s3 = (waiters s)((p, READ) := None, (p, WRITE) := None)"
    by (simp only: s3(3) s2(3) ios_frame)
  then have "waiters s3 (p, READ) = None" "waiters s3 (p, WRITE) = None" by simp_all
  then have "\<forall>e. is_event e \<longrightarrow> \<not> registered c3 e"
    unfolding waiters_at [OF s3(5)] ctx_waiters_None by (auto simp: is_event_def)
  then have ev3: "events c3 = 0"
    using io_inv_ctx [OF s3(2,5)] by (intro no_events) (auto simp: registered_def)
  have fib: "m_fibers s3 = m_fibers s @ task_list (waiting n READ s) @ task_list (waiting n WRITE s)"
    by (simp add: s3(4) s2(4) s2(3) ios_frame waiting_def p)
  have "cancelAll K (notify_vt K) n s = Inr (True, s3)"
    using p nz k ret s2(1,5) s3(1,5) ev3 below_size [OF len n]
    by (simp add: cancelAll_def ctx_at_def)
  with w3 fib p s3(2) show ?thesis by (intro exI [of _ p] exI [of _ s3] conjI)
qed

theorem cancelAll_spec_witness:
  "\<exists>s'. cancelAll demo_os (notify_vt demo_os) 3 demo_both = Inr (True, s') \<and>
     m_fibers s' = [cb_task (Client []) (-1), cb_task (Client []) (-1)]"
proof -
  have "ec_scheduler (econtext c e)" if "fdctx demo_both 3 = Some c" "registered c e" for c e
    using that demo_both_ctx(1) by (auto simp: econtext_def register_def putContext_def demo_reader_def)
  then show ?thesis
    using cancelAll_spec [OF io_inv_demo_both, of 3 READ demo_os]
    by (auto simp: demo_both_ctx(2-) demo_waiting demo_os_works task_of_def task_list_def)
qed

text \<open>The conditions an event reports.\<close>

definition hit :: "epoll_event \<Rightarrow> event \<Rightarrow> bool" where
  "hit e ev \<longleftrightarrow> is_event ev \<and> real_events (ep_events e) AND ev \<noteq> 0"



end
