(* ===== verification/IOFaults.thy ===== *)
theory IOFaults
  imports IOSpecs
begin

section \<open>The IO manager where it goes wrong, and its place in the scheduler\<close>

text \<open>
  The guards of the event operations that let a wrong call through or stop a right one, each as a
  theorem over all states in which it happens, and what the counters of the base class mean when
  the object is an IO manager.
\<close>

text \<open>
  C33. \<open>delEvent\<close> for an event that is not registered, on a descriptor where the other one is,
  passes its guard: it answers true, removes nothing and counts one pending event less, so
  \<open>m_pendingEventCount\<close> is no longer the number of waiters. When the other event was the only one,
  the IO manager can stop while a fiber or a callback still waits.
\<close>

theorem delEvent_unregistered:
  assumes inv: "io_inv s" and len: "length (m_fdContexts s) < 2 ^ 31"
    and w: "waiting n other s = Some w" and ev: "is_event ev" "waiting n ev s = None"
    and K: "ctl_works K n s"
  shows "\<exists>s'. delEvent K n ev s = Inr (True, s') \<and> waiters s' = waiters s \<and>
    m_pendingEventCount s' = m_pendingEventCount s - 1 \<and> \<not> io_inv s' \<and>
    (card (dom (waiters s)) = 1 \<and> Scheduler_stopped s \<longrightarrow>
       \<not> IOManager_stopped s \<and> IOManager_stopped s')"
proof -
  from waiting_slot [OF inv w] obtain p c where p: "slot n s = Inr p" "fdctx s p = Some c"
    and c: "registered c other" "ctx_ok c" and n: "0 \<le> n" "nat n < length (m_fdContexts s)" by metis
  have nr: "\<not> registered c ev" using ev(2) by (simp add: waiting_at [OF p] ctx_waiters_None)
  then have bit: "events c AND ev = 0" using ev(1) by (simp add: registered_def)
  have emp: "econtext c ev = empty_context" using c(2) nr ev(1) by (simp add: ctx_ok_def)
  have nz: "events c OR ev \<noteq> 0" using event_of_registered [OF c(1)] by (auto simp: or_eq_0_iff)
  have mask: "events c AND NOT ev = events c"
    using bit ctx_ok_events [OF c(2)] ev(1) by (auto simp: is_event_def)
  from change_mask_works [OF K, of p "events c AND NOT ev"] obtain k where
    k: "change_mask K n p (events c AND NOT ev) s = (0, s\<lparr>kernel := k\<rparr>)" by blast
  have put: "putContext ev (resetContext (econtext c ev)) (c\<lparr>events := events c\<rparr>) = c"
    using ev(1) emp
    by (auto simp: putContext_def resetContext_def empty_context_def econtext_def is_event_def)
  let ?s' = "(put_ctx p c s)\<lparr>m_pendingEventCount := m_pendingEventCount s - 1, kernel := k\<rparr>"
  have "delEvent K n ev s = Inr (True, ?s')"
    using p k nz below_size [OF len n] put
    by (simp add: delEvent_def ctx_at_def Let_def getContext_event [OF ev(1)] mask put_ctx_def)
  moreover have w': "waiters ?s' = waiters s"
  proof -
    have "put_ctx p c s = s" using p(2) by (simp add: put_ctx_def fun_upd_idem)
    then show ?thesis by (simp add: ios_frame)
  qed
  moreover have "\<not> io_inv ?s'"
    using inv unfolding io_inv_def w' by simp
  moreover have "card (dom (waiters s)) = 1 \<Longrightarrow> m_pendingEventCount s = 1"
    using inv by (simp add: io_inv_def)
  ultimately show ?thesis
    by (intro exI [of _ ?s'])
      (auto simp: IOManager_stopped_def Scheduler_stopped_def put_ctx_def)
qed

theorem delEvent_unregistered_witness:
  "\<exists>s'. delEvent demo_os 3 WRITE demo_wait = Inr (True, s') \<and> waiters s' (3, READ) \<noteq> None \<and>
     m_pendingEventCount s' = 0"
proof -
  have "m_pendingEventCount demo_wait = 1"
    by (simp add: demo_wait_def demo_io_def fresh_iomanager_def sys.defs)
  moreover have "waiters demo_wait (3, READ) \<noteq> None"
    using demo_waiting(1) [of READ] by (simp add: waiting_def demo_wait_ctx(2))
  ultimately show ?thesis
    using delEvent_unregistered [OF io_inv_demo_wait, of 3 READ "Inr (Client [])" WRITE demo_os]
    by (auto simp: demo_wait_ctx demo_waiting demo_os_works)
qed

text \<open>
  C34. \<open>cancelEvent\<close> works only on a descriptor with a single registered event: with both
  registered it triggers the one it was asked for and then aborts.
\<close>

theorem cancelEvent_aborts:
  assumes inv: "io_inv s" and len: "length (m_fdContexts s) < 2 ^ 31"
    and w: "waiting n ev s = Some w" "waiting n other s = Some w2" "other \<noteq> ev"
    and K: "ctl_works K n s" "notify_works K"
    and sch: "\<forall>p c. slot n s = Inr p \<longrightarrow> fdctx s p = Some c \<longrightarrow> ec_scheduler (econtext c ev)"
  shows "cancelEvent K (notify_vt K) n ev s = Inl (AssertionFailed ''fd_ctx->events == NONE'')"
proof -
  from waiting_slot [OF inv w(1)] obtain p c where p: "slot n s = Inr p" "fdctx s p = Some c"
    and c: "registered c ev" "ctx_ok c" and n: "0 \<le> n" "nat n < length (m_fdContexts s)" by metis
  note ev = event_of_registered [OF c(1)]
  from change_mask_works [OF K(1), of p "events c AND NOT ev"] obtain k where
    k: "change_mask K n p (events c AND NOT ev) s = (0, s\<lparr>kernel := k\<rparr>)" by blast
  have s1: "fdctx (s\<lparr>kernel := k\<rparr>) p = Some c" "ec_scheduler (econtext c ev)" using p sch by auto
  from triggerEvent_ok [OF K(2) s1(1) c(2,1) s1(2)] obtain k2 q where
    t: "triggerEvent (notify_vt K) p ev (s\<lparr>kernel := k\<rparr>)
      = Inr ((put_ctx p (unregister ev c) s)\<lparr>m_fibers := q, kernel := k2\<rparr>)"
    by (auto simp: put_ctx_def)
  have "registered c other"
    using w(2) ctx_waiters_None [of c other] by (simp add: waiting_at [OF p])
  then have "registered (unregister ev c) other"
    using registered_unregister [OF c(2)] ev w(3) by blast
  then have "events (unregister ev c) \<noteq> 0" by (auto simp: registered_def)
  then show ?thesis
    using p k t below_size [OF len n] ev
    by (simp add: cancelEvent_def ctx_at_def Let_def put_ctx_def)
qed

theorem cancelEvent_aborts_witness:
  "cancelEvent demo_os (notify_vt demo_os) 3 READ demo_both
     = Inl (AssertionFailed ''fd_ctx->events == NONE'')"
proof -
  have "ec_scheduler (econtext c READ)" if "fdctx demo_both 3 = Some c" for c
    using that demo_both_ctx(1) by (auto simp: econtext_def register_def putContext_def demo_reader_def)
  then show ?thesis
    using cancelEvent_aborts [OF io_inv_demo_both, of 3 READ "Inr (Client [])" WRITE "Inr (Client [])" demo_os]
    by (simp add: demo_both_ctx(2-) demo_waiting demo_os_works)
qed

text \<open>
  C35. \<open>cancelAll\<close> lets the descriptor equal to the size of the vector through and reads past its
  end, where \<open>delEvent\<close> and \<open>cancelEvent\<close> answer false.
\<close>

theorem cancelAll_off_by_one:
  assumes "length (m_fdContexts s) < 2 ^ 31" and n: "n = int (length (m_fdContexts s))"
  shows "cancelAll K vt n s = Inl (BadAccess ''m_fdContexts[fd]'') \<and>
    delEvent K n ev s = Inr (False, s) \<and> cancelEvent K vt n ev s = Inr (False, s)"
  using assms(1) unfolding n
  by (simp add: cancelAll_def delEvent_def cancelEvent_def int_size_eq slot_def)

theorem cancelAll_off_by_one_witness:
  "cancelAll demo_os (notify_vt demo_os) 32 demo_io = Inl (BadAccess ''m_fdContexts[fd]'')"
  using cancelAll_off_by_one [of demo_io 32 demo_os "notify_vt demo_os" READ] by (simp add: demo_io_ctx)

lemma real_events_hangup:
  assumes "w AND (EPOLLERR OR EPOLLHUP) \<noteq> 0"
  shows "real_events w = READ OR WRITE"
proof -
  have "(w OR (EPOLLIN OR EPOLLOUT)) AND EPOLLIN \<noteq> 0" "(w OR (EPOLLIN OR EPOLLOUT)) AND EPOLLOUT \<noteq> 0"
    by (simp_all add: bit.conj_disj_distrib2 or_eq_0_iff EPOLLIN_def EPOLLOUT_def)
  with assms show ?thesis by (simp add: real_events_def Let_def)
qed

lemma triggerEvent_unregistered:
  "fdctx s p = Some c \<Longrightarrow> events c AND ev = 0 \<Longrightarrow>
   triggerEvent vt p ev s = Inl (AssertionFailed ''events & event'')"
  by (simp add: triggerEvent_def ctx_at_def)

text \<open>
  \<open>idle\<close> triggers what is reported, registered or not: a report of both conditions needs both waiters.
\<close>

lemma unmasked_report_aborts:
  assumes inv: "io_inv s" and d: "ep_data e = DataPtr p" and re: "real_events (ep_events e) = READ OR WRITE"
    and c: "fdctx s p = Some c" "registered c READ \<noteq> registered c WRITE"
    and sch: "\<forall>ev. registered c ev \<longrightarrow> ec_scheduler (econtext c ev)"
    and K: "ctl_works K (fd c) s" "notify_works K"
  shows "process_event K (notify_vt K) e s = Inl (AssertionFailed ''events & event'')"
proof -
  have bits: "registered c 1 \<longleftrightarrow> events c AND 1 \<noteq> 0" "registered c 4 \<longleftrightarrow> events c AND 4 \<noteq> 0"
    by (simp_all add: registered_def)
  have ok: "ctx_ok c" by (rule io_inv_ctx [OF inv c(1)])
  have nz: "events c AND (READ OR WRITE) \<noteq> 0"
    using c(2) ctx_ok_events [OF ok] by (auto simp: bits)
  let ?w = "events c AND NOT (READ OR WRITE)"
  from change_mask_works [OF K(1), of p ?w] obtain k where
    k: "change_mask K (fd c) p ?w s = (0, s\<lparr>kernel := k\<rparr>)" by blast
  let ?s1 = "s\<lparr>kernel := k\<rparr>"
  have step: "process_event K (notify_vt K) e s =
      rbind (trigger_if True (notify_vt K) p READ ?s1) (trigger_if True (notify_vt K) p WRITE)"
    using d c(1) nz k by (simp add: process_event_def ctx_at_def Let_def re)
  have f1: "fdctx ?s1 p = Some c" using c by simp
  show ?thesis
  proof (cases "registered c READ")
    case False
    with bits have "events c AND READ = 0" by simp
    then show ?thesis
      unfolding step trigger_if_def by (simp add: triggerEvent_unregistered [OF f1])
  next
    case True
    with c(2) have nw: "\<not> registered c WRITE" by simp
    from True sch have "ec_scheduler (econtext c READ)" by blast
    from triggerEvent_ok [OF K(2) f1 ok True this] obtain k2 q where
      t: "triggerEvent (notify_vt K) p READ ?s1
        = Inr ((put_ctx p (unregister READ c) ?s1)\<lparr>m_fibers := q, kernel := k2\<rparr>)" by blast
    have "\<not> registered (unregister READ c) WRITE"
      using nw registered_unregister [OF ok, of READ] by simp
    then have "events (unregister READ c) AND WRITE = 0" by (simp add: registered_def)
    then show ?thesis
      unfolding step trigger_if_def using t
      by (simp add: triggerEvent_unregistered [where c = "unregister READ c"] put_ctx_def)
  qed
qed

text \<open>
  C36. A hang-up or an error on a descriptor where only one event is registered aborts the process:
  \<open>idle\<close> turns it into both events and triggers the one nobody waits for.
\<close>

theorem hangup_aborts:
  assumes inv: "io_inv s" and d: "ep_data e = DataPtr p" "ep_events e AND (EPOLLERR OR EPOLLHUP) \<noteq> 0"
    and c: "fdctx s p = Some c" "registered c READ \<noteq> registered c WRITE"
    and sch: "\<forall>ev. registered c ev \<longrightarrow> ec_scheduler (econtext c ev)"
    and K: "ctl_works K (fd c) s" "notify_works K"
  shows "process_event K (notify_vt K) e s = Inl (AssertionFailed ''events & event'')"
  by (rule unmasked_report_aborts [OF inv d(1) real_events_hangup [OF d(2)] c sch K])

theorem hangup_aborts_witness:
  "process_event demo_os (notify_vt demo_os)
     \<lparr>ep_events = EPOLLIN OR EPOLLHUP, ep_data = DataPtr 3\<rparr> demo_wait
   = Inl (AssertionFailed ''events & event'')"
proof (rule hangup_aborts [OF io_inv_demo_wait _ _ demo_wait_ctx(1) _ _ demo_os_works])
  let ?c = "register READ demo_reader (new_context 3)"
  have r: "registered ?c e \<longleftrightarrow> e = READ" for e by (simp add: registered_register)
  show "registered ?c READ \<noteq> registered ?c WRITE" unfolding r by simp
  show "\<forall>ev. registered ?c ev \<longrightarrow> ec_scheduler (econtext ?c ev)"
    unfolding r by (simp add: econtext_register demo_reader_def)
qed (simp_all add: EPOLLIN_def EPOLLERR_def EPOLLHUP_def)

text \<open>
  The same happens without a hang-up when \<open>delEvent\<close> comes between the \<open>epoll_wait\<close> of a thread and
  its treatment of the report: the thread has fetched a report of both conditions, for which both
  events were registered, the client removes one of them, which succeeds, and the report then aborts
  the process.
\<close>

theorem stale_report_aborts:
  fixes s :: "('k, 'z) ios_scheme"
  assumes inv: "io_inv s" and len: "length (m_fdContexts s) < 2 ^ 31"
    and w: "\<forall>ev. is_event ev \<longrightarrow> waiting n ev s \<noteq> None" and ev: "is_event ev"
    and p: "slot n s = Inr p" "fdctx s p = Some c"
    and e: "ep_data e = DataPtr p" "ep_events e AND EPOLLIN \<noteq> 0" "ep_events e AND EPOLLOUT \<noteq> 0"
    and sch: "\<forall>ev. is_event ev \<longrightarrow> ec_scheduler (econtext c ev)"
    and K: "\<forall>s1 :: ('k, 'z) ios_scheme. ctl_works K n s1" "notify_works K"
  shows "\<exists>s'. delEvent K n ev s = Inr (True, s') \<and> io_inv s' \<and>
    process_event K (notify_vt K) e s' = Inl (AssertionFailed ''events & event'')"
proof -
  have reg: "registered c ev'" if "is_event ev'" for ev'
    using w that by (auto simp: waiting_at [OF p] ctx_waiters_None)
  from w ev obtain x where "waiting n ev s = Some x" by blast
  from waiting_slot [OF inv this] p have n: "0 \<le> n" "nat n < length (m_fdContexts s)" and fd: "fd c = n"
    and ok: "ctx_ok c" by (metis option.inject sum.inject(2))+
  let ?c = "unregister ev c"
  let ?u = "(put_ctx p ?c s)\<lparr>m_pendingEventCount := m_pendingEventCount s - 1\<rparr>"
  from delEvent_removes [OF p reg [OF ev] len n] K(1) obtain k where
    d: "delEvent K n ev s = Inr (True, ?u\<lparr>kernel := k\<rparr>)" by auto
  have inv': "io_inv (?u\<lparr>kernel := k\<rparr>)"
    using io_inv_unregister [OF inv p(2) reg [OF ev]] io_inv_iview [of "?u\<lparr>kernel := k\<rparr>" ?u] by simp
  have r: "registered ?c e' \<longleftrightarrow> e' \<noteq> ev \<and> is_event e'" for e'
    using registered_unregister [OF ok ev] reg event_of_registered [of c e'] by blast
  have re: "real_events (ep_events e) = READ OR WRITE"
    using e(2,3) real_events_hangup [of "ep_events e"]
    by (cases "ep_events e AND (EPOLLERR OR EPOLLHUP) = 0") (simp_all add: real_events_def Let_def)
  have one: "registered ?c READ \<noteq> registered ?c WRITE" unfolding r using ev by (auto simp: is_event_def)
  have sch': "\<forall>e'. registered ?c e' \<longrightarrow> ec_scheduler (econtext ?c e')"
    using sch ev unfolding r by (auto simp: econtext_def unregister_def putContext_def is_event_def)
  have fd': "fd ?c = n" using fd by (simp add: unregister_def putContext_def)
  have c': "fdctx (?u\<lparr>kernel := k\<rparr>) p = Some ?c" by (simp add: put_ctx_def)
  have K': "ctl_works K (fd ?c) (?u\<lparr>kernel := k\<rparr>)" unfolding fd' using K(1) by blast
  from unmasked_report_aborts [OF inv' e(1) re c' one sch' K' K(2)] d inv' show ?thesis by blast
qed

theorem stale_report_aborts_witness:
  "\<exists>s'. delEvent demo_os 3 READ demo_both = Inr (True, s') \<and>
     process_event demo_os (notify_vt demo_os) \<lparr>ep_events = EPOLLIN OR EPOLLOUT, ep_data = DataPtr 3\<rparr> s'
     = Inl (AssertionFailed ''events & event'')"
proof -
  let ?c = "register WRITE demo_reader (register READ demo_reader (new_context 3))"
  have "\<forall>ev. is_event ev \<longrightarrow> ec_scheduler (econtext ?c ev)"
    by (auto simp: econtext_def register_def putContext_def demo_reader_def is_event_def)
  from stale_report_aborts [OF io_inv_demo_both _ _ _ demo_both_ctx(2,1) _ _ _ this, of READ
      "\<lparr>ep_events = EPOLLIN OR EPOLLOUT, ep_data = DataPtr 3\<rparr>" demo_os]
  show ?thesis
    by (auto simp: demo_both_ctx demo_waiting demo_os_works EPOLLIN_def EPOLLOUT_def is_event_def)
qed

text \<open>
  \<open>addEvent\<close> on a thread that has no scheduler stores a null one: the call answers 0, and
  cancelling the event afterwards follows the null pointer.
\<close>

theorem addEvent_without_scheduler:
  fixes s :: "('k, 'z) ios_scheme"
  assumes inv: "io_inv s" and len: "length (m_fdContexts s) < 2 ^ 31"
    and n: "0 \<le> n" "nat n < length (m_fdContexts s)" and ev: "is_event ev"
    and free: "waiting n ev s = None" and t: "\<not> t_scheduler (tls s t)"
    and K: "\<forall>s1 :: ('k, 'z) ios_scheme. ctl_works K n s1"
  shows "\<exists>s'. addEvent K t n ev (Some f) s = Inr (0, s') \<and> waiting n ev s' = Some (Inr f) \<and>
    cancelEvent K (notify_vt K) n ev s' = Inl (BadAccess ''null Scheduler*'')"
proof -
  from inv n obtain p c where p: "slot n s = Inr p" "fdctx s p = Some c" and ok: "ctx_ok c"
    by (rule slot_ok)
  have nr: "\<not> registered c ev" using free by (simp add: waiting_at [OF p] ctx_waiters_None)
  then have bit: "events c AND ev = 0" using ev by (simp add: registered_def)
  have emp: "econtext c ev = empty_context" using ok nr ev by (simp add: ctx_ok_def)
  let ?op = "if events c \<noteq> 0 then EPOLL_CTL_MOD else EPOLL_CTL_ADD"
  obtain ret k where ctl: "os_epoll_ctl K (m_epfd s) ?op n
      \<lparr>ep_events = EPOLLET OR events c OR ev, ep_data = DataPtr p\<rparr> (kernel s) = (ret, k)"
    by (rule prod.exhaust)
  from K have "ctl_works K n s" by blast
  with ctl have ret: "ret = 0" by (metis ctl_fails_def fst_conv)
  let ?x = "empty_context\<lparr>ec_cb := Some f\<rparr>"
  let ?c = "register ev ?x c"
  let ?s' = "(put_ctx p ?c s)\<lparr>m_pendingEventCount := m_pendingEventCount s + 1, kernel := k\<rparr>"
  have "addEvent_register K t n ev (Some f) p s = Inr (0, ?s')"
    using p(2) bit ctl ret t
    by (simp add: addEvent_register_def ctx_at_def Let_def
        getContext_event [OF ev] emp empty_context_def register_def put_ctx_def)
  then have add: "addEvent K t n ev (Some f) s = Inr (0, ?s')"
    using p(1) below_size [OF len n] by (simp add: addEvent_def addEvent_find_def)
  have p': "slot n ?s' = Inr p" "fdctx ?s' p = Some ?c" using p(1) by (simp_all add: ios_frame, simp add: put_ctx_def)
  have reg: "registered ?c ev" using registered_register [OF ok ev] by simp
  have "waiting n ev ?s' = Some (Inr f)"
    unfolding waiting_at [OF p'] using ev
    by (simp add: ctx_waiters_register [OF ok] waiter_of_def)
  moreover have "cancelEvent K (notify_vt K) n ev ?s' = Inl (BadAccess ''null Scheduler*'')"
  proof -
    from change_mask_works [of K n ?s' p "events ?c AND NOT ev"] K obtain k2 where
      k2: "change_mask K n p (events ?c AND NOT ev) ?s' = (0, ?s'\<lparr>kernel := k2\<rparr>)" by blast
    have nb: "events ?c AND ev \<noteq> 0" using reg by (simp add: registered_def)
    have x: "econtext ?c ev = ?x" using ev by (simp add: econtext_register)
    have "n < int_size ?s'" using below_size [OF len n] by (simp add: int_size_def put_ctx_def)
    moreover have "triggerEvent (notify_vt K) p ev (?s'\<lparr>kernel := k2\<rparr>) = Inl (BadAccess ''null Scheduler*'')"
      using p'(2) nb x by (simp add: triggerEvent_def ctx_at_def getContext_event [OF ev] empty_context_def)
    ultimately show ?thesis
      using p' nb k2 by (simp add: cancelEvent_def ctx_at_def Let_def)
  qed
  ultimately show ?thesis using add by blast
qed

theorem addEvent_without_scheduler_witness:
  "\<exists>s'. addEvent demo_os 9 3 READ (Some (Client [])) demo_io = Inr (0, s') \<and>
     cancelEvent demo_os (notify_vt demo_os) 3 READ s' = Inl (BadAccess ''null Scheduler*'')"
proof -
  have "\<not> t_scheduler (tls demo_io 9)"
    by (simp add: demo_io_def fresh_iomanager_def fresh_scheduler_def sys.defs proc.defs demo_proc_def init_tls_def)
  moreover have "waiting 3 READ demo_io = None" by (simp add: waiting_at [OF demo_io_ctx(2,1)] ctx_waiters_None)
  ultimately show ?thesis
    using addEvent_without_scheduler [OF io_inv_demo, of 3 READ 9 demo_os "Client []"]
    by (auto simp: demo_io_ctx demo_os_works)
qed

text \<open>
  C37. Two calls of \<open>addEvent\<close> that both found the vector too short grow it one after the other:
  when the second wants less than the first, it cuts the vector back. The descriptor of the first
  is then beyond the end, although something waits on its context.
\<close>

theorem grow_race_loses_context:
  assumes inv: "io_inv s" and big: "length (m_fdContexts s) \<le> nat n" "2 \<le> n"
    and small: "0 \<le> m" "m * 3 div 2 \<le> n"
  shows "\<exists>p s1. addEvent_grow n s = Inr (p, s1) \<and> slot n s1 = Inr p \<and>
    (\<forall>r. addEvent_grow m s1 = Inr r \<longrightarrow>
       slot n (snd r) = Inl (BadAccess ''m_fdContexts[fd]'') \<and> fdctx (snd r) p = fdctx s1 p)"
proof -
  let ?g = "contextResize (nat (n * 3 div 2)) s"
  from contextResize_grow [OF inv big, of READ] obtain p c where
    p: "slot n ?g = Inr p" "fdctx ?g p = Some c" by blast
  have len: "length (m_fdContexts ?g) = nat (n * 3 div 2)"
  proof -
    have "\<not> nat (n * 3 div 2) \<le> length (m_fdContexts s)" using big by linarith
    then show ?thesis
      using append_contexts_ok [OF inv] by (simp add: contextResize_def)
  qed
  have le: "nat (m * 3 div 2) \<le> nat (n * 3 div 2)" using small big by linarith
  let ?h = "contextResize (nat (m * 3 div 2)) ?g"
  have h: "?h = ?g\<lparr>m_fdContexts := take (nat (m * 3 div 2)) (m_fdContexts ?g)\<rparr>"
    using le len by (simp add: contextResize_def)
  have "slot n ?h = Inl (BadAccess ''m_fdContexts[fd]'')"
    unfolding h slot_def using small le len by simp
  moreover have "fdctx ?h p = fdctx ?g p" by (simp add: h)
  moreover have "addEvent_grow n s = Inr (p, ?g)"
    using p(1) by (simp add: addEvent_grow_def Let_def)
  ultimately show ?thesis
    using p(1) by (intro exI [of _ p] exI [of _ ?g]) (auto simp: addEvent_grow_def Let_def)
qed

theorem grow_race_loses_context_witness:
  "\<exists>p s1 s2 q. addEvent_grow 100 demo_io = Inr (p, s1) \<and> slot 100 s1 = Inr p \<and>
     addEvent_grow 40 s1 = Inr (q, s2) \<and> slot 100 s2 = Inl (BadAccess ''m_fdContexts[fd]'')"
proof -
  from grow_race_loses_context [OF io_inv_demo, of 100 40] obtain p s1 where
    s1: "addEvent_grow 100 demo_io = Inr (p, s1)" "slot 100 s1 = Inr p"
    and r: "\<And>r. addEvent_grow 40 s1 = Inr r \<Longrightarrow> slot 100 (snd r) = Inl (BadAccess ''m_fdContexts[fd]'')"
    by (auto simp: demo_io_ctx)
  have "length (m_fdContexts s1) = 150"
    using s1(1) append_contexts_ok [OF io_inv_demo, of 118]
    by (auto simp: addEvent_grow_def Let_def contextResize_def demo_io_ctx)
  then have "slot 40 (contextResize 60 s1) = Inr (m_fdContexts s1 ! 40)"
    by (simp add: contextResize_def slot_def)
  then have "addEvent_grow 40 s1 = Inr (m_fdContexts s1 ! 40, contextResize 60 s1)"
    by (simp add: addEvent_grow_def Let_def)
  with s1 r [OF this] show ?thesis by auto
qed

subsection \<open>The counters of the scheduler\<close>

lemma counters_ok_IOManager_new:
  assumes new: "IOManager_new K t threads useCaller name tids (fresh_iomanager k p) = Inr s"
    and d: "distinct tids"
  shows "counters_ok s"
proof -
  from new obtain s1 ep fds k4 where
    s1: "Scheduler_new t threads useCaller name (fresh_iomanager k p) = Inr s1"
    and st: "start tids (contextResize 32 (s1\<lparr>m_epfd := ep, m_notifyFds := fds, kernel := k4\<rparr>)) = Inr s"
    unfolding IOManager_new_def by (elim rbindE) (auto simp: Let_def split: prod.splits)
  let ?s2 = "contextResize 32 (s1\<lparr>m_epfd := ep, m_notifyFds := fds, kernel := k4\<rparr>)"
  have app: "counts (append_contexts n x) = counts x" for n and x :: "('a, 'b) ios_scheme"
    by (induction n arbitrary: x) (simp_all add: counts_def)
  have c: "counts ?s2 = counts (fresh_iomanager k p)"
    using Scheduler_new_counts [OF s1] by (simp add: contextResize_def app) (simp add: counts_def)
  then have fr: "frames ?s2 = (\<lambda>_. None)"
    by (simp add: counts_def fresh_iomanager_def fresh_scheduler_def sys.defs proc.defs)
  have ok: "counters_ok ?s2"
    using c by (simp add: counters_ok_def fr)
      (simp add: counts_def fresh_iomanager_def fresh_scheduler_def sys.defs proc.defs threads_at_def)
  show ?thesis
  proof (cases "m_isRunning ?s2")
    case True
    with st ok show ?thesis by (simp add: start_def)
  next
    case False
    with st have "s = start_threads 0 (take (unat (m_threadCount ?s2)) tids) (?s2\<lparr>m_isRunning := True\<rparr>)"
      by (simp add: start_def Let_def)
    moreover have "counters_ok (?s2\<lparr>m_isRunning := True\<rparr>)" using ok by (simp add: counters_ok_def)
    moreover have "\<forall>u \<in> set us. frames (?s2\<lparr>m_isRunning := True\<rparr>) u = None" for us
      using fr by simp
    ultimately show ?thesis
      using io.counters_ok_start [OF _ distinct_take [OF d]] by blast
  qed
qed


lemma append_contexts_sys:
  "m_threads (append_contexts n s) = m_threads s" "m_isRunning (append_contexts n s) = m_isRunning s"
  "m_threadCount (append_contexts n s) = m_threadCount s" "frames (append_contexts n s) = frames s"
  "m_autoStop (append_contexts n s) = m_autoStop s"
  by (induction n arbitrary: s) simp_all

text \<open>An IO manager with one thread, just constructed.\<close>

definition demo_scheduler :: "unit ios" where
  "demo_scheduler = (fresh_iomanager () init_proc)
     \<lparr>m_name := ''io'', m_rootThread := -1, m_threadCount := 1\<rparr>"

definition demo_started :: "unit ios" where
  "demo_started = start_thread 0 1
     ((contextResize 32 (demo_scheduler\<lparr>m_epfd := 5, m_notifyFds := (6, 7), kernel := ()\<rparr>))\<lparr>m_isRunning := True\<rparr>)"

lemma demo_started:
  "IOManager_new demo_os 0 1 False ''io'' [1] (fresh_iomanager () init_proc) = Inr demo_started"
  "frames demo_started = [1 \<mapsto> new_frame]" "\<not> m_autoStop demo_started"
proof -
  let ?s = "contextResize 32 (demo_scheduler\<lparr>m_epfd := 5, m_notifyFds := (6, 7), kernel := ()\<rparr>)"
  have f: "m_threads ?s = []" "\<not> m_isRunning ?s" "m_threadCount ?s = 1" "frames ?s = (\<lambda>_. None)"
    "\<not> m_autoStop ?s"
    by (simp_all add: contextResize_def append_contexts_sys demo_scheduler_def fresh_iomanager_def
        fresh_scheduler_def sys.defs proc.defs)
  show "IOManager_new demo_os 0 1 False ''io'' [1] (fresh_iomanager () init_proc) = Inr demo_started"
    using f by (simp add: IOManager_new_def Scheduler_new_def demo_os_def start_def Let_def
        demo_started_def demo_scheduler_def del: append_contexts.simps)
  show "frames demo_started = [1 \<mapsto> new_frame]" "\<not> m_autoStop demo_started"
    using f by (simp_all add: demo_started_def start_thread_def Let_def set_tls_def)
qed


end
