(* ===== verification/SchedulerMembers.thy ===== *)
theory SchedulerMembers
  imports SchedulerCounts
begin

section \<open>What the members of a derived class keep\<close>

text \<open>
  A class derived from \<open>Scheduler\<close> has members of its own, which the code of the base class only
  reaches through the virtual functions. So an invariant of those members that the virtual functions
  keep holds in every state the threads of the scheduler can reach.
\<close>

lemma sys_more: "proc.more s' = proc.more s \<Longrightarrow> sys.more s' = sys.more s"
  by (drule proc_more_eqD, drule arg_cong [where f = sys.more]) simp

lemma more_local: "thread_local_only t s s' \<Longrightarrow> sys.more s' = sys.more s"
  by (rule sys_more) (simp add: thread_local_only_def)

lemmas more_ops =
  more_local [OF thread_local_only_ops(1)] more_local [OF thread_local_only_ops(2)]
  more_local [OF thread_local_only_ops(3)] more_local [OF thread_local_only_ops(4)]
  more_local [OF thread_local_only_ops(5)] more_local [OF thread_local_only_new(1)]
  more_local [OF thread_local_only_getThis] more_local [OF thread_local_only_yield_store]
  more_local [OF thread_local_only_mainFunc(1)] more_local [OF thread_local_only_mainFunc(2)]
  more_local [OF thread_local_only_mainFunc(3)] more_local [OF thread_local_only_mainFunc_enter]

lemma more_simps [simp]:
  "sys.more (set_tls t g s) = sys.more s" "sys.more (put_fiber a f s) = sys.more s"
  "sys.more (set_cpu t k s) = sys.more s" "sys.more (set_frame t fr s) = sys.more s"
  by (simp_all add: set_tls_def put_fiber_def set_cpu_def set_frame_def)

text \<open>The parts of \<open>run\<close> and \<open>stop\<close> that call no virtual function.\<close>

lemma more_run_enter:
  assumes step: "run_enter t s = Inr s'"
  shows "sys.more s' = sys.more s"
proof -
  let ?s1 = "set_tls t (t_scheduler_update (\<lambda>_. True)) s"
  from step obtain s3 i s4 where
    a: "(if t \<noteq> m_rootThread ?s1
         then rbind (getThis t ?s1) (\<lambda>(a, s2). Inr (set_tls t (t_mainFiber_update (\<lambda>_. Some a)) s2))
         else Inr ?s1) = Inr s3"
    and b: "Fiber_new (Some SchedulerIdle) 0 False s3 = (i, s4)"
    and s': "s' = set_frame t \<lparr>pc = PcLoop, ft = empty_task, cbFiber = None, idleFiber = i\<rparr> s4"
    unfolding run_enter_def Let_def by (elim rbindE) (auto split: prod.splits)
  have "sys.more s3 = sys.more s"
  proof (cases "t = m_rootThread ?s1")
    case True
    with a have "s3 = ?s1" by simp
    then show ?thesis by simp
  next
    case False
    with a show ?thesis by (auto dest!: more_ops)
  qed
  with more_ops(6) [OF b] s' show ?thesis by simp
qed

lemma more_run:
  "run_search t s = Inr s' \<Longrightarrow> sys.more s' = sys.more s"
  "run_fiber t ret a s = Inr s' \<Longrightarrow> sys.more s' = sys.more s"
  "run_callback t ret cb s = Inr s' \<Longrightarrow> sys.more s' = sys.more s"
  "run_idle t ret s = Inr s' \<Longrightarrow> sys.more s' = sys.more s"
  "run_back_idle t s = Inr s' \<Longrightarrow> sys.more s' = sys.more s"
  "run_return t ret s = Inr s' \<Longrightarrow> sys.more s' = sys.more s"
  by (auto simp: run_search_def run_fiber_def run_callback_def run_idle_def
      run_back_idle_def run_return_def Let_def put_fiber_def
      split: prod.splits option.splits if_splits dest!: more_ops)

lemma more_run_back: "sys.more (run_back p t s) = sys.more s"
  by (simp add: run_back_def)

lemma more_start: "sys.more (start_threads i us s) = sys.more s"
  by (induction us arbitrary: i s) (simp_all add: start_thread_def Let_def)

lemma more_Scheduler_new:
  assumes new: "Scheduler_new t threads useCaller name s0 = Inr s"
  shows "sys.more s = sys.more s0"
proof (cases useCaller)
  case False
  with new show ?thesis by (auto simp: Scheduler_new_def Let_def)
next
  case True
  with new obtain m s1 where g: "getThis t (s0\<lparr>m_name := name\<rparr>) = Inr (m, s1)"
    and r: "(let s2 = set_tls t (t_scheduler_update (\<lambda>_. True)) s1;
                 (r, s3) = Fiber_new (Some SchedulerRun) 0 True s2;
                 s4 = set_tls t (t_mainFiber_update (\<lambda>_. Some r)) (s3\<lparr>m_rootFiber := Some r\<rparr>)
             in Inr (s4\<lparr>m_rootThread := t, m_threadIds := m_threadIds s4 @ [t],
                        m_threadCount := threads - 1\<rparr>)) = (Inr s :: 'a sys_scheme res)"
    by (auto simp: Scheduler_new_def Let_def)
  obtain r s3 where f: "Fiber_new (Some SchedulerRun) 0 True
      (set_tls t (t_scheduler_update (\<lambda>_. True)) s1) = (r, s3)" by (rule prod.exhaust)
  have "sys.more s = sys.more s3" using r unfolding Let_def f by auto
  with more_ops(6) [OF f] more_ops(7) [OF g] show ?thesis by simp
qed

locale member_invariant =
  fixes vt :: "'z sys_scheme vtable" and I :: "'z sys_scheme \<Rightarrow> bool"
  assumes members: "sys.more s' = sys.more s \<Longrightarrow> I s \<Longrightarrow> I s'"
    and notify_keeps: "v_notify vt s = Inr s' \<Longrightarrow> I s \<Longrightarrow> I s'"
    and idle_keeps: "v_idle vt e cur t s = Inr s' \<Longrightarrow> I s \<Longrightarrow> I s'"
begin

lemma schedule_keeps: "schedule vt x s = Inr s' \<Longrightarrow> I s \<Longrightarrow> I s'"
proof -
  assume step: "schedule vt x s = Inr s'" and I: "I s"
  have "I (snd (scheduleNoLock x s))" by (rule members [OF _ I]) (simp add: scheduleNoLock_def)
  with step show "I s'"
    by (auto simp: schedule_def split: prod.splits if_splits intro: notify_keeps)
qed

lemma notify_times_keeps: "notify_times vt n s = Inr s' \<Longrightarrow> I s \<Longrightarrow> I s'"
  by (induction n arbitrary: s) (auto intro: notify_keeps)

lemma run_dispatch_keeps:
  assumes step: "run_dispatch vt t ret n a s = Inr s'" and I: "I s"
  shows "I s'"
proof -
  from step obtain s1 where s1: "(if n then v_notify vt s else Inr s) = Inr s1"
    and "\<exists>x. run_fiber t ret x s1 = Inr s' \<or> (\<exists>cb. run_callback t ret cb s1 = Inr s') \<or> run_idle t ret s1 = Inr s' \<or>
      s' = set_frame t ((frame_of t s1)\<lparr>ft := empty_task, pc := PcLoop\<rparr>)
         (s1\<lparr>m_activeThreadCount := m_activeThreadCount s1 - 1\<rparr>)"
    by (auto simp: run_dispatch_def Let_def split: if_splits option.splits)
  then have "sys.more s' = sys.more s1" by (auto dest: more_run)
  moreover have "I s1" using s1 I by (auto split: if_splits intro: notify_keeps)
  ultimately show ?thesis by (rule members)
qed

lemma run_requeue_keeps:
  "run_requeue_fiber vt t s = Inr s' \<Longrightarrow> I s \<Longrightarrow> I s'"
  "run_requeue_cb vt t s = Inr s' \<Longrightarrow> I s \<Longrightarrow> I s'"
proof -
  have frame: "I (set_frame t fr s1)" if "I s1" for t fr s1 by (rule members [OF _ that]) simp
  have put: "I (put_fiber a f s1)" if "I s1" for a f s1 by (rule members [OF _ that]) simp
  show "run_requeue_fiber vt t s = Inr s' \<Longrightarrow> I s \<Longrightarrow> I s'"
    by (auto simp: run_requeue_fiber_def Let_def split: if_splits intro!: frame put intro: schedule_keeps)
  show "run_requeue_cb vt t s = Inr s' \<Longrightarrow> I s \<Longrightarrow> I s'"
    by (auto simp: run_requeue_cb_def Let_def split: if_splits intro!: frame put
        intro: schedule_keeps members [OF more_ops(5)])
qed

lemma run_step_keeps:
  assumes step: "run_step vt t ret s = Inr s'" and I: "I s"
  shows "I s'"
proof -
  obtain fr where fr: "frames s t = Some fr" using step by (auto simp: run_step_def split: option.splits)
  note s = step [unfolded run_step_def fr option.case]
  show ?thesis
    by (cases "pc fr")
      (use s I in \<open>auto intro: members [OF more_run_back] run_dispatch_keeps run_requeue_keeps members [OF more_run_enter]
        members [OF more_run(1)] members [OF more_run(5)] members [OF more_run(6)]\<close>)
qed

lemma client_step_keeps:
  assumes step: "client_step vt t e cur ops s = Inr s'" and I: "I s"
  shows "I s'"
proof -
  have cpu: "I (set_cpu t k s1)" if "I s1" for t k s1 by (rule members [OF _ that]) simp
  have getThis: "I s1" if "getThis t s = Inr (a, s1)" for a s1 by (rule members [OF more_ops(7) [OF that] I])
  have yield: "I s1" if "yield_store st t s = Inr (a, s1)" for st a s1 by (rule members [OF more_ops(8) [OF that] I])
  show ?thesis
  proof (cases ops)
    case Nil
    with step I show ?thesis by (auto simp: client_step_def intro: members [OF more_ops(9)])
  next
    case (Cons x r)
    with step I show ?thesis
      by (cases x) (auto simp: client_step_def intro!: cpu
          intro: schedule_keeps getThis yield members [OF more_ops(10)])
  qed
qed

lemma thread_step_keeps:
  assumes step: "thread_step vt t s = Inr s'" and I: "I s"
  shows "I s'"
proof (cases "cpu (tls s t)")
  case (KBody e cur cb)
  with step have b: "body_step vt t e cur cb s = Inr s'" by (simp add: thread_step_def)
  show ?thesis
  proof (cases cb)
    case SchedulerRun
    with b have "sys.more s' = sys.more s" by (auto simp: body_step_def split: if_splits)
    then show ?thesis using I by (rule members)
  qed (use b I in \<open>auto simp: body_step_def intro: client_step_keeps idle_keeps\<close>)
next
  case (KRun ret)
  with step show ?thesis by (auto simp: thread_step_def intro: run_step_keeps [OF _ I])
next
  case (KJoin us)
  with step have "sys.more s' = sys.more s"
    by (auto simp: thread_step_def stop_join_def split: option.splits list.splits if_splits)
  then show ?thesis using I by (rule members)
next
  case KStopSwap
  with step have "sys.more s' = sys.more s" by (auto simp: thread_step_def stop_swap_def)
  then show ?thesis using I by (rule members)
qed (use step I in \<open>auto simp: thread_step_def intro: members [OF more_ops(11)] members [OF more_ops(12)]
    members [OF more_ops(2)]\<close>)

lemma stop_keeps:
  assumes "stop vt t s = Inr s'" and "I s"
  shows "I s'"
proof -
  have late: "I s2" if step: "stop_late vt t s1 = Inr s2" and I: "I s1" for s1 s2
  proof -
    from step obtain s3 where n: "notify_times vt (unat (m_threadCount s1)) (s1\<lparr>m_isRunning := False\<rparr>) = Inr s3"
      and k: "(case m_rootFiber s3 of
            None \<Rightarrow> Inr (set_cpu t KStopSwap s3)
          | Some r \<Rightarrow>
              rbind (v_notify vt s3) (\<lambda>s4.
                if v_stopped vt s4 then Inr (set_cpu t KStopSwap s4)
                else Fiber_call t r KStopSwap s4)) = Inr s2"
      by (auto simp: stop_late_def)
    have "I (s1\<lparr>m_isRunning := False\<rparr>)" by (rule members [OF _ I]) simp
    with n have "I s3" by (rule notify_times_keeps)
    with k show ?thesis
      by (auto split: option.splits if_splits intro: notify_keeps members [OF more_ops(3)] members [OF more_simps(3)])
  qed
  have I: "I (s\<lparr>m_autoStop := True, m_isRunning := b\<rparr>)" for b by (rule members [OF _ assms(2)]) simp
  have "I (s\<lparr>m_autoStop := True\<rparr>)" by (rule members [OF _ assms(2)]) simp
  with assms(1) I show ?thesis
    by (auto simp: stop_def Let_def split: if_splits intro: late)
qed

lemma sys_step_keeps:
  "sys_step vt ext s s' \<Longrightarrow> I s \<Longrightarrow> I s'"
proof (induction rule: sys_step.induct)
  case (step_start s t tids s')
  have "sys.more s' = sys.more s"
    using step_start(5) by (auto simp: start_def Let_def more_start split: if_splits)
  then show ?case using step_start(6) by (rule members)
qed (auto intro: thread_step_keeps schedule_keeps stop_keeps)

lemma reachable_keeps: "reachable vt ext s s' \<Longrightarrow> I s \<Longrightarrow> I s'"
  by (induction rule: reachable.induct) (auto dest: sys_step_keeps)

end

end
