(* ===== verification/IORuns.thy ===== *)
theory IORuns
  imports IOFaults SchedulerMembers
begin

section \<open>The IO manager in every reachable state\<close>

text \<open>
  The threads of the scheduler, with \<open>IOManager::idle\<close> in their idle fibers, and any thread that calls
  the event operations, in any order. The contract of theory \<open>SchedulerMembers\<close> is interpreted on
  the invariant of the descriptor contexts.
\<close>

subsection \<open>A waiter is not lost\<close>

text \<open>What waits in \<open>s\<close> still waits in \<open>s'\<close> or was appended to the queue.\<close>

definition hands_over :: "('k, 'z) ios_scheme \<Rightarrow> ('k, 'z) ios_scheme \<Rightarrow> bool" where
  "hands_over s s' \<longleftrightarrow> (\<exists>q. m_fibers s' = m_fibers s @ q \<and>
     (\<forall>x w. waiters s x = Some w \<longrightarrow> waiters s' x = Some w \<or> task_of w \<in> set q))"

lemma hands_over_same: "waiters s' = waiters s \<Longrightarrow> m_fibers s' = m_fibers s \<Longrightarrow> hands_over s s'"
  by (auto simp: hands_over_def)

lemma hands_over_trans: "hands_over s s1 \<Longrightarrow> hands_over s1 s2 \<Longrightarrow> hands_over s s2"
proof -
  assume "hands_over s s1" "hands_over s1 s2"
  then obtain q r where q: "m_fibers s1 = m_fibers s @ q" "m_fibers s2 = m_fibers s1 @ r"
    "\<forall>x w. waiters s x = Some w \<longrightarrow> waiters s1 x = Some w \<or> task_of w \<in> set q"
    "\<forall>x w. waiters s1 x = Some w \<longrightarrow> waiters s2 x = Some w \<or> task_of w \<in> set r"
    unfolding hands_over_def by blast
  have "waiters s2 x = Some w \<or> task_of w \<in> set (q @ r)" if "waiters s x = Some w" for x w
    using that q(3,4) by (metis Un_iff set_append)
  with q(1,2) show ?thesis unfolding hands_over_def by (intro exI [of _ "q @ r"]) simp
qed

lemma schedule_succeeds:
  assumes "schedule (notify_vt K) y s = Inr s'" and "ft_fiber y \<noteq> None \<or> ft_cb y \<noteq> None"
  shows "\<exists>k. s' = s\<lparr>m_fibers := m_fibers s @ [y], kernel := k\<rparr>"
proof -
  have "IOManager_notify K s1 = Inr s' \<Longrightarrow> \<exists>k. s' = s1\<lparr>kernel := k\<rparr>" for s1 by (rule notify_kernel)
  with assms show ?thesis
    by (auto simp: schedule_def scheduleNoLock_def split: if_splits intro: exI [of _ "kernel s"])
qed

lemma triggerEvent_succeeds:
  assumes step: "triggerEvent (notify_vt K) p ev s = Inr s'" and inv: "io_inv s"
  shows "\<exists>c k. fdctx s p = Some c \<and> registered c ev \<and> s' = (put_ctx p (unregister ev c) s)
    \<lparr>m_fibers := m_fibers s @ [task_of (waiter_of (econtext c ev))], kernel := k\<rparr>"
proof -
  obtain c where c: "fdctx s p = Some c" using step by (auto simp: triggerEvent_def ctx_at_def split: option.splits)
  with step have bit: "events c AND ev \<noteq> 0" by (auto simp: triggerEvent_def ctx_at_def)
  have ev: "is_event ev"
  proof (rule ccontr)
    assume "\<not> is_event ev"
    then have "getContext d ev = Inl (AssertionFailed ''getContext'')" for d
      by (simp add: getContext_def is_event_def del: event_bits)
    with step c bit show False by (simp add: triggerEvent_def ctx_at_def Let_def)
  qed
  let ?x = "econtext c ev" and ?w = "task_of (waiter_of (econtext c ev))"
  have r: "registered c ev" using bit ev by (simp add: registered_def)
  have xor: "(ec_fiber ?x = None) \<noteq> (ec_cb ?x = None)"
    using io_inv_ctx [OF inv c] r ev by (simp add: ctx_ok_def)
  let ?y = "if ec_cb ?x \<noteq> None then ?x\<lparr>ec_cb := None\<rparr> else ?x\<lparr>ec_fiber := None\<rparr>"
  have y: "?y\<lparr>ec_scheduler := False\<rparr> = empty_context"
    using xor by (cases ?x) (auto simp: empty_context_def)
  have "schedule (notify_vt K) ?w (put_ctx p (unregister ev c) s) = Inr s'"
    using step c bit y xor
    by (auto simp: triggerEvent_def ctx_at_def getContext_event [OF ev] task_of_def waiter_of_def
        cb_task_def unregister_def Let_def split: if_splits)
  moreover have "ft_fiber ?w \<noteq> None \<or> ft_cb ?w \<noteq> None"
    using xor by (auto simp: task_of_def waiter_of_def cb_task_def split: option.split)
  ultimately obtain k where
    "s' = (put_ctx p (unregister ev c) s)\<lparr>m_fibers := m_fibers (put_ctx p (unregister ev c) s) @ [?w], kernel := k\<rparr>"
    using schedule_succeeds by blast
  then have "s' = (put_ctx p (unregister ev c) s)\<lparr>m_fibers := m_fibers s @ [?w], kernel := k\<rparr>"
    by (simp add: put_ctx_def)
  with c r show ?thesis by blast
qed

definition io_keeps :: "('k, 'z) ios_scheme \<Rightarrow> ('k, 'z) ios_scheme \<Rightarrow> bool" where
  "io_keeps s s' \<longleftrightarrow> io_inv s' \<and> hands_over s s' \<and> (\<exists>cs. m_fdContexts s' = m_fdContexts s @ cs)"

lemma io_keeps_trans: "io_keeps s s1 \<Longrightarrow> io_keeps s1 s2 \<Longrightarrow> io_keeps s s2"
  by (auto simp: io_keeps_def intro: hands_over_trans)

lemma io_keeps_same:
  assumes "io_inv s" "iview s' = iview s" "m_fibers s' = m_fibers s"
  shows "io_keeps s s'"
proof -
  have "fdctx s' = fdctx s" "m_fdContexts s' = m_fdContexts s" using assms(2) by (simp_all add: iview_def)
  with waiters_iview [of s' s] io_inv_iview [OF assms(2)] assms(1,3) show ?thesis
    by (simp add: io_keeps_def hands_over_same)
qed

text \<open>The countdown after a trigger.\<close>

lemma trigger_keeps:
  assumes step: "triggerEvent (notify_vt K) p ev s = Inr s'" and inv: "io_inv s"
  shows "io_keeps s (s'\<lparr>m_pendingEventCount := m_pendingEventCount s' - 1\<rparr>)"
proof -
  from triggerEvent_succeeds [OF step inv] obtain c k where c: "fdctx s p = Some c" "registered c ev"
    and s': "s' = (put_ctx p (unregister ev c) s)
      \<lparr>m_fibers := m_fibers s @ [task_of (waiter_of (econtext c ev))], kernel := k\<rparr>" by blast
  have ev: "is_event ev" using c(2) by (simp add: registered_def)
  let ?w = "waiter_of (econtext c ev)"
  let ?u = "(put_ctx p (unregister ev c) s)\<lparr>m_pendingEventCount := m_pendingEventCount s - 1\<rparr>"
  let ?t = "s'\<lparr>m_pendingEventCount := m_pendingEventCount s' - 1\<rparr>"
  have t: "?t = ?u\<lparr>m_fibers := m_fibers s @ [task_of ?w], kernel := k\<rparr>"
    by (simp add: s' put_ctx_def)
  have inv': "io_inv ?t"
    unfolding t using io_inv_unregister [OF inv c] io_inv_iview [of "?u\<lparr>m_fibers := m_fibers s @ [task_of ?w], kernel := k\<rparr>" ?u]
    by simp
  have w: "waiters ?t = (waiters s)((p, ev) := None)"
    unfolding t using waiters_unregister [OF inv c(1) ev] by (simp add: ios_frame)
  have "waiters s (p, ev) = Some ?w" using c by (simp add: waiters_at ctx_waiters_def)
  then have "hands_over s ?t"
    unfolding hands_over_def w by (intro exI [of _ "[task_of ?w]"]) (auto simp: s' put_ctx_def)
  with inv' show ?thesis by (simp add: io_keeps_def s' put_ctx_def)
qed

lemma trigger_if_keeps:
  assumes "trigger_if b (notify_vt K) p ev s = Inr s'" and inv: "io_inv s"
  shows "io_keeps s s'"
  using assms io_keeps_same [OF inv refl refl] trigger_keeps [OF _ inv] by (auto simp: trigger_if_def split: if_splits)

lemma kernel_keeps: "io_inv s \<Longrightarrow> io_keeps s (s\<lparr>kernel := k\<rparr>)"
  by (rule io_keeps_same) simp_all

lemma process_event_keeps:
  assumes step: "process_event K (notify_vt K) e s = Inr s'" and inv: "io_inv s"
  shows "io_keeps s s'"
  using step
proof (cases rule: process_event_cases)
  case (triggered p c k s2)
  have 1: "io_keeps s (s\<lparr>kernel := k\<rparr>)" by (rule kernel_keeps [OF inv])
  then have "io_inv (s\<lparr>kernel := k\<rparr>)" by (simp add: io_keeps_def)
  from trigger_if_keeps [OF triggered(4) this] have 2: "io_keeps (s\<lparr>kernel := k\<rparr>) s2" .
  then have "io_inv s2" by (simp add: io_keeps_def)
  from trigger_if_keeps [OF triggered(5) this] io_keeps_trans [OF io_keeps_trans [OF 1 2]] show ?thesis by blast
qed (use kernel_keeps [OF inv] io_keeps_same [OF inv refl refl] in simp_all)

subsection \<open>Registering\<close>

lemma iview_local: "thread_local_only t s s' \<Longrightarrow> iview s' = iview s \<and> m_fibers s' = m_fibers s"
proof -
  assume "thread_local_only t s s'"
  then have "proc.more s' = proc.more s" by (simp add: thread_local_only_def)
  from arg_cong [where f = "\<lambda>s. (iview s, m_fibers s)", OF proc_more_eqD [OF this]] show ?thesis
    by (simp add: iview_def)
qed

lemma register_keeps:
  assumes step: "addEvent_register K t n ev cb p s = Inr (r, s')" and inv: "io_inv s"
  shows "io_keeps s s'"
proof -
  from step obtain c where c: "fdctx s p = Some c" and bit: "events c AND ev = 0"
    by (auto simp: addEvent_register_def ctx_at_def split: option.splits)
  obtain ret k where ctl: "os_epoll_ctl K (m_epfd s) (if events c \<noteq> 0 then EPOLL_CTL_MOD else EPOLL_CTL_ADD) n
      \<lparr>ep_events = EPOLLET OR events c OR ev, ep_data = DataPtr p\<rparr> (kernel s) = (ret, k)" by (rule prod.exhaust)
  show ?thesis
  proof (cases "ret = 0")
    case False
    with step c bit ctl have "s' = s\<lparr>kernel := k\<rparr>" by (simp add: addEvent_register_def ctx_at_def Let_def)
    with kernel_keeps [OF inv] show ?thesis by simp
  next
    case True
    let ?s2 = "s\<lparr>kernel := k, m_pendingEventCount := m_pendingEventCount s + 1\<rparr>"
    have ev: "is_event ev"
    proof (rule ccontr)
      assume "\<not> is_event ev"
      then have "getContext d ev = Inl (AssertionFailed ''getContext'')" for d
        by (simp add: getContext_def is_event_def del: event_bits)
      with step c bit ctl True show False by (simp add: addEvent_register_def ctx_at_def Let_def)
    qed
    have nr: "\<not> registered c ev" using bit by (simp add: registered_def)
    have emp: "econtext c ev = empty_context" using io_inv_ctx [OF inv c] nr ev by (simp add: ctx_ok_def)
    let ?x = "\<lambda>a. empty_context\<lparr>ec_scheduler := t_scheduler (tls s t), ec_cb := cb, ec_fiber := a\<rparr>"
    obtain a s3 where a: "(a = None) \<noteq> (cb = None)" and s3: "iview s3 = iview ?s2" "m_fibers s3 = m_fibers s"
      and s': "s' = put_ctx p (register ev (?x a) c) s3"
    proof (cases cb)
      case (Some f)
      have "s' = put_ctx p (register ev (?x None) c) ?s2"
        using step c bit ctl True Some
        by (simp add: addEvent_register_def ctx_at_def Let_def getContext_event [OF ev] emp empty_context_def register_def)
      with Some show thesis by (intro that [of None ?s2]) simp_all
    next
      case None
      from step c bit ctl True None obtain a s3 where g: "getThis t ?s2 = Inr (a, s3)"
        and s': "s' = put_ctx p (register ev (?x (Some a)) c) s3"
        by (auto simp: addEvent_register_def ctx_at_def Let_def getContext_event [OF ev] emp empty_context_def register_def)
      with None iview_local [OF thread_local_only_getThis [OF g]] show thesis
        by (intro that [of "Some a" s3]) simp_all
    qed
    let ?u = "(put_ctx p (register ev (?x a) c) s)\<lparr>m_pendingEventCount := m_pendingEventCount s + 1\<rparr>"
    have x: "(ec_fiber (?x a) = None) \<noteq> (ec_cb (?x a) = None)" using a by simp
    have view: "iview s' = iview ?u" using s3(1) by (simp add: s' iview_def put_ctx_def)
    then have w: "waiters s' = (waiters s)((p, ev) \<mapsto> waiter_of (?x a))"
      using io_inv_register(2) [OF inv c ev nr x] waiters_iview [of s' ?u] by (simp add: iview_def ios_frame)
    have "waiters s (p, ev) = None" using c nr by (simp add: waiters_at ctx_waiters_None)
    then have "hands_over s s'"
      using s3(2) unfolding hands_over_def w by (intro exI [of _ "[]"]) (auto simp: s' put_ctx_def)
    moreover have "io_inv s'" using io_inv_register(1) [OF inv c ev nr x] io_inv_iview [OF view] by simp
    moreover have "m_fdContexts s' = m_fdContexts s" using view by (simp add: iview_def put_ctx_def)
    ultimately show ?thesis by (simp add: io_keeps_def)
  qed
qed

lemma grow_keeps:
  assumes step: "addEvent_grow n s = Inr (p, s')" and inv: "io_inv s" and n: "length (m_fdContexts s) \<le> nat n"
  shows "io_keeps s s' \<and> slot n s' = Inr p"
proof -
  obtain m where s': "s' = contextResize m s" and p: "slot n s' = Inr p"
    using step by (auto simp: addEvent_grow_def Let_def)
  have "nat n < length (m_fdContexts s')" using p by (simp add: slot_def split: if_splits)
  moreover have "length (m_fdContexts s') \<le> m"
    using append_contexts_ok [OF inv, of "m - length (m_fdContexts s)"] by (simp add: s' contextResize_def)
  ultimately have "length (m_fdContexts s) < m" using n by simp
  then have r: "s' = append_contexts (m - length (m_fdContexts s)) s" by (simp add: s' contextResize_def)
  from append_contexts_ok [OF inv, of "m - length (m_fdContexts s)"] p show ?thesis
    by (simp add: r io_keeps_def hands_over_same append_contexts_frame)
qed

subsection \<open>Unregistering\<close>

text \<open>\<open>delEvent\<close> drops one waiter, if it does anything.\<close>

definition io_drops :: "caddr \<times> event \<Rightarrow> ('k, 'z) ios_scheme \<Rightarrow> ('k, 'z) ios_scheme \<Rightarrow> bool" where
  "io_drops x s s' \<longleftrightarrow> io_inv s' \<and> waiters s' = (waiters s)(x := None) \<and> m_fibers s' = m_fibers s \<and>
     m_fdContexts s' = m_fdContexts s"

lemma delete_keeps:
  assumes step: "delEvent K n ev s = Inr (r, s')" and inv: "io_inv s" and w: "waiting n ev s \<noteq> None"
  shows "io_keeps s s' \<or> (r \<and> (\<exists>p. slot n s = Inr p \<and> io_drops (p, ev) s s'))"
proof -
  from w obtain w' where "waiting n ev s = Some w'" by blast
  from waiting_slot [OF inv this] obtain p c where p: "slot n s = Inr p" "fdctx s p = Some c" "registered c ev" by metis
  note ev = event_of_registered [OF p(3)]
  obtain ret s1 where m: "change_mask K n p (events c AND NOT ev) s = (ret, s1)" by (rule prod.exhaust)
  obtain k where s1: "s1 = s\<lparr>kernel := k\<rparr>" using change_mask_kernel [OF m] by blast
  let ?u = "(put_ctx p (unregister ev c) s)\<lparr>m_pendingEventCount := m_pendingEventCount s - 1\<rparr>"
  have reset: "resetContext x = empty_context" for x by (simp add: resetContext_def empty_context_def)
  have nz: "events c OR ev \<noteq> 0" using ev by (intro or_nonzero) simp
  have "s' = s" if "int_size s \<le> n" using step that by (simp add: delEvent_def)
  moreover have "s' = s1" if "\<not> int_size s \<le> n" "ret \<noteq> 0"
    using step that p(1,2) nz by (simp add: delEvent_def ctx_at_def m Let_def)
  moreover have "s' = ?u\<lparr>kernel := k\<rparr> \<and> r" if "\<not> int_size s \<le> n" "ret = 0"
    using step that p(1,2) nz
    by (simp add: delEvent_def ctx_at_def m Let_def getContext_event [OF conjunct1 [OF ev]] reset s1)
      (auto simp: unregister_def put_ctx_def)
  ultimately consider "s' = s" | "s' = s1" | "s' = ?u\<lparr>kernel := k\<rparr>" "r" by blast
  then show ?thesis
  proof cases
    case 1
    then show ?thesis using io_keeps_same [OF inv refl refl] by simp
  next
    case 2
    then show ?thesis using kernel_keeps [OF inv] s1 by simp
  next
    case 3
    have "io_inv s'" using io_inv_unregister [OF inv p(2,3)] io_inv_iview [of s' ?u] 3 by simp
    moreover have "waiters s' = (waiters s)((p, ev) := None)"
      using waiters_unregister [OF inv p(2) conjunct1 [OF ev]] 3 by (simp add: ios_frame)
    ultimately show ?thesis using 3 p(1) by (simp add: io_drops_def put_ctx_def)
  qed
qed

lemma cancel_keeps:
  assumes step: "cancelEvent K (notify_vt K) n ev s = Inr (r, s')" and inv: "io_inv s"
  shows "io_keeps s s'"
proof -
  note stay = io_keeps_same [OF inv refl refl]
  show ?thesis
  proof (cases "int_size s \<le> n \<or> (\<exists>p c. slot n s = Inr p \<and> fdctx s p = Some c \<and> events c AND ev = 0)")
    case True
    with step stay show ?thesis by (auto simp: cancelEvent_def ctx_at_def split: if_splits)
  next
    case False
    with step obtain p c where p: "slot n s = Inr p" "fdctx s p = Some c" "events c AND ev \<noteq> 0"
      by (auto simp: cancelEvent_def ctx_at_def split: if_splits option.splits)
    obtain ret s1 where m: "change_mask K n p (events c AND NOT ev) s = (ret, s1)" by (rule prod.exhaust)
    obtain k where s1: "s1 = s\<lparr>kernel := k\<rparr>" using change_mask_kernel [OF m] by blast
    have 1: "io_keeps s s1" unfolding s1 by (rule kernel_keeps [OF inv])
    then have inv1: "io_inv s1" by (simp add: io_keeps_def)
    have n: "\<not> int_size s \<le> n" using False by blast
    have r: "(if ret \<noteq> 0 then Inr (False, s1)
        else rbind (triggerEvent (notify_vt K) p ev s1) (\<lambda>s2.
          let s3 = s2\<lparr>m_pendingEventCount := m_pendingEventCount s2 - 1\<rparr> in
          rbind (ctx_at p s3) (\<lambda>c3. server_assert (events c3 = NONE) ''fd_ctx->events == NONE'' (Inr (True, s3))))) = Inr (r, s')"
      using step p n by (simp add: cancelEvent_def ctx_at_def m)
    consider "s' = s1" | s2 where "triggerEvent (notify_vt K) p ev s1 = Inr s2"
        "s' = s2\<lparr>m_pendingEventCount := m_pendingEventCount s2 - 1\<rparr>"
      using r by (cases "ret = 0") (auto simp: Let_def)
    then show ?thesis
      using 1 trigger_keeps [OF _ inv1] io_keeps_trans [OF 1] by cases auto
  qed
qed

lemma cancelAll_keeps:
  assumes step: "cancelAll K (notify_vt K) n s = Inr (r, s')" and inv: "io_inv s"
  shows "io_keeps s s'"
proof -
  note stay = io_keeps_same [OF inv refl refl]
  show ?thesis
  proof (cases "int_size s < n \<or> (\<exists>p c. slot n s = Inr p \<and> fdctx s p = Some c \<and> events c = 0)")
    case True
    with step stay show ?thesis by (auto simp: cancelAll_def ctx_at_def split: if_splits)
  next
    case False
    with step obtain p c where p: "slot n s = Inr p" "fdctx s p = Some c" "events c \<noteq> 0"
      by (auto simp: cancelAll_def ctx_at_def split: if_splits option.splits)
    obtain ret k where k: "os_epoll_ctl K (m_epfd s) EPOLL_CTL_DEL n \<lparr>ep_events = 0, ep_data = DataPtr p\<rparr> (kernel s) = (ret, k)"
      by (rule prod.exhaust)
    let ?s1 = "s\<lparr>kernel := k\<rparr>"
    have 1: "io_keeps s ?s1" by (rule kernel_keeps [OF inv])
    then have inv1: "io_inv ?s1" by (simp add: io_keeps_def)
    consider "s' = ?s1" | b1 s2 b2 where "trigger_if b1 (notify_vt K) p READ ?s1 = Inr s2"
        "trigger_if b2 (notify_vt K) p WRITE s2 = Inr s'"
      using step False p k
      by (auto simp: cancelAll_def ctx_at_def Let_def simp del: event_bits split: if_splits option.splits)
    then show ?thesis
    proof cases
      case (2 b1 s2 b2)
      have 3: "io_keeps ?s1 s2" by (rule trigger_if_keeps [OF 2(1) inv1])
      then have "io_inv s2" by (simp add: io_keeps_def)
      from trigger_if_keeps [OF 2(2) this] io_keeps_trans [OF io_keeps_trans [OF 1 3]] show ?thesis by blast
    qed (use 1 in simp)
  qed
qed

subsection \<open>The threads\<close>

lemma members_ios: "sys.more s' = sys.more s \<Longrightarrow> iview s' = iview s" for s :: "('k, 'z) ios_scheme"
  by (cases s rule: ios.cases_scheme; cases s' rule: ios.cases_scheme) (simp add: iview_def)

text \<open>A step of \<open>idle\<close> changes the waiters only while it treats an event.\<close>

lemma idle_keeps:
  assumes step: "IOManager_idle K (notify_vt K) e cur t s = Inr s'" and inv: "io_inv s"
  shows "io_keeps s s'"
proof (cases "idle_pos s t")
  case IdleHead
  show ?thesis
  proof (cases "IOManager_stopped s")
    case True
    with step IdleHead have m: "mainFunc_return e cur t s = Inr s'" by (simp add: IOManager_idle_def)
    from iview_local [OF thread_local_only_mainFunc(1) [OF m]] show ?thesis
      by (intro io_keeps_same [OF inv]) simp_all
  next
    case False
    with step IdleHead have "s' = set_pos t IdleWait s" by (simp add: IOManager_idle_def)
    then have "iview s' = iview s" "m_fibers s' = m_fibers s" by (simp_all add: set_pos_def iview_def)
    then show ?thesis by (rule io_keeps_same [OF inv])
  qed
next
  case IdleWait
  from step IdleWait obtain k p where "s' = s\<lparr>kernel := k\<rparr> \<or> s' = set_pos t p (s\<lparr>kernel := k\<rparr>)"
    by (auto simp: IOManager_idle_def split: prod.splits wait_result.splits)
  then have "iview s' = iview s" "m_fibers s' = m_fibers s" by (auto simp: set_pos_def iview_def)
  then show ?thesis by (rule io_keeps_same [OF inv])
next
  case (IdleEvents es)
  show ?thesis
  proof (cases es)
    case Nil
    from step IdleEvents Nil obtain a s1 where g: "getThis t s = Inr (a, s1)"
      and s': "s' = set_cpu t (KYield e cur a SchedulerIdle) (set_pos t IdleHead s1)"
      by (auto simp: IOManager_idle_def)
    from iview_local [OF thread_local_only_getThis [OF g]] show ?thesis
      by (intro io_keeps_same [OF inv]) (simp_all add: s' set_cpu_def set_tls_def set_pos_def iview_def)
  next
    case (Cons ev es')
    from step IdleEvents Cons obtain s1 where p: "process_event K (notify_vt K) ev s = Inr s1"
      and s': "s' = set_pos t (IdleEvents es') s1" by (auto simp: IOManager_idle_def)
    have 1: "io_keeps s s1" by (rule process_event_keeps [OF p inv])
    then have "io_keeps s1 s'" unfolding s' by (intro io_keeps_same) (simp_all add: io_keeps_def set_pos_def [of _ _ s1] iview_def)
    with 1 show ?thesis by (rule io_keeps_trans)
  qed
qed

interpretation contexts: member_invariant "iomanager_vt K :: ('k, 'z) ios_scheme vtable" io_inv for K :: "'k os"
proof
  fix s s' :: "('k, 'z) ios_scheme"
  show "io_inv s'" if "sys.more s' = sys.more s" "io_inv s"
    using that io_inv_iview [OF members_ios [OF that(1)]] by simp
  show "io_inv s'" if "v_notify (iomanager_vt K) s = Inr s'" "io_inv s"
  proof -
    from that(1) obtain k where "s' = s\<lparr>kernel := k\<rparr>" by (auto dest: notify_kernel)
    with kernel_keeps [OF that(2)] show ?thesis by (simp add: io_keeps_def)
  qed
  show "io_inv s'" if "v_idle (iomanager_vt K) e cur t s = Inr s'" "io_inv s" for e cur t
  proof -
    have "io_keeps s s'" using that by (intro idle_keeps) simp_all
    then show ?thesis by (simp add: io_keeps_def)
  qed
qed

text \<open>
  The other steps of the threads do not touch the waiters: the same contract without \<open>idle\<close>, for
  the predicate that the waiters and the vector are those of a given state.
\<close>

definition same_waiters :: "('k, 'z) ios_scheme \<Rightarrow> ('k, 'z) ios_scheme \<Rightarrow> bool" where
  "same_waiters s s' \<longleftrightarrow> waiters s' = waiters s \<and> m_fdContexts s' = m_fdContexts s"

lemma same_waiters_iview: "iview s' = iview s \<Longrightarrow> same_waiters s0 s \<Longrightarrow> same_waiters s0 s'"
  using waiters_iview [of s' s] by (simp add: same_waiters_def iview_def)

interpretation others: member_invariant "notify_vt K :: ('k, 'z) ios_scheme vtable" "same_waiters s0"
  for K :: "'k os" and s0 :: "('k, 'z) ios_scheme"
proof
  fix s s' :: "('k, 'z) ios_scheme"
  show "same_waiters s0 s'" if "sys.more s' = sys.more s" "same_waiters s0 s"
    using that members_ios same_waiters_iview by blast
  show "same_waiters s0 s'" if "v_notify (notify_vt K) s = Inr s'" "same_waiters s0 s"
  proof -
    from that(1) obtain k where "s' = s\<lparr>kernel := k\<rparr>" by (auto dest: notify_kernel)
    then have "iview s' = iview s" by simp
    then show ?thesis using that(2) by (rule same_waiters_iview)
  qed
  show "same_waiters s0 s'" if "v_idle (notify_vt K) e cur t s = Inr s'" for e cur t
    using that by (simp add: notify_vt_def)
qed

lemma schedule_vt: "schedule (iomanager_vt K) = schedule (notify_vt K)"
  by (intro ext) (simp add: schedule_def split: prod.split)

lemma run_dispatch_vt: "run_dispatch (iomanager_vt K) t ret n a = run_dispatch (notify_vt K) t ret n a"
  by (intro ext) (simp add: run_dispatch_def)

lemma run_requeue_vt:
  "run_requeue_fiber (iomanager_vt K) t = run_requeue_fiber (notify_vt K) t"
  "run_requeue_cb (iomanager_vt K) t = run_requeue_cb (notify_vt K) t"
  unfolding run_requeue_fiber_def [abs_def] run_requeue_cb_def [abs_def] schedule_vt by (rule refl)+

lemma vt_parts:
  "v_stopped (notify_vt K) = IOManager_stopped"
  "notify_times (iomanager_vt K) n = notify_times (notify_vt K) n"
  "run_step (iomanager_vt K) t ret = run_step (notify_vt K) t ret"
  "client_step (iomanager_vt K) t e cur ops = client_step (notify_vt K) t e cur ops"
proof -
  show "v_stopped (notify_vt K) = IOManager_stopped" by (simp add: notify_vt_def)
  show "notify_times (iomanager_vt K) n = notify_times (notify_vt K) n" by (induction n) (auto intro!: ext)
  show "run_step (iomanager_vt K) t ret = run_step (notify_vt K) t ret"
    unfolding run_step_def [abs_def] run_dispatch_vt run_requeue_vt by (rule refl)
  show "client_step (iomanager_vt K) t e cur ops = client_step (notify_vt K) t e cur ops"
    unfolding client_step_def [abs_def] schedule_vt by (rule refl)
qed

lemma thread_step_waiters:
  assumes step: "thread_step (iomanager_vt K) t s = Inr s'" and inv: "io_inv s"
  shows "io_keeps s s' \<or> same_waiters s s'"
proof (cases "\<exists>e cur. cpu (tls s t) = KBody e cur SchedulerIdle")
  case True
  with step idle_keeps [OF _ inv] show ?thesis by (auto simp: thread_step_def body_step_def)
next
  case False
  then have "thread_step (iomanager_vt K) t s = thread_step (notify_vt K) t s"
    by (cases "cpu (tls s t)") (auto simp: thread_step_def body_step_def vt_parts split: callback.split)
  with step others.thread_step_keeps [of K t s s' s] show ?thesis by (simp add: same_waiters_def)
qed

lemma stop_late_vt: "stop_late (iomanager_vt K) t = stop_late (notify_vt K) t"
  unfolding stop_late_def [abs_def] vt_parts vt_sel by (rule refl)

lemma stop_vt: "stop (iomanager_vt K) = stop (notify_vt K)"
  unfolding stop_def [abs_def] stop_late_vt vt_parts vt_sel by (rule refl)

lemma sys_step_waiters:
  assumes step: "sys_step (iomanager_vt K) ext s s'" and inv: "io_inv s"
  shows "io_inv s' \<and> (io_keeps s s' \<or> same_waiters s s')"
proof
  show "io_inv s'" using contexts.sys_step_keeps [OF step inv] .
  have refl: "same_waiters s s" by (simp add: same_waiters_def)
  show "io_keeps s s' \<or> same_waiters s s'"
    using step
  proof cases
    case (step_thread t)
    then show ?thesis using thread_step_waiters [OF _ inv] by blast
  next
    case (step_schedule t x)
    then have "schedule (notify_vt K) x s = Inr s'" by (simp add: schedule_vt)
    from others.schedule_keeps [OF this refl] show ?thesis ..
  next
    case (step_start t tids)
    then have "sys.more s' = sys.more s" by (auto simp: start_def Let_def more_start split: if_splits)
    from same_waiters_iview [OF members_ios [OF this] refl] show ?thesis ..
  next
    case (step_stop t)
    then have "stop (notify_vt K) t s = Inr s'" by (simp add: stop_vt)
    from others.stop_keeps [OF this refl] show ?thesis ..
  qed
qed

subsection \<open>Every reachable state\<close>

text \<open>
  The system with its IO operations. Each critical section of \<open>addEvent\<close> is a step: the vector is
  grown only if it is still too short, which the code does not check again when two calls have
  overlapped, and the event is registered on the context the vector has for the descriptor.
  \<open>delEvent\<close> is called for registered events only. What goes wrong otherwise is in \<open>IOFaults\<close>.
\<close>

inductive io_step :: "'k os \<Rightarrow> (task \<Rightarrow> bool) \<Rightarrow> ('k, 'z) ios_scheme \<Rightarrow> ('k, 'z) ios_scheme \<Rightarrow> bool" for K ext where
  io_system: "sys_step (iomanager_vt K) ext s s' \<Longrightarrow> io_step K ext s s'"
| io_grow: "length (m_fdContexts s) \<le> nat n \<Longrightarrow> addEvent_grow n s = Inr (p, s') \<Longrightarrow> io_step K ext s s'"
| io_register: "slot n s = Inr p \<Longrightarrow> addEvent_register K t n ev cb p s = Inr (r, s') \<Longrightarrow> io_step K ext s s'"
| io_delete: "waiting n ev s \<noteq> None \<Longrightarrow> delEvent K n ev s = Inr (b, s') \<Longrightarrow> io_step K ext s s'"
| io_cancel: "cancelEvent K (notify_vt K) n ev s = Inr (b, s') \<Longrightarrow> io_step K ext s s'"
| io_cancelAll: "cancelAll K (notify_vt K) n s = Inr (b, s') \<Longrightarrow> io_step K ext s s'"

inductive io_reach :: "'k os \<Rightarrow> (task \<Rightarrow> bool) \<Rightarrow> ('k, 'z) ios_scheme \<Rightarrow> ('k, 'z) ios_scheme \<Rightarrow> bool" for K ext s0 where
  io_refl: "io_reach K ext s0 s0"
| io_more: "io_reach K ext s0 s \<Longrightarrow> io_step K ext s s' \<Longrightarrow> io_reach K ext s0 s'"

lemma io_step_effect:
  assumes "io_step K ext s s'" and inv: "io_inv s"
  shows "io_inv s' \<and> (io_keeps s s' \<or> same_waiters s s' \<or>
    (\<exists>n ev p. delEvent K n ev s = Inr (True, s') \<and> slot n s = Inr p \<and> io_drops (p, ev) s s'))"
  using assms(1)
proof cases
  case io_system
  with sys_step_waiters [OF _ inv] show ?thesis by blast
next
  case (io_grow n p)
  with grow_keeps [OF _ inv] show ?thesis by (fastforce simp: io_keeps_def)
next
  case (io_register n p t ev cb r)
  with register_keeps [OF _ inv] show ?thesis by (fastforce simp: io_keeps_def)
next
  case (io_delete n ev b)
  with delete_keeps [OF io_delete(2) inv] show ?thesis by (fastforce simp: io_keeps_def io_drops_def)
next
  case (io_cancel n ev b)
  with cancel_keeps [OF _ inv] show ?thesis by (fastforce simp: io_keeps_def)
next
  case (io_cancelAll n b)
  with cancelAll_keeps [OF _ inv] show ?thesis by (fastforce simp: io_keeps_def)
qed

lemma io_reach_inv: "io_reach K ext s0 s \<Longrightarrow> io_inv s0 \<Longrightarrow> io_inv s"
  by (induction rule: io_reach.induct) (auto dest: io_step_effect)

lemma io_inv_IOManager_new:
  assumes new: "IOManager_new K t threads useCaller name tids (fresh_iomanager k p) = Inr s"
  shows "io_inv s \<and> waiters s = Map.empty \<and> 32 \<le> length (m_fdContexts s)"
proof -
  from new obtain s1 ep fds k4 where
    s1: "Scheduler_new t threads useCaller name (fresh_iomanager k p) = Inr s1"
    and st: "start tids (contextResize 32 (s1\<lparr>m_epfd := ep, m_notifyFds := fds, kernel := k4\<rparr>)) = Inr s"
    unfolding IOManager_new_def by (elim rbindE) (auto simp: Let_def split: prod.splits)
  let ?s2 = "s1\<lparr>m_epfd := ep, m_notifyFds := fds, kernel := k4\<rparr>"
  have "sys.more s1 = sys.more (fresh_iomanager k p)" using s1 by (rule more_Scheduler_new)
  from members_ios [OF this] have view: "iview ?s2 = iview (fresh_iomanager k p)" by (simp add: iview_def)
  moreover have "io_inv (fresh_iomanager k p)"
    by (simp add: io_inv_def fresh_iomanager_def fresh_scheduler_def sys.defs proc.defs waiters_def dom_def)
  ultimately have inv: "io_inv ?s2" using io_inv_iview [of ?s2 "fresh_iomanager k p"] by simp
  have e: "m_fdContexts ?s2 = []" "fdctx ?s2 = (\<lambda>_. None)"
    using view by (simp_all add: iview_def fresh_iomanager_def fresh_scheduler_def sys.defs proc.defs)
  have r: "contextResize 32 ?s2 = append_contexts 32 ?s2" using e(1) by (simp add: contextResize_def del: append_contexts.simps)
  have "waiters ?s2 = Map.empty" unfolding waiters_def e(2) by auto
  then have ok: "io_inv (contextResize 32 ?s2)" "waiters (contextResize 32 ?s2) = Map.empty"
    "32 \<le> length (m_fdContexts (contextResize 32 ?s2))"
    using append_contexts_ok [OF inv, of 32] unfolding r by auto
  have "sys.more s = sys.more (contextResize 32 ?s2)"
    using st by (auto simp: start_def Let_def more_start split: if_splits)
  then have "iview s = iview (contextResize 32 ?s2)" by (rule members_ios)
  with ok io_inv_iview [OF this] waiters_iview [of s "contextResize 32 ?s2"] show ?thesis by (simp add: iview_def)
qed

end
