(* ===== verification/IOWaits.thy ===== *)
theory IOWaits
  imports IORuns
begin

section \<open>Who waits, in every reachable state of an IO manager\<close>

text \<open>
  What the invariant of theory \<open>IORuns\<close> says of the count of pending events and of the waiters.
\<close>

lemma demo_registered:
  "\<exists>s p. io_reach demo_os ext demo_started s \<and> io_inv s \<and> slot 3 s = Inr p \<and> fdctx s p \<noteq> None \<and>
     waiters s = [(p, READ) \<mapsto> Inr (Client [])]"
proof -
  note new = io_inv_IOManager_new [OF demo_started(1)]
  then have "io_inv demo_started" "nat 3 < length (m_fdContexts demo_started)" by auto
  then obtain p c where p: "slot 3 demo_started = Inr p" "fdctx demo_started p = Some c"
    by (metis slot_ok zero_le_numeral)
  with addEvent_register_ok [of demo_started p c READ 1 "Some (Client [])" demo_os 3] new obtain s r where
    s: "addEvent_register demo_os 1 3 READ (Some (Client [])) p demo_started = Inr (r, s)" "io_inv s"
      "m_fdContexts s = m_fdContexts demo_started" "waiters s = [(p, READ) \<mapsto> Inr (Client [])]"
    by (auto simp: new_waiter_def can_wait_def demo_os_works split: if_splits)
  have p': "slot 3 s = Inr p" using p(1) by (simp only: slot_def s(3))
  have "fdctx s p \<noteq> None" using s(4) waiters_def [of s] by (auto dest: fun_cong [of _ _ "(p, READ)"] split: option.splits)
  with s p' io_more [OF io_refl io_register [OF p(1) s(1)]] show ?thesis by blast
qed





end
