(* ===== verification/YamlCasts.thy ===== *)
theory YamlCasts
  imports Prelude "HOL-Library.Char_ord" "HOL-Library.List_Lexorder"
begin

section \<open>Conversions between values and YAML text (source/config.hpp)\<close>

text \<open>
  \<open>LexicalCast<F, T>\<close> for the containers. The YAML library (yaml-cpp) is not part of the repository:
  \<open>yaml_lib\<close> holds the functions of it that the code calls, as parameters, over the data type of a
  node its documentation describes. An exception is \<open>None\<close>. The casts of the element type are
  arguments too (\<open>boost::lexical_cast\<close> for the basic types).
  \<^item> \<open>std::vector\<close> and \<open>std::list\<close> are lists; \<open>std::set\<close> and \<open>std::map\<close> are lists in the order of
    their comparison; of an unordered container the model knows the set or the map, and its
    iteration order is an argument where the code iterates over it.
\<close>

datatype yaml = YNull | YScalar string | YSeq "yaml list" | YMap "(string \<times> yaml) list"

text \<open>
  \<^item> \<open>y_load\<close> is \<open>YAML::Load\<close>, \<open>y_dump\<close> the text \<open>ss << node\<close>;
  \<^item> \<open>y_nodes\<close> lists \<open>node[0]\<close>, ..., \<open>node[node.size() - 1]\<close> (\<open>None\<close>: the node is not defined);
  \<^item> \<open>y_pairs\<close> lists the keys and nodes an iteration over a map meets;
  \<^item> \<open>y_get\<close> is \<open>node[key]\<close> for a text: \<open>None\<close> throws, \<open>Some None\<close> is a node that is not defined;
  \<^item> \<open>y_as\<close> is \<open>node.as<std::string>()\<close>.
\<close>

record yaml_lib =
  y_load :: "string \<Rightarrow> yaml option"
  y_dump :: "yaml \<Rightarrow> string"
  y_nodes :: "yaml \<Rightarrow> yaml option list"
  y_pairs :: "yaml \<Rightarrow> (string \<times> yaml) list option"
  y_get :: "yaml \<Rightarrow> string \<Rightarrow> yaml option option"
  y_as :: "yaml \<Rightarrow> string option"

type_synonym 'a from_str = "string \<Rightarrow> 'a option"
type_synonym 'a to_str = "'a \<Rightarrow> string option"

text \<open>What the library documents of these functions, as far as the proofs use it.\<close>

definition yaml_law :: "yaml_lib \<Rightarrow> bool" where
  "yaml_law Y \<longleftrightarrow>
     (\<forall>n. y_load Y (y_dump Y n) = Some n) \<and>
     (\<forall>ns. y_nodes Y (YSeq ns) = map Some ns) \<and>
     (\<forall>kvs. y_pairs Y (YMap kvs) = Some kvs) \<and> y_pairs Y (YSeq []) = Some [] \<and>
     (\<forall>kvs k. y_get Y (YMap kvs) k = Some (map_of kvs k)) \<and>
     (\<forall>k. y_get Y YNull k = Some None) \<and>
     (\<forall>w. y_as Y (YScalar w) = Some w)"

lemma yaml_lawD:
  assumes "yaml_law Y"
  shows "y_load Y (y_dump Y n) = Some n" "y_nodes Y (YSeq ns) = map Some ns"
    "y_pairs Y (YMap kvs) = Some kvs" "y_pairs Y (YSeq []) = Some []"
    "y_get Y (YMap kvs) k = Some (map_of kvs k)" "y_get Y YNull k = Some None" "y_as Y (YScalar w) = Some w"
  using assms by (simp_all add: yaml_law_def)

text \<open>The texts \<open>ss << node[i]\<close>; a node that is not defined prints nothing.\<close>

definition elements :: "yaml_lib \<Rightarrow> yaml \<Rightarrow> string list" where
  "elements Y node = map (\<lambda>n. case n of None \<Rightarrow> [] | Some m \<Rightarrow> y_dump Y m) (y_nodes Y node)"

text \<open>The keys and texts \<open>ss << it->second\<close> of the node iterated as a map.\<close>

definition entries :: "yaml_lib \<Rightarrow> yaml \<Rightarrow> (string \<times> string) list option" where
  "entries Y node = map_option (map (\<lambda>(k, n). (k, y_dump Y n))) (y_pairs Y node)"

subsection \<open>Sequences\<close>

definition vector_from :: "yaml_lib \<Rightarrow> 'a from_str \<Rightarrow> 'a list from_str" where
  "vector_from Y f v =
     Option.bind (y_load Y v) (\<lambda>node. those (map f (elements Y node)))"

text \<open>\<open>node.push_back(YAML::Load(cast(i)))\<close> for every element.\<close>

definition element_nodes :: "yaml_lib \<Rightarrow> 'a to_str \<Rightarrow> 'a list \<Rightarrow> yaml list option" where
  "element_nodes Y t v = those (map (\<lambda>i. Option.bind (t i) (y_load Y)) v)"

definition vector_to :: "yaml_lib \<Rightarrow> 'a to_str \<Rightarrow> 'a list to_str" where
  "vector_to Y t v = map_option (\<lambda>ns. y_dump Y (YSeq ns)) (element_nodes Y t v)"

definition list_from :: "yaml_lib \<Rightarrow> 'a from_str \<Rightarrow> 'a list from_str" where
  "list_from Y f v =
     Option.bind (y_load Y v) (\<lambda>node. those (map f (elements Y node)))"

definition list_to :: "yaml_lib \<Rightarrow> 'a to_str \<Rightarrow> 'a list to_str" where
  "list_to Y t v = map_option (\<lambda>ns. y_dump Y (YSeq ns)) (element_nodes Y t v)"

subsection \<open>Sets\<close>

text \<open>\<open>insert\<close> of an ordered container with the comparison \<open>lt\<close>: an equivalent element stays.\<close>

fun set_insert :: "('a \<Rightarrow> 'a \<Rightarrow> bool) \<Rightarrow> 'a \<Rightarrow> 'a list \<Rightarrow> 'a list" where
  "set_insert lt x [] = [x]"
| "set_insert lt x (y # ys) =
     (if lt x y then x # y # ys else if lt y x then y # set_insert lt x ys else y # ys)"

definition set_from :: "yaml_lib \<Rightarrow> ('a \<Rightarrow> 'a \<Rightarrow> bool) \<Rightarrow> 'a from_str \<Rightarrow> 'a list from_str" where
  "set_from Y lt f v =
     Option.bind (y_load Y v) (\<lambda>node.
       map_option (\<lambda>xs. fold (set_insert lt) xs []) (those (map f (elements Y node))))"

definition set_to :: "yaml_lib \<Rightarrow> 'a to_str \<Rightarrow> 'a list to_str" where
  "set_to Y t v = map_option (\<lambda>ns. y_dump Y (YSeq ns)) (element_nodes Y t v)"

definition unordered_set_from :: "yaml_lib \<Rightarrow> 'a from_str \<Rightarrow> 'a set from_str" where
  "unordered_set_from Y f v =
     Option.bind (y_load Y v) (\<lambda>node. map_option set (those (map f (elements Y node))))"

definition unordered_set_to :: "yaml_lib \<Rightarrow> ('a set \<Rightarrow> 'a list) \<Rightarrow> 'a to_str \<Rightarrow> 'a set to_str" where
  "unordered_set_to Y order t v =
     map_option (\<lambda>ns. y_dump Y (YSeq ns)) (element_nodes Y t (order v))"

subsection \<open>Maps\<close>

definition cast_entries :: "'a from_str \<Rightarrow> (string \<times> string) list \<Rightarrow> (string \<times> 'a) list option" where
  "cast_entries f es = those (map (\<lambda>(k, w). map_option (Pair k) (f w)) es)"

definition map_from :: "yaml_lib \<Rightarrow> 'a from_str \<Rightarrow> (string \<times> 'a) list from_str" where
  "map_from Y f v =
     Option.bind (y_load Y v) (\<lambda>node. Option.bind (entries Y node) (\<lambda>es.
       map_option (\<lambda>xs. fold (set_insert (\<lambda>a b. fst a < fst b)) xs []) (cast_entries f es)))"

text \<open>
  The node starts as an empty sequence and becomes a map with its first key.
\<close>

definition map_node :: "(string \<times> yaml) list \<Rightarrow> yaml" where
  "map_node kvs = (if kvs = [] then YSeq [] else YMap kvs)"

definition entry_nodes :: "yaml_lib \<Rightarrow> 'a to_str \<Rightarrow> (string \<times> 'a) list \<Rightarrow> (string \<times> yaml) list option" where
  "entry_nodes Y t v = those (map (\<lambda>(k, x). map_option (Pair k) (Option.bind (t x) (y_load Y))) v)"

definition map_to :: "yaml_lib \<Rightarrow> 'a to_str \<Rightarrow> (string \<times> 'a) list to_str" where
  "map_to Y t v = map_option (\<lambda>kvs. y_dump Y (map_node kvs)) (entry_nodes Y t v)"

definition unordered_map_from :: "yaml_lib \<Rightarrow> 'a from_str \<Rightarrow> (string \<rightharpoonup> 'a) from_str" where
  "unordered_map_from Y f v =
     Option.bind (y_load Y v) (\<lambda>node. Option.bind (entries Y node) (\<lambda>es.
       map_option map_of (cast_entries f es)))"

definition unordered_map_to ::
    "yaml_lib \<Rightarrow> ((string \<rightharpoonup> 'a) \<Rightarrow> (string \<times> 'a) list) \<Rightarrow> 'a to_str \<Rightarrow> (string \<rightharpoonup> 'a) to_str" where
  "unordered_map_to Y order t v =
     map_option (\<lambda>kvs. y_dump Y (map_node kvs)) (entry_nodes Y t (order v))"

subsection \<open>The contract of a cast\<close>

text \<open>
  What a pair of casts has to do for a value to be an element of a container: the text of the value is
  YAML, and the value can be read from that text and from what the library prints for its node.
\<close>

definition cast_ok :: "yaml_lib \<Rightarrow> 'a from_str \<Rightarrow> 'a to_str \<Rightarrow> 'a \<Rightarrow> bool" where
  "cast_ok Y f t x \<longleftrightarrow>
     (\<exists>s n. t x = Some s \<and> y_load Y s = Some n \<and> f s = Some x \<and> f (y_dump Y n) = Some x)"

lemma cast_okD: "cast_ok Y f t x \<Longrightarrow> Option.bind (t x) f = Some x"
  by (auto simp: cast_ok_def)

text \<open>Inserting a list that is strictly sorted gives the list back.\<close>

lemma set_insert_last:
  "\<forall>y \<in> set ys. lt y x \<and> \<not> lt x y \<Longrightarrow> set_insert lt x ys = ys @ [x]"
  by (induction ys) auto

lemma fold_set_insert:
  assumes asym: "\<And>a b. lt a b \<Longrightarrow> \<not> lt b a"
  shows "sorted_wrt lt (acc @ xs) \<Longrightarrow> fold (set_insert lt) xs acc = acc @ xs"
proof (induction xs arbitrary: acc)
  case (Cons x xs)
  have "set_insert lt x acc = acc @ [x]"
    using Cons.prems asym by (intro set_insert_last) (auto simp: sorted_wrt_append)
  with Cons.IH [of "acc @ [x]"] Cons.prems show ?case by simp
qed simp

locale yaml_codec =
  fixes Y :: yaml_lib and f :: "'a from_str" and t :: "'a to_str" and ok :: "'a \<Rightarrow> bool"
  assumes cast: "yaml_law Y \<Longrightarrow> ok x \<Longrightarrow> cast_ok Y f t x"
begin

lemma element_nodes_ok:
  assumes Y: "yaml_law Y" and v: "\<forall>x \<in> set v. ok x"
  shows "\<exists>ns. element_nodes Y t v = Some ns \<and> those (map f (map (y_dump Y) ns)) = Some v"
  using v
proof (induction v)
  case Nil
  then show ?case by (simp add: element_nodes_def)
next
  case (Cons x v)
  then obtain ns where ns: "element_nodes Y t v = Some ns" "those (map f (map (y_dump Y) ns)) = Some v"
    by auto
  from cast [OF Y, of x] Cons.prems obtain s n where
    "t x = Some s" "y_load Y s = Some n" "f (y_dump Y n) = Some x" by (auto simp: cast_ok_def)
  with ns show ?case by (auto simp: element_nodes_def)
qed

lemma entry_nodes_ok:
  assumes Y: "yaml_law Y" and v: "\<forall>(k, x) \<in> set v. ok x"
  shows "\<exists>kvs. entry_nodes Y t v = Some kvs \<and> map fst kvs = map fst v \<and>
    cast_entries f (map (\<lambda>(k, n). (k, y_dump Y n)) kvs) = Some v"
  using v
proof (induction v)
  case Nil
  then show ?case by (simp add: entry_nodes_def cast_entries_def)
next
  case (Cons kx v)
  obtain k x where kx: "kx = (k, x)" by (cases kx)
  from Cons kx obtain kvs where kvs: "entry_nodes Y t v = Some kvs" "map fst kvs = map fst v"
    "cast_entries f (map (\<lambda>(k, n). (k, y_dump Y n)) kvs) = Some v" by auto
  from cast [OF Y, of x] Cons.prems kx obtain s n where
    "t x = Some s" "y_load Y s = Some n" "f (y_dump Y n) = Some x" by (auto simp: cast_ok_def)
  with kvs kx show ?case by (auto simp: entry_nodes_def cast_entries_def)
qed

lemma seq_ok:
  assumes Y: "yaml_law Y" and v: "\<forall>x \<in> set v. ok x"
  obtains ns where "element_nodes Y t v = Some ns" "y_load Y (y_dump Y (YSeq ns)) = Some (YSeq ns)"
    "those (map f (elements Y (YSeq ns))) = Some v"
proof -
  from element_nodes_ok [OF assms] obtain ns where
    ns: "element_nodes Y t v = Some ns" "those (map f (map (y_dump Y) ns)) = Some v" by blast
  with Y that show ?thesis by (simp add: elements_def yaml_lawD comp_def)
qed

lemma vector_ok:
  assumes Y: "yaml_law Y" and v: "\<forall>x \<in> set v. ok x"
  shows "cast_ok Y (vector_from Y f) (vector_to Y t) v"
  by (rule seq_ok [OF assms]) (auto simp: cast_ok_def vector_from_def vector_to_def)

lemma list_ok:
  assumes Y: "yaml_law Y" and v: "\<forall>x \<in> set v. ok x"
  shows "cast_ok Y (list_from Y f) (list_to Y t) v"
  by (rule seq_ok [OF assms]) (auto simp: cast_ok_def list_from_def list_to_def)

lemma set_ok:
  assumes Y: "yaml_law Y" and v: "\<forall>x \<in> set v. ok x"
    and lt: "sorted_wrt lt v" "\<And>a b. lt a b \<Longrightarrow> \<not> lt b a"
  shows "cast_ok Y (set_from Y lt f) (set_to Y t) v"
  by (rule seq_ok [OF Y v])
    (use fold_set_insert [of lt "[]" v, OF lt(2)] lt(1) in
      \<open>auto simp: cast_ok_def set_from_def set_to_def\<close>)

lemma unordered_set_ok:
  assumes Y: "yaml_law Y" and v: "\<forall>x \<in> v. ok x" and order: "set (order v) = v"
  shows "cast_ok Y (unordered_set_from Y f) (unordered_set_to Y order t) v"
  by (rule seq_ok [OF Y, of "order v"])
    (use v order in \<open>auto simp: cast_ok_def unordered_set_from_def unordered_set_to_def\<close>)

lemma pairs_ok:
  assumes Y: "yaml_law Y" and v: "\<forall>(k, x) \<in> set v. ok x"
  obtains kvs where "entry_nodes Y t v = Some kvs"
    "y_load Y (y_dump Y (map_node kvs)) = Some (map_node kvs)"
    "Option.bind (entries Y (map_node kvs)) (cast_entries f) = Some v"
proof -
  from entry_nodes_ok [OF assms] obtain kvs where kvs: "entry_nodes Y t v = Some kvs"
    "map fst kvs = map fst v" "cast_entries f (map (\<lambda>(k, n). (k, y_dump Y n)) kvs) = Some v" by blast
  have "entries Y (map_node kvs) = Some (map (\<lambda>(k, n). (k, y_dump Y n)) kvs)"
    using Y by (simp add: map_node_def entries_def yaml_lawD)
  with kvs Y that show ?thesis by (simp add: yaml_lawD)
qed

lemma map_ok:
  assumes Y: "yaml_law Y" and v: "\<forall>(k, x) \<in> set v. ok x"
    and sorted: "sorted_wrt (\<lambda>a b. fst a < fst b) v"
  shows "cast_ok Y (map_from Y f) (map_to Y t) v"
proof (rule pairs_ok [OF Y v])
  fix kvs
  assume kvs: "entry_nodes Y t v = Some kvs"
    "y_load Y (y_dump Y (map_node kvs)) = Some (map_node kvs)"
    and es: "Option.bind (entries Y (map_node kvs)) (cast_entries f) = Some v"
  have "fold (set_insert (\<lambda>a b. fst a < fst b)) v [] = v"
    using fold_set_insert [of "\<lambda>a b :: string \<times> 'a. fst a < fst b" "[]" v] sorted by auto
  with kvs es show ?thesis by (auto simp: cast_ok_def map_from_def map_to_def bind_eq_Some_conv)
qed

lemma unordered_map_ok:
  assumes Y: "yaml_law Y" and v: "\<forall>x \<in> ran v. ok x"
    and order: "map_of (order v) = v" "distinct (map fst (order v))"
  shows "cast_ok Y (unordered_map_from Y f) (unordered_map_to Y order t) v"
proof (rule pairs_ok [OF Y, of "order v"])
  show "\<forall>(k, x) \<in> set (order v). ok x"
    using v map_of_is_SomeI [OF order(2)] order(1) by (auto simp: ran_def)
qed (use order in \<open>auto simp: cast_ok_def unordered_map_from_def unordered_map_to_def bind_eq_Some_conv\<close>)

end

end
