(* ===== verification/YamlFlow.thy ===== *)
theory YamlFlow
  imports YamlCasts
begin

section \<open>An instance of the YAML library\<close>

text \<open>
  The hypothesis \<open>yaml_law\<close> can hold: a printer of nodes in YAML's flow style (a comma after every
  item, numbers plain, every other scalar quoted) with a parser for what it prints. The witnesses of
  the theorems about configurations evaluate on it.
\<close>

definition is_digit :: "char \<Rightarrow> bool" where
  "is_digit c \<longleftrightarrow> c \<in> set ''0123456789''"

fun quote :: "string \<Rightarrow> string" where
  "quote [] = [CHR 0x22]"
| "quote (c # cs) = (if c = CHR 0x22 \<or> c = CHR 0x5C then CHR 0x5C # c # quote cs else c # quote cs)"

fun unquote :: "string \<Rightarrow> (string \<times> string) option" where
  "unquote [] = None"
| "unquote (c # cs) =
     (if c = CHR 0x22 then Some ([], cs)
      else if c = CHR 0x5C
      then (case cs of [] \<Rightarrow> None | d # ds \<Rightarrow> map_option (\<lambda>(w, r). (d # w, r)) (unquote ds))
      else map_option (\<lambda>(w, r). (c # w, r)) (unquote cs))"

definition plain :: "string \<Rightarrow> bool" where
  "plain w \<longleftrightarrow> w \<noteq> [] \<and> (\<forall>c \<in> set w. is_digit c)"

fun flow_dump :: "yaml \<Rightarrow> string" where
  "flow_dump YNull = ''~''"
| "flow_dump (YScalar w) = (if plain w then w else CHR 0x22 # quote w)"
| "flow_dump (YSeq ns) = ''['' @ concat (map (\<lambda>n. flow_dump n @ '','') ns) @ '']''"
| "flow_dump (YMap kvs) =
     ''{'' @ concat (map (\<lambda>(k, n). CHR 0x22 # quote k @ '':'' @ flow_dump n @ '','') kvs) @ ''}''"

fun flow_node :: "nat \<Rightarrow> string \<Rightarrow> (yaml \<times> string) option"
and flow_seq :: "nat \<Rightarrow> string \<Rightarrow> (yaml list \<times> string) option"
and flow_map :: "nat \<Rightarrow> string \<Rightarrow> ((string \<times> yaml) list \<times> string) option" where
  "flow_node 0 s = None"
| "flow_node (Suc k) s =
     (case s of
        [] \<Rightarrow> None
      | c # cs \<Rightarrow>
          if c = CHR ''~'' then Some (YNull, cs)
          else if c = CHR 0x22 then map_option (\<lambda>(w, r). (YScalar w, r)) (unquote cs)
          else if c = CHR ''['' then map_option (\<lambda>(ns, r). (YSeq ns, r)) (flow_seq k cs)
          else if c = CHR ''{'' then map_option (\<lambda>(kvs, r). (YMap kvs, r)) (flow_map k cs)
          else if is_digit c then Some (YScalar (takeWhile is_digit s), dropWhile is_digit s)
          else None)"
| "flow_seq 0 s = None"
| "flow_seq (Suc k) s =
     (if s \<noteq> [] \<and> hd s = CHR '']'' then Some ([], tl s)
      else Option.bind (flow_node k s) (\<lambda>(n, r).
             if r \<noteq> [] \<and> hd r = CHR '',''
             then map_option (\<lambda>(ns, r'). (n # ns, r')) (flow_seq k (tl r)) else None))"
| "flow_map 0 s = None"
| "flow_map (Suc k) s =
     (if s \<noteq> [] \<and> hd s = CHR ''}'' then Some ([], tl s)
      else if s = [] \<or> hd s \<noteq> CHR 0x22 then None
      else Option.bind (unquote (tl s)) (\<lambda>(w, r).
             if r \<noteq> [] \<and> hd r = CHR '':''
             then Option.bind (flow_node k (tl r)) (\<lambda>(n, r1).
                    if r1 \<noteq> [] \<and> hd r1 = CHR '',''
                    then map_option (\<lambda>(kvs, r'). ((w, n) # kvs, r')) (flow_map k (tl r1)) else None)
             else None))"

definition flow_load :: "string \<Rightarrow> yaml option" where
  "flow_load s = map_option fst (flow_node (length s) s)"

definition flow_yaml :: yaml_lib where
  "flow_yaml =
     \<lparr>y_load = flow_load, y_dump = flow_dump,
      y_nodes = (\<lambda>n. case n of YSeq ns \<Rightarrow> map Some ns | _ \<Rightarrow> []),
      y_pairs = (\<lambda>n. case n of YMap kvs \<Rightarrow> Some kvs | YSeq (_ # _) \<Rightarrow> None | _ \<Rightarrow> Some []),
      y_get = (\<lambda>n k. case n of YMap kvs \<Rightarrow> Some (map_of kvs k) | YScalar _ \<Rightarrow> None | _ \<Rightarrow> Some None),
      y_as = (\<lambda>n. case n of YScalar w \<Rightarrow> Some w | _ \<Rightarrow> None)\<rparr>"

lemma unquote_quote: "unquote (quote w @ r) = Some (w, r)"
  by (induction w) auto

lemma takeWhile_digits:
  "\<forall>c \<in> set w. is_digit c \<Longrightarrow> r = [] \<or> \<not> is_digit (hd r) \<Longrightarrow>
   takeWhile is_digit (w @ r) = w \<and> dropWhile is_digit (w @ r) = r"
  by (induction w) (auto simp: takeWhile_eq_Nil_iff dropWhile_eq_self_iff)

lemma digit_ne: "is_digit c \<Longrightarrow> c \<notin> {CHR ''~'', CHR 0x22, CHR ''['', CHR ''{'', CHR '']''}"
  by (auto simp: is_digit_def)

lemma flow_dump_hd: "flow_dump n \<noteq> [] \<and> hd (flow_dump n) \<noteq> CHR '']''"
proof (cases n)
  case (YScalar w)
  then show ?thesis using digit_ne by (cases w) (auto simp: plain_def)
qed simp_all

lemma flow_scalar:
  assumes "r = [] \<or> \<not> is_digit (hd r)"
  shows "flow_node (Suc k) (flow_dump (YScalar w) @ r) = Some (YScalar w, r)"
proof (cases "plain w")
  case True
  then obtain c cs where w: "w = c # cs" "is_digit c" "\<forall>c \<in> set w. is_digit c"
    by (cases w) (auto simp: plain_def)
  with takeWhile_digits [OF w(3) assms] True digit_ne [OF w(2)] show ?thesis by simp
next
  case False
  then show ?thesis by (simp add: unquote_quote)
qed

lemma flow_seq_dump:
  assumes "\<And>n k r. n \<in> set ns \<Longrightarrow> length (flow_dump n) \<le> k \<Longrightarrow> r = [] \<or> \<not> is_digit (hd r) \<Longrightarrow>
    flow_node k (flow_dump n @ r) = Some (n, r)"
  shows "length (concat (map (\<lambda>n. flow_dump n @ '','') ns)) < k \<Longrightarrow>
    flow_seq k (concat (map (\<lambda>n. flow_dump n @ '','') ns) @ CHR '']'' # r) = Some (ns, r)"
  using assms
proof (induction ns arbitrary: k)
  case Nil
  then show ?case by (cases k) auto
next
  case (Cons n ns)
  then obtain j where k: "k = Suc j" by (cases k) auto
  let ?rest = "concat (map (\<lambda>n. flow_dump n @ '','') ns) @ CHR '']'' # r"
  have "flow_node j (flow_dump n @ CHR '','' # ?rest) = Some (n, CHR '','' # ?rest)"
    using Cons.prems k by (intro Cons.prems(2)) (auto simp: is_digit_def)
  moreover have "flow_seq j ?rest = Some (ns, r)"
    using Cons.prems k by (intro Cons.IH) auto
  ultimately show ?case using k flow_dump_hd [of n] by (simp add: hd_append)
qed

lemma flow_map_dump:
  assumes "\<And>w n k r. (w, n) \<in> set kvs \<Longrightarrow> length (flow_dump n) \<le> k \<Longrightarrow>
    r = [] \<or> \<not> is_digit (hd r) \<Longrightarrow> flow_node k (flow_dump n @ r) = Some (n, r)"
  shows "length (concat (map (\<lambda>(w, n). CHR 0x22 # quote w @ '':'' @ flow_dump n @ '','') kvs)) < k \<Longrightarrow>
    flow_map k (concat (map (\<lambda>(w, n). CHR 0x22 # quote w @ '':'' @ flow_dump n @ '','') kvs)
      @ CHR ''}'' # r) = Some (kvs, r)"
  using assms
proof (induction kvs arbitrary: k)
  case Nil
  then show ?case by (cases k) auto
next
  case (Cons wn kvs)
  obtain w n where wn: "wn = (w, n)" by (cases wn)
  from Cons.prems obtain j where k: "k = Suc j" by (cases k) auto
  let ?rest = "concat (map (\<lambda>(w, n). CHR 0x22 # quote w @ '':'' @ flow_dump n @ '','') kvs) @ CHR ''}'' # r"
  have "flow_node j (flow_dump n @ CHR '','' # ?rest) = Some (n, CHR '','' # ?rest)"
    using Cons.prems k wn by (intro Cons.prems(2) [of w]) (auto simp: is_digit_def)
  moreover have "flow_map j ?rest = Some (kvs, r)"
    using Cons.prems k wn by (intro Cons.IH) auto
  ultimately show ?case using k wn by (simp add: unquote_quote)
qed

lemma flow_node_dump:
  "length (flow_dump n) \<le> k \<Longrightarrow> r = [] \<or> \<not> is_digit (hd r) \<Longrightarrow>
   flow_node k (flow_dump n @ r) = Some (n, r)"
proof (induction n arbitrary: k r)
  case YNull
  then show ?case by (cases k) auto
next
  case (YScalar w)
  then obtain j where "k = Suc j" using flow_dump_hd [of "YScalar w"] by (cases k) auto
  with YScalar flow_scalar show ?case by blast
next
  case (YSeq ns)
  then obtain j where k: "k = Suc j" by (cases k) auto
  have "flow_seq j (concat (map (\<lambda>n. flow_dump n @ '','') ns) @ CHR '']'' # r) = Some (ns, r)"
    by (rule flow_seq_dump) (use YSeq k in auto)
  with k show ?case by simp
next
  case (YMap kvs)
  then obtain j where k: "k = Suc j" by (cases k) auto
  have "flow_map j (concat (map (\<lambda>(w, n). CHR 0x22 # quote w @ '':'' @ flow_dump n @ '','') kvs)
      @ CHR ''}'' # r) = Some (kvs, r)"
  proof (rule flow_map_dump)
    fix w n and k :: nat and r :: string
    assume "(w, n) \<in> set kvs" "length (flow_dump n) \<le> k" "r = [] \<or> \<not> is_digit (hd r)"
    then show "flow_node k (flow_dump n @ r) = Some (n, r)"
      using YMap.IH [of "(w, n)" n] by (simp add: snds.simps)
  qed (use YMap.prems k in auto)
  with k show ?case by simp
qed

lemma flow_law: "yaml_law flow_yaml"
proof -
  have "flow_load (flow_dump n) = Some n" for n
    using flow_node_dump [of n "length (flow_dump n)" "[]"] by (simp add: flow_load_def)
  then show ?thesis by (simp add: yaml_law_def flow_yaml_def)
qed

end
