(* ===== verification/Configs.thy ===== *)
theory Configs
  imports YamlFlow "HOL-Library.Word"
begin

section \<open>Configuration arguments and their manager (source/config.hpp, source/config.cpp)\<close>

text \<open>
  \<open>ConfigArg<T>\<close> for every \<open>T\<close> at once: \<open>'t\<close> is the type of type names (\<open>typeid(T)\<close>, what
  \<open>dynamic_pointer_cast\<close> tests), \<open>'v\<close> holds the values of all of them, and the casts of a type are
  arguments, \<open>F ty\<close> from text and \<open>T ty\<close> to text. A listener is given the old and the new value and
  the world \<open>'w\<close> outside the configuration, and answers with the world it leaves and whether it
  returned (False: it threw a \<open>std::exception\<close>). It does not call back into the configuration.
  \<open>std::map\<close> is a list in the order of its keys.
\<close>

type_synonym ('v, 'w) listener = "'v \<Rightarrow> 'v \<Rightarrow> 'w \<Rightarrow> 'w \<times> bool"

record ('t, 'v, 'w) config_arg =
  ca_name :: string
  ca_description :: string
  ca_type :: 't
  ca_val :: 'v
  ca_cbs :: "(64 word \<times> ('v, 'w) listener) list"

definition tolower :: "char \<Rightarrow> char" where
  "tolower c = (if CHR ''A'' \<le> c \<and> c \<le> CHR ''Z'' then char_of (of_char c + 32 :: nat) else c)"

definition ConfigArg_new :: "'t \<Rightarrow> string \<Rightarrow> 'v \<Rightarrow> string \<Rightarrow> ('t, 'v, 'w) config_arg" where
  "ConfigArg_new ty name v description =
     \<lparr>ca_name = map tolower name, ca_description = description, ca_type = ty, ca_val = v, ca_cbs = []\<rparr>"

subsection \<open>Values\<close>

fun run_listeners ::
    "(64 word \<times> ('v, 'w) listener) list \<Rightarrow> 'v \<Rightarrow> 'v \<Rightarrow> 'w \<Rightarrow> 'w \<times> bool" where
  "run_listeners [] old new w = (w, True)"
| "run_listeners (i # cbs) old new w =
     (case snd i old new w of (w1, ok) \<Rightarrow> if ok then run_listeners cbs old new w1 else (w1, False))"

text \<open>The result: the argument, the world, and whether \<open>setValue\<close> returned.\<close>

definition setValue ::
    "'v \<Rightarrow> ('t, 'v, 'w) config_arg \<Rightarrow> 'w \<Rightarrow> ('t, 'v, 'w) config_arg \<times> 'w \<times> bool" where
  "setValue val a w =
     (if ca_val a = val then (a, w, True)
      else case run_listeners (ca_cbs a) (ca_val a) val w of
             (w1, ok) \<Rightarrow> (if ok then a\<lparr>ca_val := val\<rparr> else a, w1, ok))"

definition getValue :: "('t, 'v, 'w) config_arg \<Rightarrow> 'v" where
  "getValue a = ca_val a"

definition fromString ::
    "('t \<Rightarrow> 'v from_str) \<Rightarrow> string \<Rightarrow> ('t, 'v, 'w) config_arg \<Rightarrow> 'w
       \<Rightarrow> ('t, 'v, 'w) config_arg \<times> 'w \<times> bool" where
  "fromString F val a w =
     (case F (ca_type a) val of None \<Rightarrow> (a, w, False) | Some v \<Rightarrow> setValue v a w)"

definition toString :: "('t \<Rightarrow> 'v to_str) \<Rightarrow> ('t, 'v, 'w) config_arg \<Rightarrow> string" where
  "toString T a = (case T (ca_type a) (ca_val a) of None \<Rightarrow> [] | Some s \<Rightarrow> s)"

subsection \<open>Listeners\<close>

text \<open>\<open>m[k] = x\<close> on a \<open>std::map\<close>.\<close>

fun map_put :: "'k::linorder \<Rightarrow> 'a \<Rightarrow> ('k \<times> 'a) list \<Rightarrow> ('k \<times> 'a) list" where
  "map_put k x [] = [(k, x)]"
| "map_put k x (y # ys) =
     (if k < fst y then (k, x) # y # ys
      else if fst y < k then y # map_put k x ys else (k, x) # ys)"

text \<open>The static counter \<open>funcId\<close> exists once for every type.\<close>

definition addListener ::
    "('v, 'w) listener \<Rightarrow> ('t, 'v, 'w) config_arg \<Rightarrow> ('t \<Rightarrow> 64 word)
       \<Rightarrow> 64 word \<times> ('t, 'v, 'w) config_arg \<times> ('t \<Rightarrow> 64 word)" where
  "addListener cb a funcId =
     (let k = funcId (ca_type a) + 1
      in (k, a\<lparr>ca_cbs := map_put k cb (ca_cbs a)\<rparr>, funcId(ca_type a := k)))"

definition delListener :: "64 word \<Rightarrow> ('t, 'v, 'w) config_arg \<Rightarrow> ('t, 'v, 'w) config_arg" where
  "delListener key a = a\<lparr>ca_cbs := filter (\<lambda>i. fst i \<noteq> key) (ca_cbs a)\<rparr>"

definition getListener :: "64 word \<Rightarrow> ('t, 'v, 'w) config_arg \<Rightarrow> ('v, 'w) listener option" where
  "getListener key a = map_of (ca_cbs a) key"

definition clearListener :: "('t, 'v, 'w) config_arg \<Rightarrow> ('t, 'v, 'w) config_arg" where
  "clearListener a = a\<lparr>ca_cbs := []\<rparr>"

subsection \<open>The manager\<close>

text \<open>
  An address is an index into \<open>args\<close>, the arguments ever made. \<open>data\<close> is \<open>getData()\<close>. The order in
  which \<open>Visit\<close> meets the entries of the \<open>unordered_map\<close> is an argument of it.
\<close>

record ('t, 'v, 'w) config_mgr =
  data :: "string \<rightharpoonup> nat"
  args :: "('t, 'v, 'w) config_arg list"
  funcId :: "'t \<Rightarrow> 64 word"

definition valid_name :: "string \<Rightarrow> bool" where
  "valid_name key \<longleftrightarrow> (\<forall>c \<in> set key. c \<in> set ''abcdefghijklmnopqrstuvwxyz._0123456789'')"

definition lookUpBase :: "string \<Rightarrow> ('t, 'v, 'w) config_mgr \<Rightarrow> nat option" where
  "lookUpBase name m = data m name"

definition cast_arg :: "'t \<Rightarrow> ('t, 'v, 'w) config_mgr \<Rightarrow> nat \<Rightarrow> nat option" where
  "cast_arg ty m p = (if ca_type (args m ! p) = ty then Some p else None)"

definition lookUp_only :: "'t \<Rightarrow> string \<Rightarrow> ('t, 'v, 'w) config_mgr \<Rightarrow> nat option" where
  "lookUp_only ty name m = Option.bind (data m name) (cast_arg ty m)"

definition lookUp ::
    "'t \<Rightarrow> string \<Rightarrow> 'v \<Rightarrow> string \<Rightarrow> ('t, 'v, 'w) config_mgr
       \<Rightarrow> (nat option \<times> ('t, 'v, 'w) config_mgr) res" where
  "lookUp ty name default_value description m =
     (if \<not> valid_name name then Inl (StdException ''invalid_argument'')
      else case data m name of
             Some p \<Rightarrow> Inr (cast_arg ty m p, m)
           | None \<Rightarrow>
               Inr (Some (length (args m)),
                    m\<lparr>data := (data m)(name \<mapsto> length (args m)),
                      args := args m @ [ConfigArg_new ty name default_value description]\<rparr>))"

function listAllMember :: "string \<Rightarrow> yaml \<Rightarrow> (string \<times> yaml) list" where
  "listAllMember key node =
     (if \<not> valid_name key then []
      else (key, node) #
        (case node of
           YMap kvs \<Rightarrow> concat (map (\<lambda>(k, n). listAllMember (if key = [] then k else key @ ''.'' @ k) n) kvs)
         | _ \<Rightarrow> []))"
  by pat_completeness auto
termination
proof (relation "measure (\<lambda>(_, node). size node)")
  fix node :: yaml and kvs x k n and key :: string
  assume "node = YMap kvs" "x \<in> set kvs" "(k, n) = x"
  then show "((if key = [] then k else key @ ''.'' @ k, n), key, node) \<in> measure (\<lambda>(_, node). size node)"
    using size_list_estimation' [of x kvs "size_prod (\<lambda>_. 0) size x" "size_prod (\<lambda>_. 0) size"] by auto
qed simp

declare listAllMember.simps [simp del]

definition node_text :: "yaml_lib \<Rightarrow> yaml \<Rightarrow> string" where
  "node_text Y n = (case n of YScalar w \<Rightarrow> w | _ \<Rightarrow> y_dump Y n)"

text \<open>One turn of the loop of \<open>loadFromYaml\<close>.\<close>

definition load_node ::
    "yaml_lib \<Rightarrow> ('t \<Rightarrow> 'v from_str) \<Rightarrow> string \<times> yaml
       \<Rightarrow> ('t, 'v, 'w) config_mgr \<times> 'w \<Rightarrow> ('t, 'v, 'w) config_mgr \<times> 'w" where
  "load_node Y F i mw =
     (case mw of (m, w) \<Rightarrow>
        if fst i = [] then (m, w)
        else case lookUpBase (map tolower (fst i)) m of
               None \<Rightarrow> (m, w)
             | Some p \<Rightarrow> (case fromString F (node_text Y (snd i)) (args m ! p) w of
                           (a, w1, _) \<Rightarrow> (m\<lparr>args := (args m)[p := a]\<rparr>, w1)))"

definition loadFromYaml ::
    "yaml_lib \<Rightarrow> ('t \<Rightarrow> 'v from_str) \<Rightarrow> yaml
       \<Rightarrow> ('t, 'v, 'w) config_mgr \<Rightarrow> 'w \<Rightarrow> ('t, 'v, 'w) config_mgr \<times> 'w" where
  "loadFromYaml Y F root m w = fold (load_node Y F) (listAllMember [] root) (m, w)"

definition Visit :: "string list \<Rightarrow> (nat \<Rightarrow> 's \<Rightarrow> 's) \<Rightarrow> ('t, 'v, 'w) config_mgr \<Rightarrow> 's \<Rightarrow> 's" where
  "Visit order cb m s = fold (\<lambda>name s. case data m name of None \<Rightarrow> s | Some p \<Rightarrow> cb p s) order s"

end
