(* ===== verification/ConfigSpecs.thy ===== *)
theory ConfigSpecs
  imports Configs
begin

section \<open>What the configuration promises\<close>

text \<open>
  What an observer of \<open>Configs\<close> sees: which listeners a change of value calls and when it takes
  effect, which paths of a document the loader visits and what it makes of each name, what the two
  look-ups answer, and the invariant of every configuration the operations can reach.
\<close>

subsection \<open>Setting a value\<close>

text \<open>The world after the first \<open>n\<close> listeners, and whether the listener \<open>n\<close> throws there.\<close>

definition called :: "(64 word \<times> ('v, 'w) listener) list \<Rightarrow> nat \<Rightarrow> 'v \<Rightarrow> 'v \<Rightarrow> 'w \<Rightarrow> 'w" where
  "called cbs n old new w = fold (\<lambda>i w. fst (snd i old new w)) (take n cbs) w"

definition throws :: "(64 word \<times> ('v, 'w) listener) list \<Rightarrow> nat \<Rightarrow> 'v \<Rightarrow> 'v \<Rightarrow> 'w \<Rightarrow> bool" where
  "throws cbs n old new w \<longleftrightarrow> \<not> snd (snd (cbs ! n) old new (called cbs n old new w))"

lemma called_Suc:
  "n < length cbs \<Longrightarrow> called cbs (Suc n) old new w = fst (snd (cbs ! n) old new (called cbs n old new w))"
  by (simp add: called_def take_Suc_conv_app_nth)

lemma run_listeners_spec:
  "run_listeners cbs old new w = (w1, ok) \<Longrightarrow>
   (ok \<and> (\<forall>i < length cbs. \<not> throws cbs i old new w) \<and> w1 = called cbs (length cbs) old new w) \<or>
   (\<not> ok \<and> (\<exists>n < length cbs. throws cbs n old new w \<and> (\<forall>i < n. \<not> throws cbs i old new w) \<and>
      w1 = called cbs (Suc n) old new w))"
proof (induction cbs arbitrary: w)
  case Nil
  then show ?case by (simp add: called_def)
next
  case (Cons i cbs)
  obtain w0 ok0 where i: "snd i old new w = (w0, ok0)" by (rule prod.exhaust)
  have c: "called (i # cbs) (Suc n) old new w = called cbs n old new w0" for n
    by (simp add: called_def i)
  then have t: "throws (i # cbs) (Suc n) old new w = throws cbs n old new w0" for n
    by (simp add: throws_def)
  have t0: "throws (i # cbs) 0 old new w = (\<not> ok0)" by (simp add: throws_def called_def i)
  show ?case
  proof (cases ok0)
    case False
    with Cons.prems i have "w1 = w0" "\<not> ok" by simp_all
    with False c [of 0] t0 show ?thesis by (auto simp: called_def)
  next
    case True
    with Cons.prems i have "run_listeners cbs old new w0 = (w1, ok)" by simp
    from Cons.IH [OF this] c t t0 True show ?thesis
      by (auto simp: All_less_Suc2 Ex_less_Suc2 simp del: All_less_Suc)
  qed
qed

text \<open>
  C22. Setting a value from text changes nothing when the text does not convert or converts to the
  present value. Otherwise the listeners are called with the old and the new value in the order of
  their keys: all of them, after which the value is the new one and the answer true; or, when one
  throws, none after it, the value stays and the answer is false.
\<close>

theorem fromString_spec:
  assumes "fromString F val a w = (a', w', ok)"
  shows "(F (ca_type a) val = None \<and> a' = a \<and> w' = w \<and> \<not> ok) \<or>
    (F (ca_type a) val = Some (ca_val a) \<and> a' = a \<and> w' = w \<and> ok) \<or>
    (\<exists>new. F (ca_type a) val = Some new \<and> new \<noteq> ca_val a \<and>
      (ok \<and> a' = a\<lparr>ca_val := new\<rparr> \<and> w' = called (ca_cbs a) (length (ca_cbs a)) (ca_val a) new w \<and>
         (\<forall>i < length (ca_cbs a). \<not> throws (ca_cbs a) i (ca_val a) new w) \<or>
       \<not> ok \<and> a' = a \<and> (\<exists>n < length (ca_cbs a). throws (ca_cbs a) n (ca_val a) new w \<and>
         (\<forall>i < n. \<not> throws (ca_cbs a) i (ca_val a) new w) \<and>
         w' = called (ca_cbs a) (Suc n) (ca_val a) new w)))"
proof (cases "F (ca_type a) val")
  case None
  with assms show ?thesis by (simp add: fromString_def)
next
  case (Some new)
  show ?thesis
  proof (cases "new = ca_val a")
    case True
    with assms Some show ?thesis by (simp add: fromString_def setValue_def)
  next
    case False
    obtain w1 ok1 where r: "run_listeners (ca_cbs a) (ca_val a) new w = (w1, ok1)" by (rule prod.exhaust)
    from assms Some False r have "a' = (if ok1 then a\<lparr>ca_val := new\<rparr> else a)" "w' = w1" "ok = ok1"
      by (auto simp: fromString_def setValue_def)
    with run_listeners_spec [OF r] Some False show ?thesis by auto
  qed
qed

text \<open>Three listeners that record their key; the second throws.\<close>

definition demo_arg :: "(unit, int, nat list) config_arg" where
  "demo_arg = (ConfigArg_new () ''port'' 1 [])\<lparr>ca_cbs :=
     [(1, \<lambda>_ _ w. (w @ [1], True)), (2, \<lambda>_ _ w. (w @ [2], False)), (3, \<lambda>_ _ w. (w @ [3], True))]\<rparr>"

theorem fromString_spec_witness:
  "fromString (\<lambda>_ _. Some 8) ''8'' demo_arg [] = (demo_arg, [1, 2], False) \<and>
   throws (ca_cbs demo_arg) 1 (ca_val demo_arg) 8 []"
proof -
  have r: "fromString (\<lambda>_ _. Some 8) ''8'' demo_arg [] = (demo_arg, [1, 2], False)"
    by (simp add: fromString_def setValue_def demo_arg_def ConfigArg_new_def)
  have v: "ca_val demo_arg = 1" "length (ca_cbs demo_arg) = 3" by (simp_all add: demo_arg_def ConfigArg_new_def)
  have t: "\<not> throws (ca_cbs demo_arg) 0 1 8 []" "\<not> throws (ca_cbs demo_arg) 2 1 8 []"
    by (simp_all add: throws_def demo_arg_def called_def)
  have "{..<3::nat} = {0, 1, 2}" by auto
  then have "n < 3 \<longleftrightarrow> n = 0 \<or> n = 1 \<or> n = 2" for n :: nat by (auto simp: set_eq_iff)
  with fromString_spec [OF r] v t r show ?thesis by auto
qed

subsection \<open>The paths of a document\<close>

text \<open>The nodes reached by a path of keys, and the name made of it.\<close>

fun nodes_at :: "string list \<Rightarrow> yaml \<Rightarrow> yaml list" where
  "nodes_at [] n = [n]"
| "nodes_at (k # ks) n =
     (case n of
        YMap kvs \<Rightarrow> concat (map (\<lambda>(k', m). if k' = k then nodes_at ks m else []) kvs)
      | _ \<Rightarrow> [])"

definition join_key :: "string \<Rightarrow> string \<Rightarrow> string" where
  "join_key key k = (if key = [] then k else key @ ''.'' @ k)"

lemma valid_join: "valid_name (join_key key k) \<Longrightarrow> valid_name key"
  by (auto simp: join_key_def valid_name_def split: if_splits)

lemma valid_path: "valid_name (foldl join_key key path) \<Longrightarrow> valid_name key"
  by (induction path arbitrary: key) (auto dest: valid_join)

lemma listAllMember_join:
  "listAllMember key node =
     (if \<not> valid_name key then []
      else (key, node) #
        (case node of
           YMap kvs \<Rightarrow> concat (map (\<lambda>(k, n). listAllMember (join_key key k) n) kvs)
         | _ \<Rightarrow> []))"
  unfolding join_key_def by (rule listAllMember.simps)

lemma listAllMember_mem:
  assumes "valid_name key"
  shows "(name, n) \<in> set (listAllMember key node) \<longleftrightarrow> name = key \<and> n = node \<or>
    (\<exists>kvs k m. node = YMap kvs \<and> (k, m) \<in> set kvs \<and> (name, n) \<in> set (listAllMember (join_key key k) m))"
proof (cases node)
  case (YMap kvs)
  have "(name, n) \<in> set (listAllMember key node) \<longleftrightarrow> name = key \<and> n = node \<or>
      (\<exists>x \<in> set kvs. (name, n) \<in> set (case x of (k, m) \<Rightarrow> listAllMember (join_key key k) m))"
    using assms YMap by (subst listAllMember_join) auto
  also have "(\<exists>x \<in> set kvs. (name, n) \<in> set (case x of (k, m) \<Rightarrow> listAllMember (join_key key k) m)) \<longleftrightarrow>
      (\<exists>k m. (k, m) \<in> set kvs \<and> (name, n) \<in> set (listAllMember (join_key key k) m))"
    by (metis (no_types, lifting) case_prod_conv prod.exhaust)
  finally show ?thesis using YMap by simp
qed (use assms in \<open>simp_all add: listAllMember_join [of key]\<close>)

lemma listAllMember_valid: "(name, n) \<in> set (listAllMember key node) \<Longrightarrow> valid_name name"
proof (induction key node arbitrary: name n rule: listAllMember.induct)
  case (1 key node)
  have v: "valid_name key" using 1(2) by (simp add: listAllMember.simps [of key node] split: if_splits)
  from 1(2) [unfolded listAllMember_mem [OF v]] v 1(1) [OF _ _ _ refl] show ?case
    unfolding join_key_def by blast
qed

lemma nodes_at_Cons:
  "n \<in> set (nodes_at (k # ks) node) \<longleftrightarrow>
   (\<exists>kvs m. node = YMap kvs \<and> (k, m) \<in> set kvs \<and> n \<in> set (nodes_at ks m))"
  by (auto split: yaml.split if_splits intro!: bexI)

text \<open>
  C32. The flattening of a document lists exactly the nodes that a path of keys reaches, each under
  its keys joined with dots, as long as the name has only the characters allowed in the name of an
  argument. In particular nothing under a key with an upper case letter is listed.
\<close>

theorem listAllMember_paths:
  "(name, n) \<in> set (listAllMember key node) \<longleftrightarrow>
   (\<exists>path. name = foldl join_key key path \<and> n \<in> set (nodes_at path node) \<and> valid_name name)"
proof (induction key node arbitrary: name n rule: listAllMember.induct)
  case (1 key node)
  show ?case
  proof (cases "valid_name key")
    case False
    then show ?thesis using valid_path by (auto simp: listAllMember.simps [of key node])
  next
    case True
    have IH: "(name, n) \<in> set (listAllMember (join_key key k) m) \<longleftrightarrow>
        (\<exists>path. name = foldl join_key (join_key key k) path \<and> n \<in> set (nodes_at path m) \<and> valid_name name)"
      if "node = YMap kvs" "(k, m) \<in> set kvs" for kvs k m
      using 1 [of kvs "(k, m)" k m name n] True that by (simp add: join_key_def [of key k])
    have "(name, n) \<in> set (listAllMember key node) \<longleftrightarrow> name = key \<and> n = node \<or>
      (\<exists>kvs k m. node = YMap kvs \<and> (k, m) \<in> set kvs \<and> (name, n) \<in> set (listAllMember (join_key key k) m))"
      by (rule listAllMember_mem [OF True])
    also have "\<dots> \<longleftrightarrow> name = key \<and> n = node \<or>
      (\<exists>kvs k m path. node = YMap kvs \<and> (k, m) \<in> set kvs \<and>
         name = foldl join_key (join_key key k) path \<and> n \<in> set (nodes_at path m) \<and> valid_name name)"
      by (simp add: IH cong: conj_cong)
    also have "\<dots> \<longleftrightarrow> (\<exists>path. name = foldl join_key key path \<and> n \<in> set (nodes_at path node) \<and> valid_name name)"
      (is "?l \<longleftrightarrow> (\<exists>path. ?P path)")
    proof
      assume ?l
      then show "\<exists>path. ?P path"
      proof (elim disjE exE conjE)
        assume "name = key" "n = node"
        with True have "?P []" by simp
        then show ?thesis ..
      next
        fix kvs k m path
        assume "node = YMap kvs" "(k, m) \<in> set kvs" "name = foldl join_key (join_key key k) path"
          "n \<in> set (nodes_at path m)" "valid_name name"
        then have "?P (k # path)" unfolding nodes_at_Cons by auto
        then show ?thesis ..
      qed
    next
      assume "\<exists>path. ?P path"
      then obtain path where "?P path" ..
      then show ?l by (cases path) (auto simp: nodes_at_Cons simp del: nodes_at.simps(2))
    qed
    finally show ?thesis .
  qed
qed

subsection \<open>Loading a document\<close>

text \<open>Every registered name designates an argument that has it as its name.\<close>

definition mgr_ok :: "('t, 'v, 'w) config_mgr \<Rightarrow> bool" where
  "mgr_ok m \<longleftrightarrow> (\<forall>name p. data m name = Some p \<longrightarrow>
     p < length (args m) \<and> ca_name (args m ! p) = name \<and> valid_name name)"

lemma mgr_okD:
  "mgr_ok m \<Longrightarrow> data m name = Some p \<Longrightarrow>
   p < length (args m) \<and> ca_name (args m ! p) = name \<and> valid_name name"
  by (simp add: mgr_ok_def)

lemma data_inj: "mgr_ok m \<Longrightarrow> data m x = Some p \<Longrightarrow> data m y = Some p \<Longrightarrow> x = y"
  by (auto dest: mgr_okD)

lemma mgr_ok_update:
  "mgr_ok m \<Longrightarrow> ca_name a = ca_name (args m ! p) \<Longrightarrow> mgr_ok (m\<lparr>args := (args m)[p := a]\<rparr>)"
  unfolding mgr_ok_def
  by (cases "p < length (args m)") (auto simp: nth_list_update list_update_beyond not_less)

lemma tolower_valid: "valid_name key \<Longrightarrow> map tolower key = key"
proof (intro map_idI)
  fix c
  have "list_all (\<lambda>c. tolower c = c) ''abcdefghijklmnopqrstuvwxyz._0123456789''"
    by code_simp
  moreover assume "valid_name key" "c \<in> set key"
  ultimately show "tolower c = c" unfolding valid_name_def list_all_iff by blast
qed

lemma fromString_frame: "\<exists>v. fst (fromString F x a w) = a\<lparr>ca_val := v\<rparr>"
proof -
  have "\<exists>v. a = a\<lparr>ca_val := v\<rparr>" by (rule exI [of _ "ca_val a"]) simp
  then show ?thesis
    by (auto simp: fromString_def setValue_def split: option.split prod.split if_split)
qed

text \<open>None of the listeners throws, whatever it is called with.\<close>

definition calm :: "('t, 'v, 'w) config_arg \<Rightarrow> bool" where
  "calm a \<longleftrightarrow> (\<forall>i \<in> set (ca_cbs a). \<forall>old new w. snd (snd i old new w))"

lemma run_listeners_calm:
  "\<forall>i \<in> set cbs. \<forall>old new w. snd (snd i old new w) \<Longrightarrow> snd (run_listeners cbs old new w)"
  by (induction cbs arbitrary: w) (auto split: prod.split, metis snd_conv)

text \<open>What a text makes of a value.\<close>

definition read_value :: "('t \<Rightarrow> 'v from_str) \<Rightarrow> 't \<Rightarrow> 'v \<Rightarrow> string \<Rightarrow> 'v" where
  "read_value F ty v x = (case F ty x of None \<Rightarrow> v | Some v' \<Rightarrow> v')"

lemma fromString_calm:
  "calm a \<Longrightarrow> fst (fromString F x a w) = a\<lparr>ca_val := read_value F (ca_type a) (ca_val a) x\<rparr>"
  using run_listeners_calm [of "ca_cbs a" "ca_val a" _ w]
  by (auto simp: fromString_def setValue_def read_value_def calm_def split: option.split prod.split)
    (metis snd_conv)

lemma load_node_cases:
  assumes m: "mgr_ok m" and i: "valid_name (fst i)" and l: "load_node Y F i (m, w) = (m1, w1)"
  shows "m1 = m \<and> (fst i = [] \<or> data m (fst i) = None) \<or>
    (\<exists>p. fst i \<noteq> [] \<and> data m (fst i) = Some p \<and>
       m1 = m\<lparr>args := (args m)[p := fst (fromString F (node_text Y (snd i)) (args m ! p) w)]\<rparr>)"
  using l tolower_valid [OF i]
  by (auto simp: load_node_def lookUpBase_def split: if_splits option.splits prod.splits)

lemma load_node_ok:
  assumes m: "mgr_ok m" and i: "valid_name (fst i)" and l: "load_node Y F i (m, w) = (m1, w1)"
  shows "mgr_ok m1 \<and> data m1 = data m \<and> length (args m1) = length (args m) \<and> funcId m1 = funcId m \<and>
    (\<forall>p < length (args m). \<exists>v. args m1 ! p = (args m ! p)\<lparr>ca_val := v\<rparr>)"
proof -
  have same: "\<exists>v. a = a\<lparr>ca_val := v\<rparr>" for a :: "('a, 'b, 'c) config_arg"
    by (rule exI [of _ "ca_val a"]) simp
  from load_node_cases [OF assms] show ?thesis
  proof (elim disjE exE conjE)
    fix p
    assume p: "data m (fst i) = Some p"
      and m1: "m1 = m\<lparr>args := (args m)[p := fst (fromString F (node_text Y (snd i)) (args m ! p) w)]\<rparr>"
    obtain v where v: "fst (fromString F (node_text Y (snd i)) (args m ! p) w) = (args m ! p)\<lparr>ca_val := v\<rparr>"
      using fromString_frame [of F "node_text Y (snd i)" "args m ! p" w] ..
    have "mgr_ok m1" unfolding m1 v by (rule mgr_ok_update [OF m]) simp
    moreover have "\<forall>q < length (args m). \<exists>v. args m1 ! q = (args m ! q)\<lparr>ca_val := v\<rparr>"
      unfolding m1 v using same mgr_okD [OF m p] by (simp add: nth_list_update) blast
    ultimately show ?thesis by (simp add: m1)
  qed (use m same in auto)
qed

lemma load_node_value:
  assumes m: "mgr_ok m" and i: "valid_name (fst i)" and l: "load_node Y F i (m, w) = (m1, w1)"
    and name: "data m name = Some p" "name \<noteq> []" and calm: "calm (args m ! p)"
  shows "args m1 ! p = (if fst i = name
    then (args m ! p)\<lparr>ca_val := read_value F (ca_type (args m ! p)) (ca_val (args m ! p)) (node_text Y (snd i))\<rparr>
    else args m ! p)"
proof -
  have p: "p < length (args m)" using mgr_okD [OF m name(1)] by simp
  from load_node_cases [OF m i l] show ?thesis
  proof (elim disjE exE conjE)
    fix q
    assume q: "data m (fst i) = Some q"
      and m1: "m1 = m\<lparr>args := (args m)[q := fst (fromString F (node_text Y (snd i)) (args m ! q) w)]\<rparr>"
    show ?thesis
    proof (cases "fst i = name")
      case True
      with q name have "q = p" by simp
      with True m1 p fromString_calm [OF calm] show ?thesis by simp
    next
      case False
      then have "q \<noteq> p" using data_inj [OF m name(1)] q by auto
      with False m1 show ?thesis by simp
    qed
  qed (use name in auto)
qed

lemma load_nodes_value:
  assumes "mgr_ok m" "\<forall>i \<in> set is. valid_name (fst i)" "data m name = Some p" "name \<noteq> []"
    "calm (args m ! p)"
  shows "args (fst (fold (load_node Y F) is (m, w))) ! p = (args m ! p)\<lparr>ca_val :=
    foldl (read_value F (ca_type (args m ! p))) (ca_val (args m ! p))
      (map (\<lambda>i. node_text Y (snd i)) (filter (\<lambda>i. fst i = name) is))\<rparr>"
  using assms
proof (induction "is" arbitrary: m w)
  case (Cons i "is")
  obtain m1 w1 where l: "load_node Y F i (m, w) = (m1, w1)" by (rule prod.exhaust)
  have i: "valid_name (fst i)" using Cons.prems by simp
  note ok = load_node_ok [OF Cons.prems(1) i l]
  note v = load_node_value [OF Cons.prems(1) i l Cons.prems(3-5)]
  then have "calm (args m1 ! p)" using Cons.prems(5) by (simp add: calm_def)
  from Cons.IH [of m1 w1, OF _ _ _ Cons.prems(4) this] ok Cons.prems v l show ?case by simp
qed simp

lemma load_nodes_ok:
  assumes "mgr_ok m" "\<forall>i \<in> set is. valid_name (fst i)"
  shows "mgr_ok (fst (fold (load_node Y F) is (m, w))) \<and>
    data (fst (fold (load_node Y F) is (m, w))) = data m"
  using assms
proof (induction "is" arbitrary: m w)
  case (Cons i "is")
  obtain m1 w1 where l: "load_node Y F i (m, w) = (m1, w1)" by (rule prod.exhaust)
  with load_node_ok [OF Cons.prems(1) _ l] Cons.IH [of m1 w1] Cons.prems show ?case by simp
qed simp

text \<open>
  C16. Loading a document sets a registered argument whose listeners do not throw to what the nodes
  under its own name make of its value, one after the other in the order of the document; a text that
  does not convert leaves the value. Nothing else of the argument changes, no argument appears, and
  neither other names nor other arguments, their errors included, play a part.
\<close>

theorem loadFromYaml_spec:
  assumes "mgr_ok m" and "data m name = Some p" and "name \<noteq> []" and "calm (args m ! p)"
    and "loadFromYaml Y F root m w = (m', w')"
  shows "data m' = data m \<and> args m' ! p = (args m ! p)\<lparr>ca_val :=
      foldl (read_value F (ca_type (args m ! p))) (ca_val (args m ! p))
        (map (\<lambda>i. node_text Y (snd i)) (filter (\<lambda>i. fst i = name) (listAllMember [] root)))\<rparr>"
proof -
  have v: "\<forall>i \<in> set (listAllMember [] root). valid_name (fst i)"
    using listAllMember_valid by fastforce
  have m': "m' = fst (fold (load_node Y F) (listAllMember [] root) (m, w))"
    using assms(5) by (simp add: loadFromYaml_def)
  show ?thesis unfolding m' using load_nodes_value [OF assms(1) v assms(2-4)] load_nodes_ok [OF assms(1) v] by auto
qed

definition empty_mgr :: "('t, 'v, 'w) config_mgr" where
  "empty_mgr = \<lparr>data = (\<lambda>_. None), args = [], funcId = (\<lambda>_. 0)\<rparr>"

definition demo_mgr :: "(bool, int, unit) config_mgr" where
  "demo_mgr = \<lparr>data = [''server.port'' \<mapsto> 0, ''server.name'' \<mapsto> 1],
     args = [ConfigArg_new True ''server.port'' 80 [], ConfigArg_new False ''server.name'' 0 []],
     funcId = (\<lambda>_. 0)\<rparr>"

definition demo_doc :: yaml where
  "demo_doc = YMap [(''server'', YMap [(''port'', YScalar ''x''), (''port'', YScalar ''8080''), (''Port'', YNull)]),
     (''server.port'', YScalar ''81''), (''server.name'', YSeq [])]"

definition demo_cast :: "bool \<Rightarrow> int from_str" where
  "demo_cast ty x = (if ty \<and> x = ''8080'' then Some 8080 else if ty \<and> x = ''81'' then Some 81 else None)"

lemma valid_demo [simp]:
  "valid_name []" "valid_name ''server''" "valid_name ''server.port''" "\<not> valid_name ''server.Port''"
  "valid_name ''server.name''"
  by (simp_all add: valid_name_def)

lemma demo_members:
  "listAllMember [] demo_doc =
     [([], demo_doc),
      (''server'', YMap [(''port'', YScalar ''x''), (''port'', YScalar ''8080''), (''Port'', YNull)]),
      (''server.port'', YScalar ''x''), (''server.port'', YScalar ''8080''),
      (''server.port'', YScalar ''81''), (''server.name'', YSeq [])]"
  unfolding demo_doc_def by (simp add: listAllMember.simps)

theorem loadFromYaml_spec_witness:
  "mgr_ok demo_mgr \<and>
   ca_val (args (fst (loadFromYaml flow_yaml demo_cast demo_doc demo_mgr ())) ! 0) = 81"
proof -
  have ok: "mgr_ok demo_mgr"
    by (auto simp: mgr_ok_def demo_mgr_def ConfigArg_new_def tolower_def split: if_splits)
  obtain m' w' where l: "loadFromYaml flow_yaml demo_cast demo_doc demo_mgr () = (m', w')"
    by (rule prod.exhaust)
  have d: "data demo_mgr ''server.port'' = Some 0" by (simp add: demo_mgr_def)
  have c: "calm (args demo_mgr ! 0)" by (simp add: calm_def demo_mgr_def ConfigArg_new_def)
  from loadFromYaml_spec [OF ok d _ c l] show ?thesis
    by (simp add: ok l demo_members node_text_def read_value_def demo_cast_def)
      (simp add: demo_mgr_def ConfigArg_new_def)
qed

subsection \<open>Looking an argument up\<close>

lemma lookUp_cases:
  assumes "lookUp ty name v d m = Inr (r, m')"
  obtains (found) p where "valid_name name" "data m name = Some p" "r = cast_arg ty m p" "m' = m"
  | (made) "valid_name name" "data m name = None" "r = Some (length (args m))"
      "m' = m\<lparr>data := (data m)(name \<mapsto> length (args m)), args := args m @ [ConfigArg_new ty name v d]\<rparr>"
proof (cases "data m name")
  case None
  with assms have f: "valid_name name" "r = Some (length (args m))"
    "m' = m\<lparr>data := (data m)(name \<mapsto> length (args m)), args := args m @ [ConfigArg_new ty name v d]\<rparr>"
    by (auto simp: lookUp_def split: if_splits)
  show thesis by (rule made [OF f(1) None f(2,3)])
next
  case (Some p)
  with assms have f: "valid_name name" "r = cast_arg ty m p" "m' = m"
    by (auto simp: lookUp_def split: if_splits)
  show thesis by (rule found [OF f(1) Some f(2,3)])
qed

lemma lookUp_ok:
  assumes m: "mgr_ok m" and l: "lookUp ty name v d m = Inr (r, m')"
  shows "mgr_ok m'"
  using l
proof (cases rule: lookUp_cases)
  case made
  then show ?thesis unfolding made(4) mgr_ok_def using mgr_okD [OF m]
    by (auto simp: ConfigArg_new_def tolower_valid nth_append less_Suc_eq)
qed (use m in simp)

text \<open>
  A successful look-up with a default leaves the manager in order; afterwards both overloads
  answer the same pointer, whatever default is offered, and it is the registered one, or null when
  the registered argument has another type. No other name and no existing argument changes.
\<close>

theorem lookUp_spec:
  assumes m: "mgr_ok m" and l: "lookUp ty name v d m = Inr (r, m')"
  shows "mgr_ok m' \<and> lookUp_only ty name m' = r \<and> lookUp ty name v' d' m' = Inr (r, m') \<and>
    (\<exists>p. lookUpBase name m' = Some p \<and> r = (if ca_type (args m' ! p) = ty then Some p else None)) \<and>
    (\<forall>other. other = name \<or> lookUpBase other m' = lookUpBase other m) \<and>
    take (length (args m)) (args m') = args m"
  using lookUp_ok [OF m l]
  by (cases rule: lookUp_cases [OF l])
    (auto simp: lookUp_def lookUp_only_def lookUpBase_def cast_arg_def ConfigArg_new_def)

text \<open>A name in use with another type: null, and the manager is as before.\<close>

theorem lookUp_spec_witness:
  "lookUp False ''server.port'' 3 [] demo_mgr = Inr (None, demo_mgr) \<and>
   lookUp_only False ''server.port'' demo_mgr = None"
proof -
  have ok: "mgr_ok demo_mgr"
    by (auto simp: mgr_ok_def demo_mgr_def ConfigArg_new_def tolower_def split: if_splits)
  have l: "lookUp False ''server.port'' 3 [] demo_mgr = Inr (None, demo_mgr)"
    by (simp add: lookUp_def cast_arg_def demo_mgr_def ConfigArg_new_def)
  from lookUp_spec [OF ok l] l show ?thesis by simp
qed

subsection \<open>Every reachable configuration\<close>

inductive mgr_reach :: "('t, 'v, 'w) config_mgr \<Rightarrow> bool" where
  start: "mgr_reach empty_mgr"
| lookUp: "mgr_reach m \<Longrightarrow> lookUp ty name v d m = Inr (r, m') \<Longrightarrow> mgr_reach m'"
| load: "mgr_reach m \<Longrightarrow> mgr_reach (fst (loadFromYaml Y F root m w))"
| setValue: "mgr_reach m \<Longrightarrow> p < length (args m) \<Longrightarrow>
    mgr_reach (m\<lparr>args := (args m)[p := fst (setValue v (args m ! p) w)]\<rparr>)"
| addListener: "mgr_reach m \<Longrightarrow> p < length (args m) \<Longrightarrow>
    addListener cb (args m ! p) (funcId m) = (k, a, ids) \<Longrightarrow>
    mgr_reach (m\<lparr>args := (args m)[p := a], funcId := ids\<rparr>)"
| delListener: "mgr_reach m \<Longrightarrow> p < length (args m) \<Longrightarrow>
    mgr_reach (m\<lparr>args := (args m)[p := delListener k (args m ! p)]\<rparr>)"
| clearListener: "mgr_reach m \<Longrightarrow> p < length (args m) \<Longrightarrow>
    mgr_reach (m\<lparr>args := (args m)[p := clearListener (args m ! p)]\<rparr>)"

definition keys_sorted :: "('t, 'v, 'w) config_arg \<Rightarrow> bool" where
  "keys_sorted a \<longleftrightarrow> sorted_wrt (<) (map fst (ca_cbs a))"

lemma map_put_keys: "set (map fst (map_put k x ys)) = insert k (set (map fst ys))"
  by (induction ys) (auto split: if_splits)

lemma map_put_sorted:
  "sorted_wrt (<) (map fst ys) \<Longrightarrow> sorted_wrt (<) (map fst (map_put k x ys))"
proof (induction ys)
  case (Cons y ys)
  have "\<forall>z \<in> set (map fst (map_put k x ys)). fst y < z" if "fst y < k"
    unfolding map_put_keys using that Cons.prems by auto
  with Cons show ?case by (auto dest: less_trans)
qed simp

lemma keys_sorted_frame [simp]: "keys_sorted (a\<lparr>ca_val := v\<rparr>) = keys_sorted a"
  by (simp add: keys_sorted_def)

lemma mgr_ok_funcId [simp]: "mgr_ok (m\<lparr>funcId := ids\<rparr>) = mgr_ok m"
  by (simp add: mgr_ok_def)

lemma load_nodes_sorted:
  assumes "mgr_ok m" "\<forall>i \<in> set is. valid_name (fst i)" "\<forall>a \<in> set (args m). keys_sorted a"
  shows "\<forall>a \<in> set (args (fst (fold (load_node Y F) is (m, w)))). keys_sorted a"
  using assms
proof (induction "is" arbitrary: m w)
  case (Cons i "is")
  obtain m1 w1 where l: "load_node Y F i (m, w) = (m1, w1)" by (rule prod.exhaust)
  have i: "valid_name (fst i)" using Cons.prems by simp
  note ok = load_node_ok [OF Cons.prems(1) i l]
  have "keys_sorted (args m1 ! p)" if p: "p < length (args m)" for p
  proof -
    from ok p obtain v where "args m1 ! p = (args m ! p)\<lparr>ca_val := v\<rparr>" by blast
    with p Cons.prems(3) show ?thesis by simp
  qed
  with ok have "\<forall>a \<in> set (args m1). keys_sorted a" by (auto simp: in_set_conv_nth)
  with ok Cons.IH [of m1 w1] Cons.prems l show ?case by simp
qed simp

text \<open>
  C19. Whatever the program does with its configuration through the manager and the pointers it
  hands out: every registered name is a valid one, it designates an argument of exactly this name,
  two names never share an argument, and every argument calls its listeners in the strict order of
  their keys, so each of them once.
\<close>

theorem mgr_reach_wellformed:
  assumes "mgr_reach m"
  shows "mgr_ok m \<and> inj_on (data m) (dom (data m)) \<and> (\<forall>a \<in> set (args m). keys_sorted a)"
proof -
  have u: "\<forall>a \<in> set (xs[p := x]). keys_sorted a"
    if "\<forall>a \<in> set xs. keys_sorted a" "keys_sorted x" for xs p and x :: "('t, 'v, 'w) config_arg"
    using that set_update_subset_insert [of xs p x] by blast
  from assms have inv: "mgr_ok m \<and> (\<forall>a \<in> set (args m). keys_sorted a)"
  proof (induction rule: mgr_reach.induct)
    case start
    then show ?case by (simp add: mgr_ok_def empty_mgr_def)
  next
    case (lookUp m ty name v d r m')
    have "\<forall>a \<in> set (args m'). keys_sorted a"
      using lookUp.IH
      by (cases rule: lookUp_cases [OF lookUp.hyps(2)]) (auto simp: keys_sorted_def ConfigArg_new_def)
    with lookUp_ok [OF _ lookUp.hyps(2)] lookUp.IH show ?case by blast
  next
    case (load m Y F root w)
    have "\<forall>i \<in> set (listAllMember [] root). valid_name (fst i)" using listAllMember_valid by fastforce
    then show ?case unfolding loadFromYaml_def
      using load.IH load_nodes_ok [of m "listAllMember [] root" Y F w]
        load_nodes_sorted [of m "listAllMember [] root" Y F w] by simp
  next
    case (setValue m p v w)
    have "\<exists>x. fst (setValue v (args m ! p) w) = args m ! p \<or>
        fst (setValue v (args m ! p) w) = (args m ! p)\<lparr>ca_val := x\<rparr>"
      by (auto simp: setValue_def split: prod.split)
    then have "ca_name (fst (setValue v (args m ! p) w)) = ca_name (args m ! p)"
      "keys_sorted (fst (setValue v (args m ! p) w))" using setValue by auto
    with setValue.IH show ?case using mgr_ok_update [of m "fst (setValue v (args m ! p) w)" p]
      u [of "args m" "fst (setValue v (args m ! p) w)" p] by simp
  next
    case (addListener m p cb k a ids)
    then have "keys_sorted (args m ! p)" by simp
    then have "ca_name a = ca_name (args m ! p)" "keys_sorted a"
      using addListener.hyps(3) map_put_sorted
      by (auto simp: addListener_def Let_def keys_sorted_def)
    then show ?case using addListener.IH mgr_ok_update [of m a p] u [of "args m" a p]
      by (simp add: mgr_ok_def)
  next
    case (delListener m p k)
    then have "keys_sorted (args m ! p)" by simp
    then have "keys_sorted (delListener k (args m ! p))"
      by (simp add: keys_sorted_def delListener_def sorted_wrt_map sorted_wrt_filter)
    then show ?case using delListener.IH mgr_ok_update [of m "delListener k (args m ! p)" p]
      u [of "args m" "delListener k (args m ! p)" p] by (simp add: delListener_def)
  next
    case (clearListener m p)
    have "keys_sorted (clearListener (args m ! p))" by (simp add: keys_sorted_def clearListener_def)
    then show ?case using clearListener.IH mgr_ok_update [of m "clearListener (args m ! p)" p]
      u [of "args m" "clearListener (args m ! p)" p] by (simp add: clearListener_def)
  qed
  then show ?thesis by (auto simp: inj_on_def intro: data_inj)
qed

theorem mgr_reach_wellformed_witness:
  "\<exists>m :: (bool, int, unit) config_mgr. mgr_reach m \<and> dom (data m) = {''server''} \<and> mgr_ok m"
proof -
  let ?m = "empty_mgr\<lparr>data := [''server'' \<mapsto> 0], args := [ConfigArg_new True ''server'' 1 []]\<rparr>
    :: (bool, int, unit) config_mgr"
  have "lookUp True ''server'' 1 [] empty_mgr = Inr (Some 0, ?m)" by (simp add: lookUp_def empty_mgr_def)
  from mgr_reach.lookUp [OF mgr_reach.start this] have "mgr_reach ?m" .
  moreover from mgr_reach_wellformed [OF this] have "mgr_ok ?m" by simp
  moreover have "dom (data ?m) = {''server''}" by simp
  ultimately show ?thesis by blast
qed

end
