(* ===== verification/Locks.thy ===== *)
theory Locks
  imports Prelude
begin

section \<open>Locks and their guards (source/mutex.hpp, source/mutex.cpp)\<close>

text \<open>
  The state of a lock, and its operations as one step each: \<open>None\<close> is that the caller does not get
  on now. \<open>Mutex\<close>, \<open>Spinlock\<close>, \<open>RWMutex\<close> and \<open>Semaphore\<close> wrap the objects of POSIX threads, whose
  documented states are these; \<open>CASLock\<close> is the code's own, a loop over an atomic flag of which one
  turn is one step.
\<close>

subsection \<open>The locks\<close>

definition Mutex_new :: bool where
  "Mutex_new = False"

definition Mutex_lock :: "bool \<Rightarrow> bool option" where
  "Mutex_lock m = (if m then None else Some True)"

definition Mutex_unlock :: "bool \<Rightarrow> bool" where
  "Mutex_unlock m = False"

definition Spinlock_new :: bool where
  "Spinlock_new = False"

definition Spinlock_lock :: "bool \<Rightarrow> bool option" where
  "Spinlock_lock m = (if m then None else Some True)"

definition Spinlock_unlock :: "bool \<Rightarrow> bool" where
  "Spinlock_unlock m = False"

text \<open>\<open>atomic_flag_test_and_set\<close> answers the old value and leaves the flag set.\<close>

definition test_and_set :: "bool \<Rightarrow> bool \<times> bool" where
  "test_and_set flag = (flag, True)"

definition CASLock_new :: bool where
  "CASLock_new = False"

definition CASLock_lock :: "bool \<Rightarrow> bool option" where
  "CASLock_lock flag = (case test_and_set flag of (old, new) \<Rightarrow> if old then None else Some new)"

definition CASLock_unlock :: "bool \<Rightarrow> bool" where
  "CASLock_unlock flag = False"

record RWMutex =
  rw_readers :: nat
  rw_writer :: bool

definition RWMutex_new :: RWMutex where
  "RWMutex_new = \<lparr>rw_readers = 0, rw_writer = False\<rparr>"

definition RWMutex_rdlock :: "RWMutex \<Rightarrow> RWMutex option" where
  "RWMutex_rdlock m = (if rw_writer m then None else Some (m\<lparr>rw_readers := rw_readers m + 1\<rparr>))"

definition RWMutex_wrlock :: "RWMutex \<Rightarrow> RWMutex option" where
  "RWMutex_wrlock m =
     (if rw_writer m \<or> 0 < rw_readers m then None else Some (m\<lparr>rw_writer := True\<rparr>))"

definition RWMutex_unlock :: "RWMutex \<Rightarrow> RWMutex" where
  "RWMutex_unlock m =
     (if rw_writer m then m\<lparr>rw_writer := False\<rparr> else m\<lparr>rw_readers := rw_readers m - 1\<rparr>)"

text \<open>\<open>NullMutex\<close> and \<open>NullRWMutex\<close> do nothing.\<close>

definition NullMutex_lock :: "unit \<Rightarrow> unit option" where
  "NullMutex_lock m = Some m"

definition NullMutex_unlock :: "unit \<Rightarrow> unit" where
  "NullMutex_unlock m = m"

definition NullRWMutex_rdlock :: "unit \<Rightarrow> unit option" where
  "NullRWMutex_rdlock m = Some m"

definition NullRWMutex_wrlock :: "unit \<Rightarrow> unit option" where
  "NullRWMutex_wrlock m = Some m"

definition NullRWMutex_unlock :: "unit \<Rightarrow> unit" where
  "NullRWMutex_unlock m = m"

text \<open>
  A semaphore is its count. POSIX refuses a count above \<open>SEM_VALUE_MAX\<close>, at the start and when it
  would be exceeded; the wrapper turns that into an exception.
\<close>

definition SEM_VALUE_MAX :: nat where
  "SEM_VALUE_MAX = 2147483647"

definition Semaphore_new :: "32 word \<Rightarrow> nat res" where
  "Semaphore_new count =
     (if SEM_VALUE_MAX < unat count then Inl (StdException ''sem_init error'') else Inr (unat count))"

definition Semaphore_wait :: "nat \<Rightarrow> nat option" where
  "Semaphore_wait n = (if n = 0 then None else Some (n - 1))"

definition Semaphore_notify :: "nat \<Rightarrow> nat res" where
  "Semaphore_notify n =
     (if n = SEM_VALUE_MAX then Inl (StdException ''sem_post error'') else Inr (n + 1))"

subsection \<open>The guards\<close>

text \<open>
  The three guards are templates over a lock: the operations of the lock they call are arguments. A
  guard's state is the lock it refers to and \<open>m_locked\<close>.
\<close>

definition ScopedLock_new :: "('m \<Rightarrow> 'm option) \<Rightarrow> 'm \<Rightarrow> ('m \<times> bool) option" where
  "ScopedLock_new lock m = map_option (\<lambda>m'. (m', True)) (lock m)"

definition ScopedLock_lock :: "('m \<Rightarrow> 'm option) \<Rightarrow> 'm \<times> bool \<Rightarrow> ('m \<times> bool) option" where
  "ScopedLock_lock lock g =
     (if \<not> snd g then map_option (\<lambda>m'. (m', True)) (lock (fst g)) else Some g)"

definition ScopedLock_unlock :: "('m \<Rightarrow> 'm) \<Rightarrow> 'm \<times> bool \<Rightarrow> 'm \<times> bool" where
  "ScopedLock_unlock unlock g = (if snd g then (unlock (fst g), False) else g)"

definition ScopedLock_delete :: "('m \<Rightarrow> 'm) \<Rightarrow> 'm \<times> bool \<Rightarrow> 'm \<times> bool" where
  "ScopedLock_delete unlock g = ScopedLock_unlock unlock g"

definition ScopedRdLock_new :: "('m \<Rightarrow> 'm option) \<Rightarrow> 'm \<Rightarrow> ('m \<times> bool) option" where
  "ScopedRdLock_new rdlock m = map_option (\<lambda>m'. (m', True)) (rdlock m)"

definition ScopedRdLock_lock :: "('m \<Rightarrow> 'm option) \<Rightarrow> 'm \<times> bool \<Rightarrow> ('m \<times> bool) option" where
  "ScopedRdLock_lock rdlock g =
     (if \<not> snd g then map_option (\<lambda>m'. (m', True)) (rdlock (fst g)) else Some g)"

definition ScopedRdLock_unlock :: "('m \<Rightarrow> 'm) \<Rightarrow> 'm \<times> bool \<Rightarrow> 'm \<times> bool" where
  "ScopedRdLock_unlock unlock g = (if snd g then (unlock (fst g), False) else g)"

definition ScopedRdLock_delete :: "('m \<Rightarrow> 'm) \<Rightarrow> 'm \<times> bool \<Rightarrow> 'm \<times> bool" where
  "ScopedRdLock_delete unlock g = ScopedRdLock_unlock unlock g"

definition ScopedWriteLock_new :: "('m \<Rightarrow> 'm option) \<Rightarrow> 'm \<Rightarrow> ('m \<times> bool) option" where
  "ScopedWriteLock_new wrlock m = map_option (\<lambda>m'. (m', True)) (wrlock m)"

definition ScopedWriteLock_lock :: "('m \<Rightarrow> 'm option) \<Rightarrow> 'm \<times> bool \<Rightarrow> ('m \<times> bool) option" where
  "ScopedWriteLock_lock wrlock g =
     (if \<not> snd g then map_option (\<lambda>m'. (m', True)) (wrlock (fst g)) else Some g)"

definition ScopedWriteLock_unlock :: "('m \<Rightarrow> 'm) \<Rightarrow> 'm \<times> bool \<Rightarrow> 'm \<times> bool" where
  "ScopedWriteLock_unlock unlock g = (if snd g then (unlock (fst g), False) else g)"

definition ScopedWriteLock_delete :: "('m \<Rightarrow> 'm) \<Rightarrow> 'm \<times> bool \<Rightarrow> 'm \<times> bool" where
  "ScopedWriteLock_delete unlock g = ScopedWriteLock_unlock unlock g"

subsection \<open>Many guards on one lock\<close>

text \<open>
  What the threads of a program can do with one lock through guards. A state is the lock and the
  living guards, each with its class and its \<open>m_locked\<close>. \<open>lk\<close>, \<open>rd\<close> and \<open>wr\<close> are the lock's operations
  for the three classes (a lock that lacks one never gets on).
\<close>

datatype guard_class = GLock | GRead | GWrite

record 'm lock_ops =
  op_lock :: "'m \<Rightarrow> 'm option"
  op_rdlock :: "'m \<Rightarrow> 'm option"
  op_wrlock :: "'m \<Rightarrow> 'm option"
  op_unlock :: "'m \<Rightarrow> 'm"

fun guard_new :: "'m lock_ops \<Rightarrow> guard_class \<Rightarrow> 'm \<Rightarrow> ('m \<times> bool) option" where
  "guard_new P GLock = ScopedLock_new (op_lock P)"
| "guard_new P GRead = ScopedRdLock_new (op_rdlock P)"
| "guard_new P GWrite = ScopedWriteLock_new (op_wrlock P)"

fun guard_lock :: "'m lock_ops \<Rightarrow> guard_class \<Rightarrow> 'm \<times> bool \<Rightarrow> ('m \<times> bool) option" where
  "guard_lock P GLock = ScopedLock_lock (op_lock P)"
| "guard_lock P GRead = ScopedRdLock_lock (op_rdlock P)"
| "guard_lock P GWrite = ScopedWriteLock_lock (op_wrlock P)"

fun guard_unlock :: "'m lock_ops \<Rightarrow> guard_class \<Rightarrow> 'm \<times> bool \<Rightarrow> 'm \<times> bool" where
  "guard_unlock P GLock = ScopedLock_unlock (op_unlock P)"
| "guard_unlock P GRead = ScopedRdLock_unlock (op_unlock P)"
| "guard_unlock P GWrite = ScopedWriteLock_unlock (op_unlock P)"

fun guard_delete :: "'m lock_ops \<Rightarrow> guard_class \<Rightarrow> 'm \<times> bool \<Rightarrow> 'm \<times> bool" where
  "guard_delete P GLock = ScopedLock_delete (op_unlock P)"
| "guard_delete P GRead = ScopedRdLock_delete (op_unlock P)"
| "guard_delete P GWrite = ScopedWriteLock_delete (op_unlock P)"

inductive guard_reach :: "'m lock_ops \<Rightarrow> 'm \<Rightarrow> 'm \<Rightarrow> (guard_class \<times> bool) list \<Rightarrow> bool"
  for P m0 where
  start: "guard_reach P m0 m0 []"
| new: "guard_reach P m0 m gs \<Longrightarrow> guard_new P k m = Some (m', b) \<Longrightarrow> guard_reach P m0 m' (gs @ [(k, b)])"
| lock: "guard_reach P m0 m (xs @ (k, b) # ys) \<Longrightarrow> guard_lock P k (m, b) = Some (m', b') \<Longrightarrow>
    guard_reach P m0 m' (xs @ (k, b') # ys)"
| unlock: "guard_reach P m0 m (xs @ (k, b) # ys) \<Longrightarrow> guard_unlock P k (m, b) = (m', b') \<Longrightarrow>
    guard_reach P m0 m' (xs @ (k, b') # ys)"
| delete: "guard_reach P m0 m (xs @ (k, b) # ys) \<Longrightarrow> guard_delete P k (m, b) = (m', b') \<Longrightarrow>
    guard_reach P m0 m' (xs @ ys)"

subsection \<open>The contract of a lock\<close>

text \<open>
  How many readers hold a lock and whether a writer does, read off its state; what taking it in
  either mode requires and does; and what releasing it does.
\<close>

locale lockable =
  fixes P :: "'m lock_ops" and m0 :: 'm and readers :: "'m \<Rightarrow> nat" and writer :: "'m \<Rightarrow> bool"
  assumes free: "readers m0 = 0" "\<not> writer m0"
    and lock: "op_lock P m = Some m' \<Longrightarrow> \<not> writer m \<and> readers m = 0 \<and> writer m' \<and> readers m' = 0"
    and wrlock: "op_wrlock P m = Some m' \<Longrightarrow> \<not> writer m \<and> readers m = 0 \<and> writer m' \<and> readers m' = 0"
    and rdlock: "op_rdlock P m = Some m' \<Longrightarrow> \<not> writer m \<and> \<not> writer m' \<and> readers m' = readers m + 1"
    and unlock_writer: "writer m \<Longrightarrow> \<not> writer (op_unlock P m) \<and> readers (op_unlock P m) = readers m"
    and unlock_reader: "\<not> writer m \<Longrightarrow> \<not> writer (op_unlock P m) \<and> readers (op_unlock P m) = readers m - 1"
begin

text \<open>The locked guards of the two modes.\<close>

definition n_readers :: "(guard_class \<times> bool) list \<Rightarrow> nat" where
  "n_readers gs = length (filter (\<lambda>(k, b). b \<and> k = GRead) gs)"

definition n_writers :: "(guard_class \<times> bool) list \<Rightarrow> nat" where
  "n_writers gs = length (filter (\<lambda>(k, b). b \<and> k \<noteq> GRead) gs)"

text \<open>The lock's state agrees with its locked guards.\<close>

definition agree :: "'m \<Rightarrow> (guard_class \<times> bool) list \<Rightarrow> bool" where
  "agree m gs \<longleftrightarrow> n_readers gs = readers m \<and> n_writers gs = (if writer m then 1 else 0) \<and>
     (writer m \<longrightarrow> readers m = 0)"

lemma n_simps [simp]:
  "n_readers [] = 0" "n_readers (xs @ ys) = n_readers xs + n_readers ys"
  "n_readers (g # gs) = (if snd g \<and> fst g = GRead then 1 else 0) + n_readers gs"
  "n_writers [] = 0" "n_writers (xs @ ys) = n_writers xs + n_writers ys"
  "n_writers (g # gs) = (if snd g \<and> fst g \<noteq> GRead then 1 else 0) + n_writers gs"
  by (auto simp: n_readers_def n_writers_def split: prod.split)

lemma agree_lock:
  assumes "agree m (xs @ (k, b) # ys)" and "guard_lock P k (m, b) = Some (m', b')"
  shows "agree m' (xs @ (k, b') # ys)"
  using assms
  by (cases k)
    (auto simp: agree_def ScopedLock_lock_def ScopedRdLock_lock_def ScopedWriteLock_lock_def
      dest!: lock wrlock rdlock split: if_splits)

lemma agree_new:
  assumes "agree m gs" and "guard_new P k m = Some (m', b)"
  shows "agree m' (gs @ [(k, b)])"
  using assms
  by (cases k)
    (auto simp: agree_def ScopedLock_new_def ScopedRdLock_new_def ScopedWriteLock_new_def
      dest!: lock wrlock rdlock split: if_splits)

lemma agree_unlock:
  assumes "agree m (xs @ (k, b) # ys)" and "guard_unlock P k (m, b) = (m', b')"
  shows "agree m' (xs @ (k, b') # ys) \<and> \<not> b'"
  using assms unlock_writer [of m] unlock_reader [of m]
  by (cases k; cases "writer m")
    (auto simp: agree_def ScopedLock_unlock_def ScopedRdLock_unlock_def ScopedWriteLock_unlock_def
      split: if_splits)

lemma guard_delete_eq: "guard_delete P k g = guard_unlock P k g"
  by (cases k) (simp_all add: ScopedLock_delete_def ScopedRdLock_delete_def ScopedWriteLock_delete_def)

lemma reach_agree: "guard_reach P m0 m gs \<Longrightarrow> agree m gs"
proof (induction rule: guard_reach.induct)
  case start
  then show ?case using free by (simp add: agree_def)
next
  case (delete m xs k b ys m' b')
  have "agree m' (xs @ (k, b') # ys) \<and> \<not> b'"
    by (rule agree_unlock [OF delete.IH]) (use delete.hyps(2) in \<open>simp add: guard_delete_eq\<close>)
  then show ?case by (auto simp: agree_def)
qed (blast intro: agree_new agree_lock dest: agree_unlock)+

lemma n_zero: "n_readers gs = 0 \<Longrightarrow> n_writers gs = 0 \<Longrightarrow> \<forall>g \<in> set gs. \<not> snd g"
  by (induction gs) (auto split: if_splits)

text \<open>The same of a list of guards, wherever in it a guard is made or destroyed.\<close>

lemma agree_insert:
  assumes "agree m (xs @ ys)" and "guard_new P k m = Some (m', b)"
  shows "agree m' (xs @ (k, True) # ys)"
proof -
  have "b" using assms(2) by (cases k) (auto simp: ScopedLock_new_def ScopedRdLock_new_def ScopedWriteLock_new_def)
  with agree_new [OF assms] show ?thesis by (simp add: agree_def)
qed

lemma agree_remove:
  assumes "agree m (xs @ (k, True) # ys)"
  shows "agree (fst (guard_delete P k (m, True))) (xs @ ys)"
proof -
  obtain m' b where g: "guard_unlock P k (m, True) = (m', b)" by fastforce
  from agree_unlock [OF assms g] have "agree m' (xs @ (k, False) # ys)" by (cases b) simp_all
  then show ?thesis unfolding guard_delete_eq g by (simp add: agree_def)
qed

lemma agree_exclusive:
  assumes "agree m (xs @ (k, True) # ys)" "k \<noteq> GRead"
  shows "\<forall>g \<in> set (xs @ ys). \<not> snd g"
  using assms n_zero [of "xs @ ys"] by (auto simp: agree_def split: if_splits)

lemma exclusive:
  assumes "guard_reach P m0 m (xs @ (k, True) # ys)" "k \<noteq> GRead"
  shows "\<forall>g \<in> set (xs @ ys). \<not> snd g"
  using reach_agree [OF assms(1)] assms(2) by (rule agree_exclusive)

text \<open>A lock that is refused has a guard that holds it.\<close>

lemma agree_held:
  assumes "agree m gs" "writer m \<or> 0 < readers m"
  shows "\<exists>g \<in> set gs. snd g \<and> (writer m \<longrightarrow> fst g \<noteq> GRead)"
proof (rule ccontr)
  assume none: "\<not> ?thesis"
  show False
  proof (cases "writer m")
    case True
    with none have "n_writers gs = 0" by (auto simp: n_writers_def filter_empty_conv)
    with assms(1) True show False by (simp add: agree_def)
  next
    case False
    with none have "n_readers gs = 0" by (auto simp: n_readers_def filter_empty_conv)
    with assms False show False by (simp add: agree_def)
  qed
qed

lemma released:
  assumes "guard_reach P m0 m gs" "\<forall>g \<in> set gs. \<not> snd g"
  shows "\<not> writer m \<and> readers m = 0"
proof -
  have "n_readers gs = 0 \<and> n_writers gs = 0" using assms(2) by (induction gs) auto
  with reach_agree [OF assms(1)] show ?thesis by (auto simp: agree_def split: if_splits)
qed

end

subsection \<open>The code's locks fulfil it\<close>

definition Mutex_ops :: "bool lock_ops" where
  "Mutex_ops = \<lparr>op_lock = Mutex_lock, op_rdlock = (\<lambda>_. None), op_wrlock = (\<lambda>_. None), op_unlock = Mutex_unlock\<rparr>"

definition Spinlock_ops :: "bool lock_ops" where
  "Spinlock_ops = \<lparr>op_lock = Spinlock_lock, op_rdlock = (\<lambda>_. None), op_wrlock = (\<lambda>_. None), op_unlock = Spinlock_unlock\<rparr>"

definition CASLock_ops :: "bool lock_ops" where
  "CASLock_ops = \<lparr>op_lock = CASLock_lock, op_rdlock = (\<lambda>_. None), op_wrlock = (\<lambda>_. None), op_unlock = CASLock_unlock\<rparr>"

definition RWMutex_ops :: "RWMutex lock_ops" where
  "RWMutex_ops = \<lparr>op_lock = (\<lambda>_. None), op_rdlock = RWMutex_rdlock, op_wrlock = RWMutex_wrlock, op_unlock = RWMutex_unlock\<rparr>"

interpretation mutex: lockable Mutex_ops Mutex_new "\<lambda>_. 0" "\<lambda>m. m"
  by unfold_locales (auto simp: Mutex_ops_def Mutex_new_def Mutex_lock_def Mutex_unlock_def split: if_splits)

interpretation spinlock: lockable Spinlock_ops Spinlock_new "\<lambda>_. 0" "\<lambda>m. m"
  by unfold_locales (auto simp: Spinlock_ops_def Spinlock_new_def Spinlock_lock_def Spinlock_unlock_def split: if_splits)

interpretation caslock: lockable CASLock_ops CASLock_new "\<lambda>_. 0" "\<lambda>m. m"
  by unfold_locales (auto simp: CASLock_ops_def CASLock_new_def CASLock_lock_def CASLock_unlock_def
      test_and_set_def split: if_splits)

interpretation rwmutex: lockable RWMutex_ops RWMutex_new rw_readers rw_writer
  by unfold_locales (auto simp: RWMutex_ops_def RWMutex_new_def RWMutex_rdlock_def RWMutex_wrlock_def
      RWMutex_unlock_def split: if_splits)



end
