(* ===== verification/ConfigThreads.thy ===== *)
theory ConfigThreads
  imports ConfigSpecs Locks
begin

section \<open>The configuration used by several threads\<close>

text \<open>
  The operations of \<open>ConfigArg\<close> and \<open>ConfigMgr\<close> cut where another thread can come between: at the
  guards they construct and destroy, and at each statement on what the lock is for. The locks are
  those of theory \<open>Locks\<close>: one of the manager (\<open>None\<close>) and one of each argument. A statement on a map is
  taken to be one step, which is more than \<open>std::map\<close> and \<open>std::unordered_map\<close> promise under a read lock.
\<close>

subsection \<open>Calls, and where a thread is in them\<close>

datatype ('t, 'v, 'w) config_call =
    LookUp 't string 'v string
  | LookUpOnly 't string
  | SetValue nat 'v
  | GetValue nat
  | AddListener nat "('v, 'w) listener"
  | DelListener nat "64 word"
  | ClearListener nat

datatype 'v answer = Pointer "nat option" | Value 'v | Key "64 word" | Returned | Thrown

text \<open>
  \<open>Enter\<close> is before the guard of the call, \<open>Body\<close> after it; \<open>Store\<close> before \<open>getData()[name] = nArg\<close>;
  \<open>Notify p val k\<close> in the loop over the listeners, \<open>k\<close> the key of the one called last; \<open>Leave\<close> before
  the guard is destroyed and the call returns; \<open>LeaveBlock\<close> at the end of the inner block of
  \<open>setValue\<close>, \<open>WantWrite\<close> before its write guard, \<open>WriteVal\<close> and \<open>LeaveWrite\<close> before and after the assignment.
\<close>

datatype ('t, 'v, 'w) config_frame =
    Enter "('t, 'v, 'w) config_call"
  | Body "('t, 'v, 'w) config_call"
  | Store 't string 'v string
  | Notify nat 'v "64 word option"
  | Leave "nat option" "'v answer"
  | LeaveBlock nat 'v
  | WantWrite nat 'v
  | WriteVal nat 'v
  | LeaveWrite nat

text \<open>
  A thread has one frame for each call it is in: a listener may call into the configuration. The
  answers are those a thread has got, in order.
\<close>

record ('t, 'v, 'w) config_sys =
  mgr :: "('t, 'v, 'w) config_mgr"
  locks :: "nat option \<Rightarrow> RWMutex"
  outside :: 'w
  stacks :: "('t, 'v, 'w) config_frame list list"
  answers :: "'v answer list list"

definition config_start :: "nat \<Rightarrow> ('t, 'v, 'w) config_mgr \<Rightarrow> 'w \<Rightarrow> ('t, 'v, 'w) config_sys" where
  "config_start n m w = \<lparr>mgr = m, locks = (\<lambda>_. RWMutex_new), outside = w,
     stacks = replicate n [], answers = replicate n []\<rparr>"

fun lock_of :: "('t, 'v, 'w) config_call \<Rightarrow> nat option" where
  "lock_of (LookUp ty name v d) = None"
| "lock_of (LookUpOnly ty name) = None"
| "lock_of (SetValue p v) = Some p"
| "lock_of (GetValue p) = Some p"
| "lock_of (AddListener p cb) = Some p"
| "lock_of (DelListener p k) = Some p"
| "lock_of (ClearListener p) = Some p"

abbreviation arg_at :: "nat \<Rightarrow> ('t, 'v, 'w) config_sys \<Rightarrow> ('t, 'v, 'w) config_arg" where
  "arg_at p s \<equiv> args (mgr s) ! p"

definition put_arg :: "nat \<Rightarrow> ('t, 'v, 'w) config_arg \<Rightarrow> ('t, 'v, 'w) config_sys \<Rightarrow> ('t, 'v, 'w) config_sys" where
  "put_arg p a s = s\<lparr>mgr := (mgr s)\<lparr>args := (args (mgr s))[p := a]\<rparr>\<rparr>"

definition put_stack ::
    "nat \<Rightarrow> ('t, 'v, 'w) config_frame list \<Rightarrow> ('t, 'v, 'w) config_sys \<Rightarrow> ('t, 'v, 'w) config_sys" where
  "put_stack t fs s = s\<lparr>stacks := (stacks s)[t := fs]\<rparr>"

definition call_return ::
    "nat \<Rightarrow> ('t, 'v, 'w) config_frame list \<Rightarrow> 'v answer \<Rightarrow> ('t, 'v, 'w) config_sys \<Rightarrow> ('t, 'v, 'w) config_sys" where
  "call_return t fs a s = (put_stack t fs s)\<lparr>answers := (answers s)[t := answers s ! t @ [a]]\<rparr>"

text \<open>A guard of class \<open>k\<close> is constructed (\<open>None\<close>: the thread waits) and destroyed.\<close>

definition guard_on :: "guard_class \<Rightarrow> nat option \<Rightarrow> ('t, 'v, 'w) config_sys \<Rightarrow> ('t, 'v, 'w) config_sys option" where
  "guard_on k l s = map_option (\<lambda>g. s\<lparr>locks := (locks s)(l := fst g)\<rparr>) (guard_new RWMutex_ops k (locks s l))"

definition guard_off :: "guard_class \<Rightarrow> nat option \<Rightarrow> ('t, 'v, 'w) config_sys \<Rightarrow> ('t, 'v, 'w) config_sys" where
  "guard_off k l s = s\<lparr>locks := (locks s)(l := fst (guard_delete RWMutex_ops k (locks s l, True)))\<rparr>"

subsection \<open>The steps of a thread\<close>

fun call_body ::
    "('t, 'v, 'w) config_call \<Rightarrow> ('t, 'v, 'w) config_sys \<Rightarrow> ('t, 'v, 'w) config_sys \<times> ('t, 'v, 'w) config_frame" where
  "call_body (LookUp ty name v d) s = (s,
     if \<not> valid_name name then Leave None Thrown
     else case data (mgr s) name of
            Some p \<Rightarrow> Leave None (Pointer (cast_arg ty (mgr s) p))
          | None \<Rightarrow> Store ty name v d)"
| "call_body (LookUpOnly ty name) s = (s, Leave None (Pointer (lookUp_only ty name (mgr s))))"
| "call_body (SetValue p val) s =
     (s, if ca_val (arg_at p s) = val then Leave (Some p) Returned else Notify p val None)"
| "call_body (GetValue p) s = (s, Leave (Some p) (Value (getValue (arg_at p s))))"
| "call_body (AddListener p cb) s = (case addListener cb (arg_at p s) (funcId (mgr s)) of
     (k, a, ids) \<Rightarrow> (put_arg p a (s\<lparr>mgr := (mgr s)\<lparr>funcId := ids\<rparr>\<rparr>), Leave (Some p) (Key k)))"
| "call_body (DelListener p k) s = (put_arg p (delListener k (arg_at p s)) s, Leave (Some p) Returned)"
| "call_body (ClearListener p) s = (put_arg p (clearListener (arg_at p s)) s, Leave (Some p) Returned)"

text \<open>The end of \<open>lookUp\<close>: a new argument is made and stored, whatever the name has got meanwhile.\<close>

definition lookUp_store ::
    "'t \<Rightarrow> string \<Rightarrow> 'v \<Rightarrow> string \<Rightarrow> ('t, 'v, 'w) config_sys \<Rightarrow> ('t, 'v, 'w) config_sys \<times> ('t, 'v, 'w) config_frame" where
  "lookUp_store ty name v d s = (let p = length (args (mgr s)) in
     (s\<lparr>mgr := (mgr s)\<lparr>data := (data (mgr s))(name \<mapsto> p),
        args := args (mgr s) @ [ConfigArg_new ty name v d]\<rparr>\<rparr>, Leave None (Pointer (Some p))))"

text \<open>Where the iteration over \<open>m_cbs\<close> goes on after the key \<open>k\<close>.\<close>

definition next_listener :: "64 word option \<Rightarrow> (64 word \<times> 'a) list \<Rightarrow> (64 word \<times> 'a) option" where
  "next_listener k cbs = find (\<lambda>i. case k of None \<Rightarrow> True | Some x \<Rightarrow> x < fst i) cbs"

text \<open>\<open>None\<close>: the thread has to wait. An iterator to a listener that was erased meanwhile is dangling.\<close>

fun frame_step ::
    "nat \<Rightarrow> ('t, 'v, 'w) config_frame \<Rightarrow> ('t, 'v, 'w) config_frame list \<Rightarrow> ('t, 'v, 'w) config_sys
       \<Rightarrow> ('t, 'v, 'w) config_sys res option" where
  "frame_step t (Enter c) fs s = map_option (\<lambda>s1. Inr (put_stack t (Body c # fs) s1)) (guard_on GRead (lock_of c) s)"
| "frame_step t (Body c) fs s = Some (Inr (case call_body c s of (s1, f) \<Rightarrow> put_stack t (f # fs) s1))"
| "frame_step t (Store ty name v d) fs s =
     Some (Inr (case lookUp_store ty name v d s of (s1, f) \<Rightarrow> put_stack t (f # fs) s1))"
| "frame_step t (Notify p val k) fs s =
     Some (if k \<noteq> None \<and> the k \<notin> fst ` set (ca_cbs (arg_at p s)) then Inl (BadAccess ''iterator of m_cbs'')
           else Inr (case next_listener k (ca_cbs (arg_at p s)) of
                       None \<Rightarrow> put_stack t (LeaveBlock p val # fs) s
                     | Some i \<Rightarrow> (case snd i (ca_val (arg_at p s)) val (outside s) of
                         (w, ok) \<Rightarrow> put_stack t ((if ok then Notify p val (Some (fst i)) else Leave (Some p) Thrown) # fs)
                           (s\<lparr>outside := w\<rparr>))))"
| "frame_step t (Leave l a) fs s = Some (Inr (call_return t fs a (guard_off GRead l s)))"
| "frame_step t (LeaveBlock p val) fs s = Some (Inr (put_stack t (WantWrite p val # fs) (guard_off GRead (Some p) s)))"
| "frame_step t (WantWrite p val) fs s =
     map_option (\<lambda>s1. Inr (put_stack t (WriteVal p val # fs) s1)) (guard_on GWrite (Some p) s)"
| "frame_step t (WriteVal p val) fs s =
     Some (Inr (put_stack t (LeaveWrite p # fs) (put_arg p ((arg_at p s)\<lparr>ca_val := val\<rparr>) s)))"
| "frame_step t (LeaveWrite p) fs s = Some (Inr (call_return t fs Returned (guard_off GWrite (Some p) s)))"

definition config_thread_step :: "nat \<Rightarrow> ('t, 'v, 'w) config_sys \<Rightarrow> ('t, 'v, 'w) config_sys res option" where
  "config_thread_step t s = (case stacks s ! t of [] \<Rightarrow> None | f # fs \<Rightarrow> frame_step t f fs s)"

text \<open>
  A thread that is in no call can make one, and so can a listener that is being called; pointers come
  from the manager.
\<close>

definition call_ok :: "('t, 'v, 'w) config_call \<Rightarrow> ('t, 'v, 'w) config_sys \<Rightarrow> bool" where
  "call_ok c s \<longleftrightarrow> (\<forall>p. lock_of c = Some p \<longrightarrow> p < length (args (mgr s)))"

inductive config_step :: "('t, 'v, 'w) config_sys \<Rightarrow> ('t, 'v, 'w) config_sys \<Rightarrow> bool" where
  cs_call: "t < length (stacks s) \<Longrightarrow> stacks s ! t = [] \<Longrightarrow> call_ok c s \<Longrightarrow> config_step s (put_stack t [Enter c] s)"
| cs_nested: "t < length (stacks s) \<Longrightarrow> stacks s ! t = Notify p val k # fs \<Longrightarrow>
    next_listener k (ca_cbs (arg_at p s)) \<noteq> None \<Longrightarrow> call_ok c s \<Longrightarrow>
    config_step s (put_stack t (Enter c # Notify p val k # fs) s)"
| cs_thread: "t < length (stacks s) \<Longrightarrow> config_thread_step t s = Some (Inr s') \<Longrightarrow> config_step s s'"

inductive config_reach :: "('t, 'v, 'w) config_sys \<Rightarrow> ('t, 'v, 'w) config_sys \<Rightarrow> bool" for s0 where
  cr_refl: "config_reach s0 s0"
| cr_step: "config_reach s0 s \<Longrightarrow> config_step s s' \<Longrightarrow> config_reach s0 s'"

text \<open>A run along a schedule: which thread goes on, or which call it makes.\<close>

fun config_exec ::
    "(nat \<times> ('t, 'v, 'w) config_call option) list \<Rightarrow> ('t, 'v, 'w) config_sys \<Rightarrow> ('t, 'v, 'w) config_sys option" where
  "config_exec [] s = Some s"
| "config_exec ((t, None) # xs) s =
     (if t < length (stacks s)
      then (case config_thread_step t s of Some (Inr s1) \<Rightarrow> config_exec xs s1 | _ \<Rightarrow> None) else None)"
| "config_exec ((t, Some c) # xs) s =
     (if t < length (stacks s) \<and> call_ok c s
      then (case stacks s ! t of
              [] \<Rightarrow> config_exec xs (put_stack t [Enter c] s)
            | Notify p val k # fs \<Rightarrow>
                if next_listener k (ca_cbs (arg_at p s)) \<noteq> None
                then config_exec xs (put_stack t (Enter c # Notify p val k # fs) s) else None
            | _ \<Rightarrow> None)
      else None)"

text \<open>Two threads, one argument of value 1 with a listener that records the changes.\<close>

definition demo_config :: "(unit, int, (int \<times> int) list) config_sys" where
  "demo_config = config_start 2
     \<lparr>data = [''port'' \<mapsto> 0],
      args = [(ConfigArg_new () ''port'' 1 [])\<lparr>ca_cbs := [(1, \<lambda>old new w. (w @ [(old, new)], True))]\<rparr>],
      funcId = (\<lambda>_. 1)\<rparr> []"

lemmas config_eval = demo_config_def config_start_def config_thread_step_def put_stack_def put_arg_def guard_on_def
  guard_off_def call_return_def next_listener_def call_ok_def RWMutex_ops_def ScopedRdLock_new_def
  ScopedWriteLock_new_def ScopedRdLock_delete_def ScopedRdLock_unlock_def ScopedWriteLock_delete_def
  ScopedWriteLock_unlock_def RWMutex_rdlock_def RWMutex_wrlock_def RWMutex_unlock_def RWMutex_new_def
  ConfigArg_new_def

end
