(* ===== verification/ConfigRaces.thy ===== *)
theory ConfigRaces
  imports ConfigThreads
begin

section \<open>What holds of the configuration under every interleaving\<close>

text \<open>
  The guards the threads are inside of agree with the state of every lock, by the contract of a lock
  of theory \<open>Locks\<close>. From that: what excludes what, when a thread can go on, and what the read locks of
  \<open>lookUp\<close> and \<open>setValue\<close> let through.
\<close>

subsection \<open>The guards of the threads\<close>

fun frame_guards :: "nat option \<Rightarrow> ('t, 'v, 'w) config_frame \<Rightarrow> (guard_class \<times> bool) list" where
  "frame_guards l (Body c) = (if lock_of c = l then [(GRead, True)] else [])"
| "frame_guards l (Store ty name v d) = (if l = None then [(GRead, True)] else [])"
| "frame_guards l (Notify p val k) = (if l = Some p then [(GRead, True)] else [])"
| "frame_guards l (Leave k a) = (if l = k then [(GRead, True)] else [])"
| "frame_guards l (LeaveBlock p val) = (if l = Some p then [(GRead, True)] else [])"
| "frame_guards l (WriteVal p val) = (if l = Some p then [(GWrite, True)] else [])"
| "frame_guards l (LeaveWrite p) = (if l = Some p then [(GWrite, True)] else [])"
| "frame_guards l (Enter c) = []"
| "frame_guards l (WantWrite p val) = []"

definition stack_guards :: "nat option \<Rightarrow> ('t, 'v, 'w) config_frame list \<Rightarrow> (guard_class \<times> bool) list" where
  "stack_guards l fs = concat (map (frame_guards l) fs)"

lemma stack_guards_simps [simp]:
  "stack_guards l [] = []" "stack_guards l (f # fs) = frame_guards l f @ stack_guards l fs"
  by (simp_all add: stack_guards_def)

definition all_guards :: "nat option \<Rightarrow> ('t, 'v, 'w) config_sys \<Rightarrow> (guard_class \<times> bool) list" where
  "all_guards l s = concat (map (stack_guards l) (stacks s))"

definition guards_before :: "nat option \<Rightarrow> nat \<Rightarrow> ('t, 'v, 'w) config_sys \<Rightarrow> (guard_class \<times> bool) list" where
  "guards_before l t s = concat (map (stack_guards l) (take t (stacks s)))"

definition guards_after :: "nat option \<Rightarrow> nat \<Rightarrow> ('t, 'v, 'w) config_sys \<Rightarrow> (guard_class \<times> bool) list" where
  "guards_after l t s = concat (map (stack_guards l) (drop (Suc t) (stacks s)))"

lemma all_guards_split:
  "t < length (stacks s) \<Longrightarrow> all_guards l s = guards_before l t s @ stack_guards l (stacks s ! t) @ guards_after l t s"
  unfolding all_guards_def guards_before_def guards_after_def
  by (subst id_take_nth_drop [of t "stacks s"]) simp_all

lemma all_guards_put:
  assumes "t < length (stacks s)" "stacks s' = (stacks s)[t := fs]"
  shows "all_guards l s' = guards_before l t s @ stack_guards l fs @ guards_after l t s"
  unfolding all_guards_def guards_before_def guards_after_def assms(2)
  using assms(1) by (simp add: upd_conv_take_nth_drop)

definition guards_agree :: "('t, 'v, 'w) config_sys \<Rightarrow> bool" where
  "guards_agree s \<longleftrightarrow> (\<forall>l. rwmutex.agree (locks s l) (all_guards l s))"

definition waiting_frame :: "('t, 'v, 'w) config_frame \<Rightarrow> bool" where
  "waiting_frame f \<longleftrightarrow> (\<exists>p val k. f = Notify p val k)"

text \<open>A thread is inside one call, and below it in calls whose listeners are being called.\<close>

definition config_inv :: "('t, 'v, 'w) config_sys \<Rightarrow> bool" where
  "config_inv s \<longleftrightarrow> guards_agree s \<and> (\<forall>fs \<in> set (stacks s). \<forall>f \<in> set (tl fs). waiting_frame f)"

lemma agree_at:
  assumes "guards_agree s" "t < length (stacks s)"
  shows "rwmutex.agree (locks s l) (guards_before l t s @ stack_guards l (stacks s ! t) @ guards_after l t s)"
  using assms(1) unfolding guards_agree_def all_guards_split [OF assms(2), symmetric] by blast

lemma agree_same:
  assumes "guards_agree s" "t < length (stacks s)" "stacks s' = (stacks s)[t := fs]" "locks s' = locks s"
    and "\<And>l. stack_guards l fs = stack_guards l (stacks s ! t)"
  shows "guards_agree s'"
  using assms unfolding guards_agree_def
  by (simp add: all_guards_put [OF assms(2,3)] all_guards_split [OF assms(2), of "_ :: nat option", symmetric])

lemma guard_on_SomeD:
  assumes "guard_on k l s = Some s'"
  shows "\<exists>m b. guard_new RWMutex_ops k (locks s l) = Some (m, b) \<and> s' = s\<lparr>locks := (locks s)(l := m)\<rparr>"
  using assms by (auto simp: guard_on_def)

lemma agree_on:
  assumes inv: "guards_agree s" and t: "t < length (stacks s)" "stacks s ! t = f # fs"
    and on: "guard_on k l s = Some s1" and s': "stacks s' = (stacks s)[t := f' # fs]" "locks s' = locks s1"
    and f: "\<And>i. frame_guards i f = []" "\<And>i. frame_guards i f' = (if i = l then [(k, True)] else [])"
  shows "guards_agree s'"
  unfolding guards_agree_def
proof
  fix i
  obtain m b where m: "guard_new RWMutex_ops k (locks s l) = Some (m, b)" "s1 = s\<lparr>locks := (locks s)(l := m)\<rparr>"
    using guard_on_SomeD [OF on] by blast
  have a: "rwmutex.agree (locks s i) (guards_before i t s @ stack_guards i fs @ guards_after i t s)"
    using agree_at [OF inv t(1), of i] by (simp add: t(2) f(1))
  show "rwmutex.agree (locks s' i) (all_guards i s')"
    unfolding all_guards_put [OF t(1) s'(1)] s'(2) m(2)
    using a rwmutex.agree_insert [OF _ m(1), of "guards_before l t s" "stack_guards l fs @ guards_after l t s"]
    by (cases "i = l") (simp_all add: f(2))
qed

lemma agree_off:
  assumes inv: "guards_agree s" and t: "t < length (stacks s)" "stacks s ! t = f # fs"
    and s': "stacks s' = (stacks s)[t := fs']" "locks s' = locks (guard_off k l s)"
    and f: "\<And>i. frame_guards i f = (if i = l then [(k, True)] else [])" "\<And>i. stack_guards i fs' = stack_guards i fs"
  shows "guards_agree s'"
  unfolding guards_agree_def
proof
  fix i
  have a: "rwmutex.agree (locks s i) (guards_before i t s @ (frame_guards i f @ stack_guards i fs) @ guards_after i t s)"
    using agree_at [OF inv t(1), of i] by (simp add: t(2))
  show "rwmutex.agree (locks s' i) (all_guards i s')"
    unfolding all_guards_put [OF t(1) s'(1)] s'(2) f(2)
    using a rwmutex.agree_remove [of "locks s l" "guards_before l t s" k "stack_guards l fs @ guards_after l t s"]
    by (cases "i = l") (simp_all add: guard_off_def f(1))
qed

lemma call_body_stacks:
  "call_body c s = (s1, f) \<Longrightarrow> stacks s1 = stacks s \<and> locks s1 = locks s \<and> answers s1 = answers s \<and>
     frame_guards l f = frame_guards l (Body c)"
  by (cases c) (auto simp: put_arg_def addListener_def Let_def split: if_splits option.splits)

lemma frame_step_agree:
  assumes inv: "guards_agree s" and t: "t < length (stacks s)" "stacks s ! t = f # fs"
    and step: "frame_step t f fs s = Some (Inr s')"
  shows "guards_agree s'"
proof (cases f)
  case (Enter c)
  with step obtain s1 where s1: "guard_on GRead (lock_of c) s = Some s1" "s' = put_stack t (Body c # fs) s1" by auto
  then have "stacks s1 = stacks s" using guard_on_SomeD [OF s1(1)] by auto
  with s1 Enter show ?thesis by (intro agree_on [OF inv t s1(1), of s' "Body c"]) (auto simp: put_stack_def)
next
  case (Body c)
  obtain s1 g where b: "call_body c s = (s1, g)" by fastforce
  with step Body have s': "s' = put_stack t (g # fs) s1" by simp
  from call_body_stacks [OF b] t Body s' show ?thesis
    by (intro agree_same [OF inv t(1), of s' "g # fs"]) (simp_all add: put_stack_def)
next
  case (Store ty name v d)
  with step t show ?thesis
    by (intro agree_same [OF inv t(1), of s' "Leave None (Pointer (Some (length (args (mgr s))))) # fs"])
      (auto simp: put_stack_def lookUp_store_def Let_def)
next
  case (Notify p val k)
  with step t have "\<exists>g. stacks s' = (stacks s)[t := g # fs] \<and> locks s' = locks s \<and> (\<forall>l. frame_guards l g = frame_guards l f)"
    by (auto simp: put_stack_def split: if_splits option.splits prod.splits)
  then obtain g where "stacks s' = (stacks s)[t := g # fs]" "locks s' = locks s" "\<forall>l. frame_guards l g = frame_guards l f" by blast
  with t show ?thesis by (intro agree_same [OF inv t(1), of s' "g # fs"]) simp_all
next
  case (Leave l a)
  with step t show ?thesis
    by (intro agree_off [OF inv t, of s' fs GRead l]) (auto simp: call_return_def put_stack_def guard_off_def)
next
  case (LeaveBlock p val)
  with step t show ?thesis
    by (intro agree_off [OF inv t, of s' "WantWrite p val # fs" GRead "Some p"]) (auto simp: put_stack_def guard_off_def)
next
  case (WantWrite p val)
  with step obtain s1 where s1: "guard_on GWrite (Some p) s = Some s1" "s' = put_stack t (WriteVal p val # fs) s1" by auto
  then have "stacks s1 = stacks s" using guard_on_SomeD [OF s1(1)] by auto
  with s1 WantWrite show ?thesis by (intro agree_on [OF inv t s1(1), of s' "WriteVal p val"]) (auto simp: put_stack_def)
next
  case (WriteVal p val)
  with step t show ?thesis
    by (intro agree_same [OF inv t(1), of s' "LeaveWrite p # fs"]) (auto simp: put_stack_def put_arg_def)
next
  case (LeaveWrite p)
  with step t show ?thesis
    by (intro agree_off [OF inv t, of s' fs GWrite "Some p"]) (auto simp: call_return_def put_stack_def guard_off_def)
qed

subsection \<open>Every reachable state\<close>

lemma frame_step_stack:
  assumes "frame_step t f fs s = Some (Inr s')"
  shows "\<exists>gs. stacks s' = (stacks s)[t := gs] \<and> (gs = fs \<or> (\<exists>g. gs = g # fs))"
proof (cases f)
  case (Body c)
  obtain s1 g where b: "call_body c s = (s1, g)" by fastforce
  with assms Body call_body_stacks [OF b] show ?thesis by (auto simp: put_stack_def)
next
  case (Notify p val k)
  with assms show ?thesis by (auto simp: put_stack_def split: if_splits option.splits prod.splits)
qed (use assms in \<open>auto simp: put_stack_def call_return_def guard_off_def lookUp_store_def put_arg_def Let_def
  dest!: guard_on_SomeD\<close>)

lemma config_step_inv:
  assumes "config_step s s'" and inv: "config_inv s"
  shows "config_inv s' \<and> length (stacks s') = length (stacks s)"
proof -
  have closed: "config_inv s' \<and> length (stacks s') = length (stacks s)"
    if "guards_agree s'" "stacks s' = (stacks s)[t := gs]" "\<forall>f \<in> set (tl gs). waiting_frame f" for t gs
  proof -
    have "set (stacks s') \<subseteq> insert gs (set (stacks s))" unfolding that(2) by (rule set_update_subset_insert)
    then have "\<forall>fs \<in> set (stacks s'). \<forall>f \<in> set (tl fs). waiting_frame f"
      using inv that(3) unfolding config_inv_def by blast
    with that(1,2) show ?thesis by (simp add: config_inv_def)
  qed
  have tail: "\<forall>f \<in> set fs. waiting_frame f" if "t < length (stacks s)" "stacks s ! t = f # fs" for t f fs
    using inv nth_mem [OF that(1)] unfolding config_inv_def that(2) by fastforce
  have g: "guards_agree s" using inv by (simp add: config_inv_def)
  show ?thesis
    using assms(1)
  proof cases
    case (cs_call t c)
    then have st: "stacks s' = (stacks s)[t := [Enter c]]" "locks s' = locks s" by (simp_all add: put_stack_def)
    have "guards_agree s'" by (rule agree_same [OF g cs_call(2) st]) (simp add: cs_call(3))
    from closed [OF this st(1)] show ?thesis by simp
  next
    case (cs_nested t p val k fs c)
    let ?gs = "Enter c # Notify p val k # fs"
    have st: "stacks s' = (stacks s)[t := ?gs]" "locks s' = locks s" by (simp_all add: cs_nested(1) put_stack_def)
    have "guards_agree s'" by (rule agree_same [OF g cs_nested(2) st]) (simp add: cs_nested(3))
    from closed [OF this st(1)] tail [OF cs_nested(2,3)] show ?thesis by (simp add: waiting_frame_def)
  next
    case (cs_thread t)
    then obtain f fs where f: "stacks s ! t = f # fs" "frame_step t f fs s = Some (Inr s')"
      by (auto simp: config_thread_step_def split: list.splits)
    from frame_step_stack [OF f(2)] obtain gs where gs: "stacks s' = (stacks s)[t := gs]" "gs = fs \<or> (\<exists>g. gs = g # fs)" by blast
    from tail [OF cs_thread(1) f(1)] gs(2) have "\<forall>f \<in> set (tl gs). waiting_frame f" by (cases fs) auto
    from closed [OF frame_step_agree [OF g cs_thread(1) f] gs(1) this] show ?thesis .
  qed
qed

lemma config_inv_start: "config_inv (config_start n m w)"
proof -
  have "all_guards l (config_start n m w) = []" for l
    by (simp add: all_guards_def config_start_def)
  then show ?thesis
    by (auto simp: config_inv_def guards_agree_def config_start_def rwmutex.agree_def RWMutex_new_def)
qed

lemma config_reach_inv:
  "config_reach s0 s \<Longrightarrow> config_inv s0 \<Longrightarrow> config_inv s \<and> length (stacks s) = length (stacks s0)"
proof (induction rule: config_reach.induct)
  case (cr_step s s')
  then have "config_inv s" "length (stacks s) = length (stacks s0)" by blast+
  with config_step_inv [OF cr_step.hyps(2)] show ?case by simp
qed simp

lemma config_reach_trans: "config_reach s1 s2 \<Longrightarrow> config_reach s0 s1 \<Longrightarrow> config_reach s0 s2"
  by (induction rule: config_reach.induct) (blast intro: cr_step)+

lemma frame_locked: "g \<in> set (frame_guards l f) \<Longrightarrow> snd g"
  by (cases f) (auto split: if_splits)

lemma stack_locked: "g \<in> set (stack_guards l fs) \<Longrightarrow> snd g"
  by (auto simp only: stack_guards_def set_concat set_map dest: frame_locked)

lemma guards_other:
  assumes "u < length (stacks s)" "u \<noteq> t" "g \<in> set (stack_guards l (stacks s ! u))"
  shows "g \<in> set (guards_before l t s @ guards_after l t s) \<and> snd g"
proof
  show "snd g" using assms(3) by (rule stack_locked)
  show "g \<in> set (guards_before l t s @ guards_after l t s)"
  proof (cases "u < t")
    case True
    then have "stacks s ! u \<in> set (take t (stacks s))" using assms(1) by (auto simp: in_set_conv_nth)
    with assms(3) show ?thesis by (auto simp: guards_before_def)
  next
    case False
    then have "stacks s ! u = drop (Suc t) (stacks s) ! (u - Suc t)" "u - Suc t < length (drop (Suc t) (stacks s))"
      using assms(1,2) by simp_all
    then have "stacks s ! u \<in> set (drop (Suc t) (stacks s))" by (metis nth_mem)
    with assms(3) show ?thesis by (auto simp: guards_after_def)
  qed
qed

lemma writer_alone:
  assumes inv: "config_inv s" and t: "t < length (stacks s)" "stacks s ! t = f # fs"
    and f: "frame_guards l f = [(GWrite, True)]"
  shows "stack_guards l fs = [] \<and> (\<forall>u < length (stacks s). u \<noteq> t \<longrightarrow> stack_guards l (stacks s ! u) = [])"
proof -
  have "rwmutex.agree (locks s l) (guards_before l t s @ (GWrite, True) # stack_guards l fs @ guards_after l t s)"
    using agree_at [OF _ t(1), of l] inv by (simp add: config_inv_def t(2) f)
  from rwmutex.agree_exclusive [OF this] have none: "g \<in> set (guards_before l t s @ stack_guards l fs @ guards_after l t s) \<Longrightarrow> \<not> snd g" for g
    by simp
  have "g \<notin> set (stack_guards l fs)" for g
    using none [of g] stack_locked [of g l fs] by auto
  then have "stack_guards l fs = []" by (meson last_in_set)
  moreover have "stack_guards l (stacks s ! u) = []" if "u < length (stacks s)" "u \<noteq> t" for u
  proof -
    have "g \<notin> set (stack_guards l (stacks s ! u))" for g
      using guards_other [OF that, of g l] none [of g] by auto
    then show ?thesis by (meson last_in_set)
  qed
  ultimately show ?thesis by blast
qed

lemma guards_at:
  assumes "g \<in> set (all_guards l s)"
  shows "\<exists>t f. t < length (stacks s) \<and> f \<in> set (stacks s ! t) \<and> g \<in> set (frame_guards l f)"
proof -
  from assms obtain fs f where "fs \<in> set (stacks s)" "f \<in> set fs" "g \<in> set (frame_guards l f)"
    by (auto simp: all_guards_def stack_guards_def)
  then show ?thesis by (metis in_set_conv_nth)
qed

lemma manager_unwritten: "config_inv s \<Longrightarrow> \<not> rw_writer (locks s None)"
proof
  assume "config_inv s" "rw_writer (locks s None)"
  then have "rwmutex.agree (locks s None) (all_guards None s)" by (simp add: config_inv_def guards_agree_def)
  from rwmutex.agree_held [OF this] \<open>rw_writer (locks s None)\<close> obtain g where
    "g \<in> set (all_guards None s)" "fst g \<noteq> GRead" by blast
  then obtain f :: "('a, 'b, 'c) config_frame" where "g \<in> set (frame_guards None f)" "fst g \<noteq> GRead"
    using guards_at by blast
  then show False by (cases f) (auto split: if_splits)
qed

lemma config_exec_reach: "config_exec xs s = Some s' \<Longrightarrow> config_reach s s'"
proof (induction xs s rule: config_exec.induct)
  case (2 t xs s)
  then show ?case
    by (auto split: if_splits option.splits sum.splits intro: config_reach_trans [OF _ cr_step [OF cr_refl cs_thread]])
next
  case (3 t c xs s)
  from "3.prems" have t: "t < length (stacks s)" "call_ok c s" by (auto split: if_splits)
  show ?case
  proof (cases "stacks s ! t")
    case Nil
    with 3 t show ?thesis by (auto intro: config_reach_trans [OF _ cr_step [OF cr_refl cs_call]])
  next
    case (Cons f fs)
    with "3.prems" t obtain p val k where f: "f = Notify p val k" "next_listener k (ca_cbs (arg_at p s)) \<noteq> None"
      "config_exec xs (put_stack t (Enter c # Notify p val k # fs) s) = Some s'"
      by (auto split: config_frame.splits if_splits)
    with "3.IH"(2) Cons t have "config_reach (put_stack t (Enter c # Notify p val k # fs) s) s'" by simp
    moreover have "config_step s (put_stack t (Enter c # Notify p val k # fs) s)"
      using t Cons f by (intro cs_nested) simp_all
    ultimately show ?thesis using config_reach_trans cr_step cr_refl by blast
  qed
qed (simp add: cr_refl)

subsection \<open>What the guards exclude\<close>

text \<open>
  C10. While a thread is about to assign the value of an argument, no other thread is in any section of
  that argument's lock, so no call of \<open>getValue\<close>, no comparison and no listener reads it meanwhile. The
  lock of the manager never has a writer: it excludes nobody, and no \<open>lookUp\<close> ever waits for it.
\<close>

theorem config_value_exclusive:
  assumes run: "config_reach (config_start n m w) s"
  shows "(t < n \<and> stacks s ! t = WriteVal p val # fs \<longrightarrow>
      stack_guards (Some p) fs = [] \<and> (\<forall>u < n. u \<noteq> t \<longrightarrow> stack_guards (Some p) (stacks s ! u) = [])) \<and>
    \<not> rw_writer (locks s None)"
proof -
  have inv: "config_inv s" and len: "length (stacks s) = n"
    using config_reach_inv [OF run config_inv_start] by (simp_all add: config_start_def)
  from manager_unwritten [OF inv] writer_alone [OF inv, of t "WriteVal p val" fs "Some p"] len show ?thesis by auto
qed

theorem config_value_exclusive_witness:
  "\<exists>s. config_reach demo_config s \<and> stacks s = [[WriteVal 0 7], [Enter (GetValue 0)]] \<and>
     stack_guards (Some 0) (stacks s ! 1) = [] \<and> rw_writer (locks s (Some 0)) \<and> \<not> rw_writer (locks s None)"
proof -
  have "\<exists>s. config_exec [(1, Some (GetValue 0)), (0, Some (SetValue 0 7)), (0, None), (0, None), (0, None), (0, None),
      (0, None), (0, None)] demo_config = Some s \<and> stacks s = [[WriteVal 0 7], [Enter (GetValue 0)]] \<and>
      rw_writer (locks s (Some 0))"
    by (simp add: config_eval numeral_2_eq_2)
  then obtain s where s: "config_reach demo_config s" "stacks s = [[WriteVal 0 7], [Enter (GetValue 0)]]"
    "rw_writer (locks s (Some 0))" using config_exec_reach by blast
  from config_value_exclusive [OF s(1) [unfolded demo_config_def], of 0 0 7 "[]"] s show ?thesis
    by (intro exI [of _ s]) simp
qed

text \<open>
  C26. When no listener calls back into the configuration, the threads never wait for each other in a
  circle: in every reachable state in which some call has not returned, some thread can go on.
\<close>

theorem config_progress:
  assumes run: "config_reach (config_start n m w) s" and flat: "\<forall>fs \<in> set (stacks s). length fs \<le> 1"
    and busy: "t < n" "stacks s ! t \<noteq> []"
  shows "\<exists>u < n. config_thread_step u s \<noteq> None"
proof -
  have inv: "config_inv s" and len: "length (stacks s) = n"
    using config_reach_inv [OF run config_inv_start] by (simp_all add: config_start_def)
  have single: "stacks s ! u = [f]" if "u < n" "f \<in> set (stacks s ! u)" for u f
    using flat that len by (cases "stacks s ! u") (auto dest!: nth_mem)
  obtain f where f: "stacks s ! t = [f]" using single [OF busy(1)] busy(2) by (metis last_in_set)
  show ?thesis
  proof (cases "config_thread_step t s = None")
    case False
    with busy show ?thesis by blast
  next
    case True
    then have "\<exists>l. rw_writer (locks s l) \<or> 0 < rw_readers (locks s l)"
      by (cases f) (auto simp: config_thread_step_def f guard_on_def RWMutex_ops_def ScopedRdLock_new_def
        ScopedWriteLock_new_def RWMutex_rdlock_def RWMutex_wrlock_def split: if_splits)
    then obtain l where l: "rw_writer (locks s l) \<or> 0 < rw_readers (locks s l)" by blast
    have "rwmutex.agree (locks s l) (all_guards l s)" using inv by (simp add: config_inv_def guards_agree_def)
    from rwmutex.agree_held [OF this l] obtain g where "g \<in> set (all_guards l s)" by blast
    then obtain u f' where u: "u < n" "f' \<in> set (stacks s ! u)" "g \<in> set (frame_guards l f')"
      using guards_at len by metis
    then have "config_thread_step u s \<noteq> None"
      using single [OF u(1,2)] by (cases f') (auto simp: config_thread_step_def)
    with u(1) show ?thesis by blast
  qed
qed

theorem config_progress_witness:
  "\<exists>s. config_reach demo_config s \<and> stacks s = [[WantWrite 0 7], [Body (GetValue 0)]] \<and>
     config_thread_step 0 s = None \<and> config_thread_step 1 s \<noteq> None"
proof -
  have "\<exists>s. config_exec [(1, Some (GetValue 0)), (0, Some (SetValue 0 7)), (0, None), (0, None), (0, None), (0, None),
      (0, None), (1, None)] demo_config = Some s \<and> stacks s = [[WantWrite 0 7], [Body (GetValue 0)]] \<and>
      config_thread_step 0 s = None"
    by (simp add: config_eval numeral_2_eq_2)
  then obtain s where s: "config_reach demo_config s" "stacks s = [[WantWrite 0 7], [Body (GetValue 0)]]"
    "config_thread_step 0 s = None" using config_exec_reach by blast
  have "\<exists>u < 2. config_thread_step u s \<noteq> None"
    by (rule config_progress [OF s(1) [unfolded demo_config_def], of 0]) (simp_all add: s(2))
  with s show ?thesis by (auto simp: less_2_cases_iff)
qed

subsection \<open>Listeners that call back\<close>

text \<open>The value of an argument changes at the assignment of \<open>setValue\<close> only.\<close>

lemma update_value:
  "p < length as \<Longrightarrow> ca_val a = ca_val (as ! q) \<Longrightarrow> ca_val (as[q := a] ! p) = ca_val (as ! p)"
  by (cases "q = p") simp_all

lemma call_body_value:
  "call_body c s = (s1, g) \<Longrightarrow> p < length (args (mgr s)) \<Longrightarrow>
     ca_val (arg_at p s1) = ca_val (arg_at p s) \<and> length (args (mgr s1)) = length (args (mgr s))"
  by (cases c) (auto simp: put_arg_def addListener_def delListener_def clearListener_def Let_def update_value split: if_splits option.splits)

lemma frame_step_value:
  assumes step: "frame_step u f fs s = Some (Inr s')" and p: "p < length (args (mgr s))" and f: "\<forall>v. f \<noteq> WriteVal p v"
  shows "ca_val (arg_at p s') = ca_val (arg_at p s) \<and> length (args (mgr s)) \<le> length (args (mgr s'))"
proof (cases f)
  case (Body c)
  obtain s1 g where b: "call_body c s = (s1, g)" by fastforce
  with step Body have "s' = put_stack u (g # fs) s1" by simp
  with call_body_value [OF b p] show ?thesis by (simp add: put_stack_def)
next
  case (Notify q val k)
  with step show ?thesis by (auto simp: put_stack_def split: if_splits option.splits prod.splits)
next
  case (WriteVal q v)
  with step f p show ?thesis by (auto simp: put_stack_def put_arg_def nth_list_update)
qed (use step p in \<open>auto simp: put_stack_def call_return_def guard_off_def lookUp_store_def Let_def nth_append
  dest!: guard_on_SomeD\<close>)

lemma config_thread_stepD:
  "config_thread_step t s = Some r \<Longrightarrow> \<exists>f fs. stacks s ! t = f # fs \<and> frame_step t f fs s = Some r"
  by (auto simp: config_thread_step_def split: list.splits)

text \<open>A thread whose own caller holds the read lock never gets the write lock.\<close>

definition self_blocked :: "nat \<Rightarrow> nat \<Rightarrow> ('t, 'v, 'w) config_sys \<Rightarrow> bool" where
  "self_blocked t p s \<longleftrightarrow> t < length (stacks s) \<and>
     (\<exists>val fs k v. stacks s ! t = WantWrite p val # fs \<and> Notify p v k \<in> set fs)"

lemma self_blocked_reader:
  assumes "self_blocked t p s"
  shows "(GRead, True) \<in> set (stack_guards (Some p) (stacks s ! t))"
  using assms by (force simp: self_blocked_def stack_guards_def)

lemma self_blocked_waits:
  assumes inv: "config_inv s" and b: "self_blocked t p s"
  shows "config_thread_step t s = None"
proof -
  have t: "t < length (stacks s)" using b by (simp add: self_blocked_def)
  have "rwmutex.agree (locks s (Some p)) (all_guards (Some p) s)" using inv by (simp add: config_inv_def guards_agree_def)
  moreover have "(GRead, True) \<in> set (all_guards (Some p) s)"
    using self_blocked_reader [OF b] nth_mem [OF t] by (auto simp: all_guards_def)
  moreover from this have "0 < rwmutex.n_readers (all_guards (Some p) s)"
    by (force simp: rwmutex.n_readers_def filter_empty_conv)
  ultimately have "0 < rw_readers (locks s (Some p))" by (simp add: rwmutex.agree_def)
  with b show ?thesis
    by (auto simp: self_blocked_def config_thread_step_def guard_on_def RWMutex_ops_def ScopedWriteLock_new_def RWMutex_wrlock_def)
qed

lemma self_blocked_step:
  assumes step: "config_step s s'" and inv: "config_inv s" and b: "self_blocked t p s"
    and p: "p < length (args (mgr s))"
  shows "stacks s' ! t = stacks s ! t \<and> ca_val (arg_at p s') = ca_val (arg_at p s) \<and> p < length (args (mgr s'))"
proof -
  have t: "t < length (stacks s)" using b by (simp add: self_blocked_def)
  from b obtain val fs where top: "stacks s ! t = WantWrite p val # fs" by (auto simp: self_blocked_def)
  show ?thesis
    using step
  proof cases
    case (cs_call u c)
    with top p show ?thesis by (cases "u = t") (simp_all add: put_stack_def)
  next
    case (cs_nested u q v k gs c)
    with top p show ?thesis by (cases "u = t") (simp_all add: put_stack_def)
  next
    case (cs_thread u)
    from config_thread_stepD [OF cs_thread(2)] obtain f gs where f: "stacks s ! u = f # gs" "frame_step u f gs s = Some (Inr s')"
      by blast
    have ne: "u \<noteq> t" using cs_thread(2) self_blocked_waits [OF inv b] by auto
    have "f \<noteq> WriteVal p v" for v
    proof
      assume "f = WriteVal p v"
      then have "stack_guards (Some p) (stacks s ! t) = []"
        using writer_alone [OF inv cs_thread(1) f(1), of "Some p"] t ne by simp
      with self_blocked_reader [OF b] show False by simp
    qed
    then have "ca_val (arg_at p s') = ca_val (arg_at p s) \<and> length (args (mgr s)) \<le> length (args (mgr s'))"
      by (intro frame_step_value [OF f(2) p]) blast
    moreover from frame_step_stack [OF f(2)] ne have "stacks s' ! t = stacks s ! t" by auto
    ultimately show ?thesis using p by simp
  qed
qed

text \<open>
  C27. A listener that sets the argument it listens to, to yet another value, never returns: the inner
  \<open>setValue\<close> waits for the write lock while the outer one holds the read lock. From then on the
  thread makes no step, and no thread ever changes that argument again.
\<close>

theorem listener_deadlock:
  assumes run: "config_reach (config_start n m w) s" and t: "t < n"
    and top: "stacks s ! t = WantWrite p val # fs" "Notify p v k \<in> set fs"
    and p: "p < length (args (mgr s))" and later: "config_reach s s'"
  shows "config_thread_step t s' = None \<and> stacks s' ! t = stacks s ! t \<and>
    ca_val (arg_at p s') = ca_val (arg_at p s)"
proof -
  have inv: "config_inv s" and len: "length (stacks s) = n"
    using config_reach_inv [OF run config_inv_start] by (simp_all add: config_start_def)
  have b: "self_blocked t p s" using t top len by (auto simp: self_blocked_def)
  from later have "config_inv s' \<and> self_blocked t p s' \<and> stacks s' ! t = stacks s ! t \<and>
      ca_val (arg_at p s') = ca_val (arg_at p s) \<and> p < length (args (mgr s'))"
  proof (induction rule: config_reach.induct)
    case (cr_step s1 s2)
    then have "config_inv s1" "self_blocked t p s1" "p < length (args (mgr s1))" by blast+
    with self_blocked_step [OF cr_step.hyps(2) this] config_step_inv [OF cr_step.hyps(2)] cr_step.IH
    show ?case by (simp add: self_blocked_def)
  qed (use inv b p in simp)
  then show ?thesis using self_blocked_waits by blast
qed

theorem listener_deadlock_witness:
  "\<exists>s. config_reach demo_config s \<and> stacks s = [[WantWrite 0 8, Notify 0 7 None], []] \<and>
     (\<forall>s'. config_reach s s' \<longrightarrow> config_thread_step 0 s' = None \<and> ca_val (arg_at 0 s') = 1)"
proof -
  have "\<exists>s. config_exec [(0, Some (SetValue 0 7)), (0, None), (0, None), (0, Some (SetValue 0 8)), (0, None), (0, None),
      (0, None), (0, None), (0, None)] demo_config = Some s \<and> stacks s = [[WantWrite 0 8, Notify 0 7 None], []] \<and>
      0 < length (args (mgr s)) \<and> ca_val (arg_at 0 s) = 1"
    by (simp add: config_eval numeral_2_eq_2)
  then obtain s where s: "config_reach demo_config s" "stacks s = [[WantWrite 0 8, Notify 0 7 None], []]"
    "0 < length (args (mgr s))" "ca_val (arg_at 0 s) = 1" using config_exec_reach by blast
  have "config_thread_step 0 s' = None \<and> ca_val (arg_at 0 s') = 1" if "config_reach s s'" for s'
    using listener_deadlock [OF s(1) [unfolded demo_config_def], of 0 0 8 "[Notify 0 7 None]" 7 None s'] s that by simp
  with s show ?thesis by blast
qed

end
