(* ===== verification/ConfigOverlaps.thy ===== *)
theory ConfigOverlaps
  imports ConfigRaces
begin

section \<open>Calls into the configuration, overlapping and not\<close>

text \<open>
  A call that no other overlaps does what the definitions of theory \<open>Configs\<close> do in one step. Two
  calls that overlap need not: the read locks under which \<open>lookUp\<close> stores and \<open>setValue\<close> calls the
  listeners do not keep them apart.
\<close>

subsection \<open>One thread alone\<close>

inductive solo :: "nat \<Rightarrow> ('t, 'v, 'w) config_sys \<Rightarrow> ('t, 'v, 'w) config_sys \<Rightarrow> bool" for t where
  solo_refl: "solo t s s"
| solo_step: "config_thread_step t s = Some (Inr s1) \<Longrightarrow> solo t s1 s2 \<Longrightarrow> solo t s s2"

lemma solo_trans: "solo t s s1 \<Longrightarrow> solo t s1 s2 \<Longrightarrow> solo t s s2"
  by (induction rule: solo.induct) (blast intro: solo_step)+

lemma solo_reach: "solo t s s' \<Longrightarrow> t < length (stacks s) \<Longrightarrow> config_reach s s'"
proof (induction rule: solo.induct)
  case (solo_step s s1 s2)
  from config_thread_stepD [OF solo_step.hyps(1)] frame_step_stack have "length (stacks s1) = length (stacks s)"
    by (metis length_list_update)
  with solo_step have "config_reach s1 s2" by simp
  moreover have "config_reach s s1" by (rule cr_step [OF cr_refl cs_thread]) (use solo_step in auto)
  ultimately show ?case by (rule config_reach_trans)
qed (rule cr_refl)

lemma step_at: "t < length (stacks s) \<Longrightarrow> config_thread_step t (put_stack t (f # fs) s) = frame_step t f fs (put_stack t (f # fs) s)"
  by (simp add: config_thread_step_def put_stack_def)

lemma put_stack_twice [simp]: "put_stack t gs (put_stack t fs s) = put_stack t gs s"
  by (simp add: put_stack_def)

lemma put_stack_sel [simp]:
  "mgr (put_stack t fs s) = mgr s" "locks (put_stack t fs s) = locks s" "outside (put_stack t fs s) = outside s"
  "answers (put_stack t fs s) = answers s" "length (stacks (put_stack t fs s)) = length (stacks s)"
  by (simp_all add: put_stack_def)

lemma put_arg_sel [simp]:
  "locks (put_arg p a s) = locks s" "outside (put_arg p a s) = outside s"
  "answers (put_arg p a s) = answers s" "stacks (put_arg p a s) = stacks s"
  by (simp_all add: put_arg_def)

lemma put_arg_put_stack [simp]: "put_arg p a (put_stack t fs s) = put_stack t fs (put_arg p a s)"
  by (simp add: put_arg_def put_stack_def)

lemma call_return_put_stack [simp]: "call_return t fs a (put_stack t gs s) = call_return t fs a s"
  by (simp add: call_return_def put_stack_def)

lemma put_stack_idem: "stacks s ! t = fs \<Longrightarrow> put_stack t fs s = s"
  by (auto simp: put_stack_def)

text \<open>A free lock, in a section, and free again.\<close>

definition in_section :: "guard_class \<Rightarrow> nat option \<Rightarrow> ('t, 'v, 'w) config_sys \<Rightarrow> ('t, 'v, 'w) config_sys" where
  "in_section k l s = s\<lparr>locks := (locks s)(l := RWMutex_new\<lparr>rw_readers := (if k = GRead then 1 else 0), rw_writer := (k \<noteq> GRead)\<rparr>)\<rparr>"

lemma guard_free:
  assumes "locks s l = RWMutex_new" "k \<noteq> GLock"
  shows "guard_on k l s = Some (in_section k l s)"
  using assms
  by (cases k) (simp_all add: guard_on_def in_section_def RWMutex_ops_def ScopedRdLock_new_def ScopedWriteLock_new_def
      RWMutex_rdlock_def RWMutex_wrlock_def RWMutex_new_def)

lemma in_section_sel [simp]:
  "mgr (in_section k l s) = mgr s" "outside (in_section k l s) = outside s"
  "answers (in_section k l s) = answers s" "stacks (in_section k l s) = stacks s"
  by (simp_all add: in_section_def)

lemma guard_off_section:
  assumes "locks s l = RWMutex_new" "k \<noteq> GLock" "locks s' = locks (in_section k l s)"
  shows "guard_off k l s' = s'\<lparr>locks := locks s\<rparr>"
  using assms
  by (cases k) (auto simp: guard_off_def in_section_def RWMutex_ops_def ScopedRdLock_delete_def ScopedRdLock_unlock_def
      ScopedWriteLock_delete_def ScopedWriteLock_unlock_def RWMutex_unlock_def RWMutex_new_def fun_upd_idem)

lemma solo_enter:
  assumes "t < length (stacks s)" "locks s (lock_of c) = RWMutex_new"
  shows "solo t (put_stack t (Enter c # fs) s) (put_stack t (Body c # fs) (in_section GRead (lock_of c) s))"
proof -
  have "guard_on GRead (lock_of c) (put_stack t (Enter c # fs) s) = Some (in_section GRead (lock_of c) (put_stack t (Enter c # fs) s))"
    by (rule guard_free) (simp_all add: assms)
  moreover have "in_section k l (put_stack t gs s) = put_stack t gs (in_section k l s)" for k l gs
    by (simp add: in_section_def put_stack_def)
  ultimately show ?thesis
    by (intro solo_step [OF _ solo_refl]) (simp add: step_at [OF assms(1)])
qed

lemma solo_body:
  assumes "t < length (stacks s)" "call_body c (put_stack t (Body c # fs) s) = (put_stack t (Body c # fs) s1, f)"
  shows "solo t (put_stack t (Body c # fs) s) (put_stack t (f # fs) s1)"
  using assms by (intro solo_step [OF _ solo_refl]) (simp add: step_at [OF assms(1)])

lemma solo_leave:
  assumes "t < length (stacks s)" "locks s l = RWMutex_new" "stacks s1 = stacks s" "locks s1 = locks (in_section GRead l s)"
  shows "solo t (put_stack t (Leave l a # fs) s1) (call_return t fs a (s1\<lparr>locks := locks s\<rparr>))"
proof -
  have "guard_off GRead l (put_stack t (Leave l a # fs) s1) = (put_stack t (Leave l a # fs) s1)\<lparr>locks := locks s\<rparr>"
    by (rule guard_off_section) (simp_all add: assms)
  moreover have "(put_stack t gs s1)\<lparr>locks := k\<rparr> = put_stack t gs (s1\<lparr>locks := k\<rparr>)" for gs k
    by (simp add: put_stack_def)
  ultimately show ?thesis
    using assms by (intro solo_step [OF _ solo_refl]) (simp add: step_at)
qed

lemma solo_read:
  assumes t: "t < length (stacks s)" and free: "locks s (lock_of c) = RWMutex_new"
    and body: "\<And>x. stacks x = (stacks s)[t := Body c # fs] \<Longrightarrow> mgr x = mgr s \<Longrightarrow> outside x = outside s \<Longrightarrow>
      call_body c x = (x\<lparr>mgr := m\<rparr>, Leave (lock_of c) a)"
  shows "solo t (put_stack t (Enter c # fs) s) (call_return t fs a (s\<lparr>mgr := m\<rparr>))"
proof -
  let ?x = "in_section GRead (lock_of c) s"
  have "call_body c (put_stack t (Body c # fs) ?x) = (put_stack t (Body c # fs) (?x\<lparr>mgr := m\<rparr>), Leave (lock_of c) a)"
    by (subst body) (simp_all add: put_stack_def)
  from solo_body [OF _ this] t have 1: "solo t (put_stack t (Body c # fs) ?x) (put_stack t (Leave (lock_of c) a # fs) (?x\<lparr>mgr := m\<rparr>))"
    by simp
  have 2: "solo t (put_stack t (Leave (lock_of c) a # fs) (?x\<lparr>mgr := m\<rparr>)) (call_return t fs a (?x\<lparr>mgr := m, locks := locks s\<rparr>))"
    by (rule solo_leave [OF t free]) simp_all
  have "?x\<lparr>mgr := m, locks := locks s\<rparr> = s\<lparr>mgr := m\<rparr>" by (simp add: in_section_def)
  with solo_trans [OF solo_enter [OF t free] solo_trans [OF 1 2]] show ?thesis by simp
qed

subsection \<open>The listeners\<close>

lemma find_append: "find P (xs @ ys) = (case find P xs of None \<Rightarrow> find P ys | Some x \<Rightarrow> Some x)"
  by (induction xs) auto

lemma next_listener_after:
  assumes "sorted_wrt (<) (map fst (pre @ post))"
  shows "next_listener (if pre = [] then None else Some (fst (last pre))) (pre @ post) = (if post = [] then None else Some (hd post))"
proof (cases "pre = []")
  case True
  then show ?thesis by (cases post) (simp_all add: next_listener_def)
next
  case False
  let ?k = "fst (last pre)"
  have "\<forall>i \<in> set pre. \<not> ?k < fst i"
    using assms False
    by (induction pre rule: rev_induct) (auto simp: sorted_wrt_append)
  then have "find (\<lambda>i. ?k < fst i) pre = None" unfolding find_None_iff by blast
  moreover have "\<forall>i \<in> set post. ?k < fst i" using assms False by (auto simp: sorted_wrt_append)
  ultimately show ?thesis
    using False by (cases post) (simp_all add: next_listener_def find_append)
qed

lemma solo_notify:
  assumes t: "t < length (stacks s)" and cbs: "ca_cbs (arg_at p s) = pre @ post"
    and sorted: "sorted_wrt (<) (map fst (pre @ post))"
    and run: "run_listeners post (ca_val (arg_at p s)) val (outside s) = (w, ok)"
  shows "solo t (put_stack t (Notify p val (if pre = [] then None else Some (fst (last pre))) # fs) s)
    (put_stack t ((if ok then LeaveBlock p val else Leave (Some p) Thrown) # fs) (s\<lparr>outside := w\<rparr>))"
  using assms
proof (induction post arbitrary: pre s)
  case Nil
  have "next_listener (if pre = [] then None else Some (fst (last pre))) pre = None"
    using next_listener_after [of pre "[]"] Nil.prems(3) by simp
  with Nil show ?case by (intro solo_step [OF _ solo_refl]) (auto simp: step_at)
next
  case (Cons i post)
  let ?k = "if pre = [] then None else Some (fst (last pre))"
  let ?old = "ca_val (arg_at p s)"
  have nl: "next_listener ?k (pre @ i # post) = Some i" using next_listener_after [OF Cons.prems(3)] by simp
  have here: "\<not> (?k \<noteq> None \<and> the ?k \<notin> fst ` set (ca_cbs (arg_at p s)))" using Cons.prems(2) by auto
  obtain w1 ok1 where i: "snd i ?old val (outside s) = (w1, ok1)" by fastforce
  have step: "config_thread_step t (put_stack t (Notify p val ?k # fs) s) =
      Some (Inr (put_stack t ((if ok1 then Notify p val (Some (fst i)) else Leave (Some p) Thrown) # fs) (s\<lparr>outside := w1\<rparr>)))"
    unfolding step_at [OF Cons.prems(1)] using here Cons.prems(2) nl i
    by (simp add: put_stack_def del: not_None_eq)
  show ?case
  proof (cases ok1)
    case False
    with Cons.prems(4) i have "w = w1" "\<not> ok" by simp_all
    with step False show ?thesis by (intro solo_step [OF step]) (simp add: solo_refl)
  next
    case True
    with Cons.prems(4) i have run: "run_listeners post ?old val w1 = (w, ok)" by simp
    have "solo t (put_stack t (Notify p val (if pre @ [i] = [] then None else Some (fst (last (pre @ [i])))) # fs) (s\<lparr>outside := w1\<rparr>))
        (put_stack t ((if ok then LeaveBlock p val else Leave (Some p) Thrown) # fs) (s\<lparr>outside := w1, outside := w\<rparr>))"
      by (rule Cons.IH) (use Cons.prems run in simp_all)
    with True show ?thesis by (intro solo_step [OF step]) simp
  qed
qed

lemma solo_notify_all:
  assumes "t < length (stacks s)" "keys_sorted (arg_at p s)"
    and "run_listeners (ca_cbs (arg_at p s)) (ca_val (arg_at p s)) val (outside s) = (w, ok)"
  shows "solo t (put_stack t (Notify p val None # fs) s)
    (put_stack t ((if ok then LeaveBlock p val else Leave (Some p) Thrown) # fs) (s\<lparr>outside := w\<rparr>))"
  using solo_notify [of t s p "[]" "ca_cbs (arg_at p s)" val w ok fs] assms by (simp add: keys_sorted_def)

subsection \<open>Setting a value\<close>

text \<open>Up to the write guard: the listeners have been called, the lock is as before.\<close>

lemma solo_first_half:
  assumes t: "t < length (stacks s)" and free: "locks s (Some p) = RWMutex_new" and k: "keys_sorted (arg_at p s)"
    and ne: "ca_val (arg_at p s) \<noteq> val"
    and run: "run_listeners (ca_cbs (arg_at p s)) (ca_val (arg_at p s)) val (outside s) = (w, ok)"
  shows "solo t (put_stack t (Enter (SetValue p val) # fs) s)
    (if ok then put_stack t (WantWrite p val # fs) (s\<lparr>outside := w\<rparr>) else call_return t fs Thrown (s\<lparr>outside := w\<rparr>))"
proof -
  let ?x = "in_section GRead (Some p) s"
  let ?c = "SetValue p val"
  have 1: "solo t (put_stack t (Enter ?c # fs) s) (put_stack t (Body ?c # fs) ?x)"
    using solo_enter [OF t, of ?c fs] free by simp
  have 2: "solo t (put_stack t (Body ?c # fs) ?x) (put_stack t (Notify p val None # fs) ?x)"
    by (rule solo_body) (use t ne in simp_all)
  have 3: "solo t (put_stack t (Notify p val None # fs) ?x)
      (put_stack t ((if ok then LeaveBlock p val else Leave (Some p) Thrown) # fs) (?x\<lparr>outside := w\<rparr>))"
    by (rule solo_notify_all) (use t k run in simp_all)
  have restored: "(?x\<lparr>outside := w\<rparr>)\<lparr>locks := locks s\<rparr> = s\<lparr>outside := w\<rparr>" by (simp add: in_section_def)
  note upto = solo_trans [OF 1 solo_trans [OF 2 3]]
  show ?thesis
  proof (cases ok)
    case True
    have "guard_off GRead (Some p) (put_stack t (LeaveBlock p val # fs) (?x\<lparr>outside := w\<rparr>)) =
        (put_stack t (LeaveBlock p val # fs) (?x\<lparr>outside := w\<rparr>))\<lparr>locks := locks s\<rparr>"
      by (rule guard_off_section [OF free]) simp_all
    then have "config_thread_step t (put_stack t (LeaveBlock p val # fs) (?x\<lparr>outside := w\<rparr>)) =
        Some (Inr (put_stack t (WantWrite p val # fs) ((?x\<lparr>outside := w\<rparr>)\<lparr>locks := locks s\<rparr>)))"
      using t by (simp add: step_at) (simp add: put_stack_def)
    from solo_step [OF this [unfolded restored] solo_refl]
    have "solo t (put_stack t (LeaveBlock p val # fs) (?x\<lparr>outside := w\<rparr>)) (put_stack t (WantWrite p val # fs) (s\<lparr>outside := w\<rparr>))" .
    with upto True show ?thesis by (auto intro: solo_trans)
  next
    case False
    have "solo t (put_stack t (Leave (Some p) Thrown # fs) (?x\<lparr>outside := w\<rparr>)) (call_return t fs Thrown ((?x\<lparr>outside := w\<rparr>)\<lparr>locks := locks s\<rparr>))"
      by (rule solo_leave [OF t free]) simp_all
    from solo_trans [OF _ this [unfolded restored]] upto False show ?thesis by simp
  qed
qed

lemma solo_second_half:
  assumes t: "t < length (stacks s)" and free: "locks s (Some p) = RWMutex_new"
  shows "solo t (put_stack t (WantWrite p val # fs) s)
    (call_return t fs Returned (put_arg p ((arg_at p s)\<lparr>ca_val := val\<rparr>) s))"
proof -
  let ?x = "in_section GWrite (Some p) s"
  let ?y = "put_arg p ((arg_at p s)\<lparr>ca_val := val\<rparr>) ?x"
  have "guard_on GWrite (Some p) (put_stack t (WantWrite p val # fs) s) = Some (in_section GWrite (Some p) (put_stack t (WantWrite p val # fs) s))"
    by (rule guard_free) (simp_all add: free)
  then have 1: "config_thread_step t (put_stack t (WantWrite p val # fs) s) = Some (Inr (put_stack t (WriteVal p val # fs) ?x))"
    using t by (simp add: step_at) (simp add: in_section_def put_stack_def)
  have 2: "config_thread_step t (put_stack t (WriteVal p val # fs) ?x) = Some (Inr (put_stack t (LeaveWrite p # fs) ?y))"
    using t by (simp add: step_at)
  have "guard_off GWrite (Some p) (put_stack t (LeaveWrite p # fs) ?y) = (put_stack t (LeaveWrite p # fs) ?y)\<lparr>locks := locks s\<rparr>"
    by (rule guard_off_section [OF free]) simp_all
  then have 3: "config_thread_step t (put_stack t (LeaveWrite p # fs) ?y) = Some (Inr (call_return t fs Returned (?y\<lparr>locks := locks s\<rparr>)))"
    using t by (simp add: step_at) (simp add: call_return_def put_stack_def)
  have "?y\<lparr>locks := locks s\<rparr> = put_arg p ((arg_at p s)\<lparr>ca_val := val\<rparr>) s" by (simp add: in_section_def put_arg_def)
  with solo_step [OF 1 solo_step [OF 2 solo_step [OF 3 solo_refl]]] show ?thesis by simp
qed

subsection \<open>A call that no other overlaps\<close>

text \<open>What the one-step definitions make of a call.\<close>

definition put_arg_m :: "nat \<Rightarrow> ('t, 'v, 'w) config_arg \<Rightarrow> ('t, 'v, 'w) config_mgr \<Rightarrow> ('t, 'v, 'w) config_mgr" where
  "put_arg_m p a m = m\<lparr>args := (args m)[p := a]\<rparr>"

fun call_effect ::
    "('t, 'v, 'w) config_call \<Rightarrow> ('t, 'v, 'w) config_mgr \<Rightarrow> 'w \<Rightarrow> ('t, 'v, 'w) config_mgr \<times> 'w \<times> 'v answer" where
  "call_effect (LookUp ty name v d) m w =
     (case lookUp ty name v d m of Inl e \<Rightarrow> (m, w, Thrown) | Inr (p, m1) \<Rightarrow> (m1, w, Pointer p))"
| "call_effect (LookUpOnly ty name) m w = (m, w, Pointer (lookUp_only ty name m))"
| "call_effect (SetValue p val) m w =
     (case setValue val (args m ! p) w of (a, w1, ok) \<Rightarrow> (put_arg_m p a m, w1, if ok then Returned else Thrown))"
| "call_effect (GetValue p) m w = (m, w, Value (getValue (args m ! p)))"
| "call_effect (AddListener p cb) m w =
     (case addListener cb (args m ! p) (funcId m) of (k, a, ids) \<Rightarrow> (put_arg_m p a (m\<lparr>funcId := ids\<rparr>), w, Key k))"
| "call_effect (DelListener p k) m w = (put_arg_m p (delListener k (args m ! p)) m, w, Returned)"
| "call_effect (ClearListener p) m w = (put_arg_m p (clearListener (args m ! p)) m, w, Returned)"

lemma lookUp_solo:
  assumes t: "t < length (stacks s)" and free: "locks s None = RWMutex_new"
    and new: "valid_name name" "data (mgr s) name = None"
  shows "solo t (put_stack t (Enter (LookUp ty name v d) # fs) s)
    (call_return t fs (Pointer (Some (length (args (mgr s)))))
      (s\<lparr>mgr := (mgr s)\<lparr>data := (data (mgr s))(name \<mapsto> length (args (mgr s))),
         args := args (mgr s) @ [ConfigArg_new ty name v d]\<rparr>\<rparr>))"
proof -
  let ?c = "LookUp ty name v d"
  let ?x = "in_section GRead None s"
  let ?m = "(mgr s)\<lparr>data := (data (mgr s))(name \<mapsto> length (args (mgr s))), args := args (mgr s) @ [ConfigArg_new ty name v d]\<rparr>"
  let ?l = "Leave None (Pointer (Some (length (args (mgr s)))))"
  have 1: "solo t (put_stack t (Enter ?c # fs) s) (put_stack t (Body ?c # fs) ?x)"
    using solo_enter [OF t, of ?c fs] free by simp
  have 2: "solo t (put_stack t (Body ?c # fs) ?x) (put_stack t (Store ty name v d # fs) ?x)"
    by (rule solo_body) (use t new in simp_all)
  have 3: "config_thread_step t (put_stack t (Store ty name v d # fs) ?x) = Some (Inr (put_stack t (?l # fs) (?x\<lparr>mgr := ?m\<rparr>)))"
    using t by (simp add: step_at lookUp_store_def Let_def) (simp add: put_stack_def)
  have 4: "solo t (put_stack t (?l # fs) (?x\<lparr>mgr := ?m\<rparr>)) (call_return t fs (Pointer (Some (length (args (mgr s))))) ((?x\<lparr>mgr := ?m\<rparr>)\<lparr>locks := locks s\<rparr>))"
    by (rule solo_leave [OF t free]) simp_all
  have restored: "(?x\<lparr>mgr := ?m\<rparr>)\<lparr>locks := locks s\<rparr> = s\<lparr>mgr := ?m\<rparr>" by (simp add: in_section_def)
  from solo_trans [OF 1 solo_trans [OF 2 solo_step [OF 3 4]]] show ?thesis unfolding restored .
qed

text \<open>
  C9. A call into the configuration by a thread while no other thread is inside the lock it takes
  returns, and the configuration, the world and the answer are those of the one-step definition of
  the operation; the lock is free again.
\<close>

theorem config_call_atomic:
  assumes t: "t < length (stacks s)" and free: "locks s (lock_of c) = RWMutex_new"
    and k: "\<forall>p < length (args (mgr s)). keys_sorted (arg_at p s)" and ok: "call_ok c s"
    and eff: "call_effect c (mgr s) (outside s) = (m, w, a)"
  shows "solo t (put_stack t (Enter c # fs) s) (call_return t fs a (s\<lparr>mgr := m, outside := w\<rparr>))"
proof -
  have read: ?thesis if "w = outside s" "\<And>x. stacks x = (stacks s)[t := Body c # fs] \<Longrightarrow> mgr x = mgr s \<Longrightarrow>
      outside x = outside s \<Longrightarrow> call_body c x = (x\<lparr>mgr := m\<rparr>, Leave (lock_of c) a)"
    using solo_read [OF t free that(2)] that(1) by simp
  show ?thesis
  proof (cases c)
    case (LookUp ty name v d)
    show ?thesis
    proof (cases "valid_name name \<and> data (mgr s) name = None")
      case True
      from eff LookUp True have e: "a = Pointer (Some (length (args (mgr s))))" "w = outside s"
        "m = (mgr s)\<lparr>data := (data (mgr s))(name \<mapsto> length (args (mgr s))), args := args (mgr s) @ [ConfigArg_new ty name v d]\<rparr>"
        by (simp_all add: lookUp_def)
      from lookUp_solo [OF t _ conjunct1 [OF True] conjunct2 [OF True], of ty v d fs] free LookUp show ?thesis
        unfolding e by simp
    next
      case False
      with eff LookUp show ?thesis by (intro read) (auto simp: lookUp_def split: if_splits option.splits)
    qed
  next
    case (SetValue p val)
    then have p: "p < length (args (mgr s))" and free': "locks s (Some p) = RWMutex_new"
      using ok free by (simp_all add: call_ok_def)
    show ?thesis
    proof (cases "ca_val (arg_at p s) = val")
      case True
      with eff SetValue show ?thesis by (intro read) (auto simp: setValue_def put_arg_m_def)
    next
      case False
      obtain w' ok' where run: "run_listeners (ca_cbs (arg_at p s)) (ca_val (arg_at p s)) val (outside s) = (w', ok')" by fastforce
      note h1 = solo_first_half [OF t free' _ False run, of fs]
      from eff False run SetValue have e: "w = w'" "a = (if ok' then Returned else Thrown)"
        "m = put_arg_m p (if ok' then (arg_at p s)\<lparr>ca_val := val\<rparr> else arg_at p s) (mgr s)"
        by (auto simp: setValue_def split: if_splits)
      have h2: "solo t (put_stack t (WantWrite p val # fs) (s\<lparr>outside := w'\<rparr>))
          (call_return t fs Returned (put_arg p ((arg_at p s)\<lparr>ca_val := val\<rparr>) (s\<lparr>outside := w'\<rparr>)))"
        using solo_second_half [where s = "s\<lparr>outside := w'\<rparr>" and t = t and p = p and fs = fs and val = val] t free' by simp
      from k p have "keys_sorted (arg_at p s)" by blast
      note h1 = h1 [OF this]
      show ?thesis
      proof (cases ok')
        case True
        then have "put_arg p ((arg_at p s)\<lparr>ca_val := val\<rparr>) (s\<lparr>outside := w'\<rparr>) = s\<lparr>mgr := m, outside := w\<rparr>"
          by (simp add: e put_arg_def put_arg_m_def)
        with solo_trans [OF _ h2] h1 True show ?thesis by (simp add: SetValue e(2))
      next
        case False
        then have "s\<lparr>outside := w'\<rparr> = s\<lparr>mgr := m, outside := w\<rparr>" by (simp add: e put_arg_m_def)
        with h1 False show ?thesis by (simp add: SetValue e(2))
      qed
    qed
  qed (use eff in \<open>intro read; auto simp: put_arg_def put_arg_m_def split: prod.splits\<close>)+
qed

theorem config_call_atomic_witness:
  "\<exists>s. solo 0 (put_stack 0 [Enter (SetValue 0 7)] demo_config) s \<and> stacks s = [[], []] \<and>
     answers s = [[Returned], []] \<and> outside s = [(1, 7)] \<and> ca_val (arg_at 0 s) = 7"
proof -
  have "solo 0 (put_stack 0 [Enter (SetValue 0 7)] demo_config)
      (call_return 0 [] Returned (demo_config\<lparr>mgr := put_arg_m 0 ((arg_at 0 demo_config)\<lparr>ca_val := 7\<rparr>) (mgr demo_config),
         outside := [(1, 7)]\<rparr>))"
    by (rule config_call_atomic) (simp_all add: config_eval keys_sorted_def setValue_def)
  then show ?thesis
    by (intro exI conjI) (assumption, simp_all add: config_eval put_arg_m_def numeral_2_eq_2)
qed

subsection \<open>Two calls that overlap\<close>

lemma frame_step_answers:
  assumes "frame_step t f fs s = Some (Inr s')"
  shows "length (answers s') = length (answers s)"
proof (cases f)
  case (Body c)
  obtain s1 g where b: "call_body c s = (s1, g)" by fastforce
  with assms Body have "s' = put_stack t (g # fs) s1" by simp
  with call_body_stacks [OF b] show ?thesis by simp
next
  case (Notify p val k)
  with assms show ?thesis by (auto split: if_splits option.splits prod.splits)
qed (use assms in \<open>auto simp: call_return_def guard_off_def lookUp_store_def Let_def dest!: guard_on_SomeD\<close>)

lemma config_reach_answers: "config_reach s0 s \<Longrightarrow> length (answers s) = length (answers s0)"
proof (induction rule: config_reach.induct)
  case (cr_step s s')
  from cr_step.hyps(2) have "length (answers s') = length (answers s)"
    by cases (auto dest!: config_thread_stepD frame_step_answers)
  with cr_step show ?case by simp
qed simp

lemma call_step:
  "t < length (stacks s) \<Longrightarrow> stacks s ! t = [] \<Longrightarrow> call_ok c s \<Longrightarrow> solo t (put_stack t [Enter c] s) s' \<Longrightarrow> config_reach s s'"
  by (rule config_reach_trans [OF solo_reach cr_step [OF cr_refl cs_call]]) simp_all

lemma lookUp_until_store:
  assumes t: "t < length (stacks s)" "stacks s ! t = []" and unwritten: "\<not> rw_writer (locks s None)"
    and new: "valid_name name" "data (mgr s) name = None"
  shows "\<exists>s'. config_reach s s' \<and> mgr s' = mgr s \<and> stacks s' = (stacks s)[t := [Store ty name v d]] \<and> answers s' = answers s"
proof -
  let ?c = "LookUp ty name v d"
  let ?x = "s\<lparr>locks := (locks s)(None := (locks s None)\<lparr>rw_readers := rw_readers (locks s None) + 1\<rparr>)\<rparr>"
  have 1: "config_thread_step t (put_stack t [Enter ?c] s) = Some (Inr (put_stack t [Body ?c] ?x))"
    using t unwritten by (simp add: step_at guard_on_def RWMutex_ops_def ScopedRdLock_new_def RWMutex_rdlock_def) (simp add: put_stack_def)
  have 2: "config_thread_step t (put_stack t [Body ?c] ?x) = Some (Inr (put_stack t [Store ty name v d] ?x))"
    using t new by (simp add: step_at)
  have "config_reach s (put_stack t [Store ty name v d] ?x)"
    by (rule call_step [OF t _ solo_step [OF 1 solo_step [OF 2 solo_refl]]]) (simp add: call_ok_def)
  then show ?thesis by (intro exI conjI) (assumption, simp_all add: put_stack_def)
qed

lemma lookUp_from_store:
  assumes t: "t < length (stacks s)" "stacks s ! t = [Store ty name v d]"
  shows "\<exists>s'. config_reach s s' \<and> stacks s' = (stacks s)[t := []] \<and>
    mgr s' = (mgr s)\<lparr>data := (data (mgr s))(name \<mapsto> length (args (mgr s))), args := args (mgr s) @ [ConfigArg_new ty name v d]\<rparr> \<and>
    answers s' = (answers s)[t := answers s ! t @ [Pointer (Some (length (args (mgr s))))]]"
proof -
  let ?m = "(mgr s)\<lparr>data := (data (mgr s))(name \<mapsto> length (args (mgr s))), args := args (mgr s) @ [ConfigArg_new ty name v d]\<rparr>"
  let ?a = "Pointer (Some (length (args (mgr s))))"
  have 1: "config_thread_step t s = Some (Inr (put_stack t [Leave None ?a] (s\<lparr>mgr := ?m\<rparr>)))"
    using t by (simp add: config_thread_step_def lookUp_store_def Let_def)
  have 2: "config_thread_step t (put_stack t [Leave None ?a] (s\<lparr>mgr := ?m\<rparr>)) =
      Some (Inr (call_return t [] ?a (guard_off GRead None (put_stack t [Leave None ?a] (s\<lparr>mgr := ?m\<rparr>)))))"
    using t by (simp add: step_at)
  from solo_reach [OF solo_step [OF 1 solo_step [OF 2 solo_refl]] t(1)] show ?thesis
    by (intro exI conjI) (assumption, simp_all add: call_return_def put_stack_def guard_off_def)
qed

lemma load_node_shape:
  "load_node Y F i (m, w) = (m1, w1) \<Longrightarrow> m1 = m \<or>
    (\<exists>q a. data m (map tolower (fst i)) = Some q \<and> m1 = m\<lparr>args := (args m)[q := a]\<rparr>)"
  by (simp add: load_node_def lookUpBase_def split: if_splits option.splits prod.splits) blast+

lemma load_orphan:
  assumes "\<forall>x. data m x \<noteq> Some p"
  shows "args (fst (loadFromYaml Y F root m w)) ! p = args m ! p"
proof -
  have "data (fst (fold (load_node Y F) is (m, w))) = data m \<and> args (fst (fold (load_node Y F) is (m, w))) ! p = args m ! p"
    for "is" using assms
  proof (induction "is" arbitrary: m w)
    case (Cons i "is")
    obtain m1 w1 where l: "load_node Y F i (m, w) = (m1, w1)" by fastforce
    from load_node_shape [OF l] consider "m1 = m" | q a where "data m (map tolower (fst i)) = Some q" "m1 = m\<lparr>args := (args m)[q := a]\<rparr>"
      by blast
    then have "data m1 = data m \<and> args m1 ! p = args m ! p"
    proof cases
      case (2 q a)
      with Cons.prems have "q \<noteq> p" by blast
      with 2 show ?thesis by simp
    qed simp
    with Cons.IH [of m1 w1] Cons.prems l show ?case by simp
  qed simp
  then show ?thesis unfolding loadFromYaml_def by blast
qed

text \<open>
  C29. Two threads that look up the same new name at the same time, under the read lock \<open>lookUp\<close> takes,
  can both make an argument for it: both get a pointer, but not the same one. The manager keeps the
  second; what a document says of the name never reaches the first.
\<close>

theorem lookUp_overlap:
  assumes run: "config_reach (config_start n m w) s" and t: "t < n" "stacks s ! t = []"
    and u: "u < n" "stacks s ! u = []" "t \<noteq> u"
    and new: "valid_name name" "data (mgr s) name = None" and ok: "mgr_ok (mgr s)"
  shows "\<exists>s' p q. config_reach s s' \<and> stacks s' = stacks s \<and> p \<noteq> q \<and> data (mgr s') name = Some q \<and>
    answers s' ! t = answers s ! t @ [Pointer (Some p)] \<and> answers s' ! u = answers s ! u @ [Pointer (Some q)] \<and>
    (\<forall>Y F root w. args (fst (loadFromYaml Y F root (mgr s') w)) ! p = args (mgr s') ! p)"
proof -
  have inv: "config_inv s" and len: "length (stacks s) = n" "length (answers s) = n"
    using config_reach_inv [OF run config_inv_start] config_reach_answers [OF run] by (simp_all add: config_start_def)
  let ?k = "length (args (mgr s))"
  from lookUp_until_store [OF _ t(2) manager_unwritten [OF inv] new, of ty v d] t(1) len obtain s1 where
    s1: "config_reach s s1" "mgr s1 = mgr s" "stacks s1 = (stacks s)[t := [Store ty name v d]]" "answers s1 = answers s" by auto
  have inv1: "config_inv s1" using config_reach_inv [OF s1(1) inv] by simp
  from lookUp_until_store [of u s1 name ty v d] manager_unwritten [OF inv1] new u len s1(2-4) obtain s2 where
    s2: "config_reach s1 s2" "mgr s2 = mgr s" "stacks s2 = (stacks s1)[u := [Store ty name v d]]" "answers s2 = answers s"
    by auto
  from lookUp_from_store [of t s2 ty name v d] t u len s1(3) s2(2-4) obtain s3 where
    s3: "config_reach s2 s3" "stacks s3 = (stacks s2)[t := []]"
      "mgr s3 = (mgr s)\<lparr>data := (data (mgr s))(name \<mapsto> ?k), args := args (mgr s) @ [ConfigArg_new ty name v d]\<rparr>"
      "answers s3 = (answers s)[t := answers s ! t @ [Pointer (Some ?k)]]" by auto
  from lookUp_from_store [of u s3 ty name v d] t u len s1(3) s2(3) s3(2-4) obtain s4 where
    s4: "config_reach s3 s4" "stacks s4 = (stacks s3)[u := []]" "data (mgr s4) = (data (mgr s))(name \<mapsto> ?k + 1)"
      "answers s4 = (answers s3)[u := answers s ! u @ [Pointer (Some (?k + 1))]]" by auto
  have "config_reach s s4"
    using s1(1) s2(1) s3(1) s4(1) by (blast intro: config_reach_trans)
  moreover have "stacks s4 = stacks s"
    using t u by (simp add: s4(2) s3(2) s2(3) s1(3) list_update_swap [of t u]) (metis list_update_id)
  moreover have "\<forall>x. data (mgr s4) x \<noteq> Some ?k"
    using ok by (auto simp: s4(3) mgr_ok_def)
  ultimately show ?thesis
    using t u len s3(4) s4(3,4) load_orphan [of "mgr s4" ?k]
    by (intro exI [of _ s4] exI [of _ ?k] exI [of _ "?k + 1"]) simp
qed

theorem lookUp_overlap_witness:
  "\<exists>s p q. config_reach demo_config s \<and> answers s = [[Pointer (Some p)], [Pointer (Some q)]] \<and>
     p \<noteq> q \<and> data (mgr s) ''x'' = Some q"
proof -
  obtain m where start: "config_reach (config_start 2 m []) demo_config"
    by (rule that, subst demo_config_def, rule cr_refl)
  have "\<exists>s' p q. config_reach demo_config s' \<and> stacks s' = stacks demo_config \<and> p \<noteq> q \<and> data (mgr s') ''x'' = Some q \<and>
      answers s' ! 0 = answers demo_config ! 0 @ [Pointer (Some p)] \<and>
      answers s' ! 1 = answers demo_config ! 1 @ [Pointer (Some q)] \<and>
      (\<forall>Y F root w. args (fst (loadFromYaml Y F root (mgr s') w)) ! p = args (mgr s') ! p)"
    by (rule lookUp_overlap [OF start])
      (simp_all add: config_eval mgr_ok_def valid_name_def tolower_def)
  then obtain s p q where s: "config_reach demo_config s" "p \<noteq> q" "data (mgr s) ''x'' = Some q"
      "answers s ! 0 = [Pointer (Some p)]" "answers s ! 1 = [Pointer (Some q)]"
    by (auto simp: demo_config_def config_start_def)
  have "length (answers s) = 2" using config_reach_answers [OF s(1)] by (simp add: demo_config_def config_start_def)
  with s(4,5) have "answers s = [[Pointer (Some p)], [Pointer (Some q)]]"
    by (auto simp: numeral_2_eq_2 length_Suc_conv)
  with s show ?thesis by blast
qed

text \<open>
  C28. Two calls of \<open>setValue\<close> that overlap between the inner block and the write guard: both call the
  listeners with the old value, and the one that announced its value first can store it last. Then
  the last change the listeners were told of is to a value the argument does not have.
\<close>

theorem setValue_overlap:
  assumes run: "config_reach (config_start n m w) s" and t: "t < n" "stacks s ! t = []"
    and u: "u < n" "stacks s ! u = []" "t \<noteq> u"
    and p: "p < length (args (mgr s))" and free: "locks s (Some p) = RWMutex_new"
    and arg: "arg_at p s = x" "keys_sorted x" "calm x" and new: "a \<noteq> ca_val x" "b \<noteq> ca_val x"
  shows "\<exists>s'. config_reach s s' \<and> stacks s' = stacks s \<and> ca_val (arg_at p s') = a \<and>
    outside s' = fst (run_listeners (ca_cbs x) (ca_val x) b (fst (run_listeners (ca_cbs x) (ca_val x) a (outside s)))) \<and>
    answers s' ! t = answers s ! t @ [Returned] \<and> answers s' ! u = answers s ! u @ [Returned]"
proof -
  have inv: "config_inv s" and len: "length (stacks s) = n" "length (answers s) = n"
    using config_reach_inv [OF run config_inv_start] config_reach_answers [OF run] by (simp_all add: config_start_def)
  obtain w1 w2 where w1: "run_listeners (ca_cbs x) (ca_val x) a (outside s) = (w1, True)"
    and w2: "run_listeners (ca_cbs x) (ca_val x) b w1 = (w2, True)"
    using run_listeners_calm [of "ca_cbs x" "ca_val x" a "outside s"] arg(3)
      run_listeners_calm [of "ca_cbs x" "ca_val x" b "fst (run_listeners (ca_cbs x) (ca_val x) a (outside s))"]
    unfolding calm_def by (metis prod.collapse)
  let ?s1 = "put_stack t [WantWrite p a] (s\<lparr>outside := w1\<rparr>)"
  let ?s2 = "put_stack u [WantWrite p b] (?s1\<lparr>outside := w2\<rparr>)"
  have 1: "config_reach s ?s1"
  proof (rule call_step)
    show "solo t (put_stack t [Enter (SetValue p a)] s) ?s1"
      using solo_first_half [OF _ free, of t a w1 True "[]"] t len arg new w1 by simp
  qed (use t p len in \<open>simp_all add: call_ok_def\<close>)
  have 2: "config_reach ?s1 ?s2"
  proof (rule call_step)
    show "solo u (put_stack u [Enter (SetValue p b)] ?s1) ?s2"
      using solo_first_half [of u ?s1 p b w2 True "[]"] u len arg new w2 free by simp
  qed (use u p len in \<open>simp_all add: call_ok_def put_stack_def\<close>)
  let ?s3 = "call_return u [] Returned (put_arg p (x\<lparr>ca_val := b\<rparr>) (?s1\<lparr>outside := w2\<rparr>))"
  have "solo u ?s2 ?s3"
    using solo_second_half [of u "?s1\<lparr>outside := w2\<rparr>" p b "[]"] u len free arg(1) by simp
  from solo_reach [OF this] u(1) len have 3: "config_reach ?s2 ?s3" by simp
  have s3: "stacks ?s3 ! t = [WantWrite p a]" "t < length (stacks ?s3)" "arg_at p ?s3 = x\<lparr>ca_val := b\<rparr>"
    using t u p len by (simp_all add: call_return_def put_stack_def put_arg_def)
  let ?s4 = "call_return t [] Returned (put_arg p ((arg_at p ?s3)\<lparr>ca_val := a\<rparr>) ?s3)"
  have "put_stack t [WantWrite p a] ?s3 = ?s3"
    using s3(1,2) by (metis put_stack_idem)
  then have "solo t ?s3 ?s4"
    using solo_second_half [of t ?s3 p a "[]"] s3 free by (simp add: call_return_def)
  from solo_reach [OF this s3(2)] have 4: "config_reach ?s3 ?s4" .
  have "config_reach s ?s4" by (rule config_reach_trans [OF 4 config_reach_trans [OF 3 config_reach_trans [OF 2 1]]])
  moreover have "stacks ?s4 = stacks s"
    using t u by (simp add: call_return_def put_stack_def list_update_swap [of t u]) (metis list_update_id)
  moreover have "ca_val (arg_at p ?s4) = a" "outside ?s4 = w2"
    using p by (simp_all add: call_return_def put_stack_def put_arg_def)
  moreover have "answers ?s4 ! t = answers s ! t @ [Returned]" "answers ?s4 ! u = answers s ! u @ [Returned]"
    using t u len by (simp_all add: call_return_def)
  ultimately show ?thesis using w1 w2 by (intro exI [of _ ?s4]) simp
qed

theorem setValue_overlap_witness:
  "\<exists>s. config_reach demo_config s \<and> ca_val (arg_at 0 s) = 7 \<and> outside s = [(1, 7), (1, 8)] \<and>
     answers s ! 0 = [Returned] \<and> answers s ! 1 = [Returned]"
proof -
  let ?x = "arg_at 0 demo_config"
  obtain m where start: "config_reach (config_start 2 m []) demo_config"
    by (rule that, subst demo_config_def, rule cr_refl)
  have "\<exists>s'. config_reach demo_config s' \<and> stacks s' = stacks demo_config \<and> ca_val (arg_at 0 s') = 7 \<and>
      outside s' = fst (run_listeners (ca_cbs ?x) (ca_val ?x) 8 (fst (run_listeners (ca_cbs ?x) (ca_val ?x) 7 (outside demo_config)))) \<and>
      answers s' ! 0 = answers demo_config ! 0 @ [Returned] \<and> answers s' ! 1 = answers demo_config ! 1 @ [Returned]"
    by (rule setValue_overlap [OF start])
      (simp_all add: config_eval keys_sorted_def calm_def)
  then show ?thesis by (simp add: config_eval) blast
qed

end
