(* ===== verification/LogFormatters.thy ===== *)
theory LogFormatters
  imports Schedulers "HOL-Library.Char_ord"
begin

section \<open>Log levels, events and formatters (source/log.hpp, source/log.cpp)\<close>

text \<open>
  \<open>LogLevel\<close>, \<open>LogEvent\<close>, the subclasses of \<open>LogFormatter::FormatItem\<close> and the parser
  \<open>LogFormatter::init\<close>, with its indices into the pattern as in the code. \<open>localtime_r\<close> and
  \<open>strftime\<close> depend on the machine's time zone: together they are a parameter, from a format and a
  time to the text. Characters are ASCII and \<open>isalpha\<close> is that of the C locale.
\<close>

subsection \<open>Levels\<close>

datatype Level = UNKNOWN | DEBUG | INFO | WARN | ERROR | FATAL

fun level_number :: "Level \<Rightarrow> nat" where
  "level_number UNKNOWN = 0"
| "level_number DEBUG = 1"
| "level_number INFO = 2"
| "level_number WARN = 3"
| "level_number ERROR = 4"
| "level_number FATAL = 5"

instantiation Level :: linorder
begin

definition less_eq_Level :: "Level \<Rightarrow> Level \<Rightarrow> bool" where
  "a \<le> b \<longleftrightarrow> level_number a \<le> level_number b"

definition less_Level :: "Level \<Rightarrow> Level \<Rightarrow> bool" where
  "a < b \<longleftrightarrow> level_number a < level_number b"

instance
proof
  fix a b c :: Level
  show "(a < b) = (a \<le> b \<and> \<not> b \<le> a)" by (auto simp: less_eq_Level_def less_Level_def)
  show "a \<le> a" by (simp add: less_eq_Level_def)
  show "a \<le> b \<Longrightarrow> b \<le> c \<Longrightarrow> a \<le> c" by (simp add: less_eq_Level_def)
  show "a \<le> b \<Longrightarrow> b \<le> a \<Longrightarrow> a = b" by (cases a; cases b) (simp_all add: less_eq_Level_def)
  show "a \<le> b \<or> b \<le> a" by (auto simp: less_eq_Level_def)
qed

end

fun ToString :: "Level \<Rightarrow> string" where
  "ToString DEBUG = ''DEBUG''"
| "ToString INFO = ''INFO''"
| "ToString WARN = ''WARN''"
| "ToString ERROR = ''ERROR''"
| "ToString FATAL = ''FATAL''"
| "ToString UNKNOWN = ''UNKNOWN''"

definition FromString :: "string \<Rightarrow> Level" where
  "FromString str =
     (if str = ''debug'' then DEBUG else if str = ''info'' then INFO
      else if str = ''warn'' then WARN else if str = ''error'' then ERROR
      else if str = ''fatal'' then FATAL else if str = ''DEBUG'' then DEBUG
      else if str = ''INFO'' then INFO else if str = ''WARN'' then WARN
      else if str = ''ERROR'' then ERROR else if str = ''FATAL'' then FATAL
      else UNKNOWN)"

subsection \<open>Events and items\<close>

text \<open>
  \<open>ev_logger\<close> is the name of the logger the event carries. \<open>getTime\<close> returns the low 32 bits of
  the 64-bit time.
\<close>

record log_event =
  ev_file :: string
  ev_line :: "32 word"
  ev_elapse :: "32 word"
  ev_threadId :: "32 word"
  ev_fiberId :: "32 word"
  ev_time :: "64 word"
  ev_threadName :: string
  ev_ss :: string
  ev_logger :: string
  ev_level :: Level

definition getTime :: "log_event \<Rightarrow> 32 word" where
  "getTime e = ucast (ev_time e)"

datatype format_item =
    MessageFormatItem
  | LevelFormatItem
  | ElapseFormatItem
  | NameFormatItem
  | ThreadIdFormatItem
  | FiberIdFormatItem
  | ThreadNameFormatItem
  | DateTimeFormatItem string
  | FilenameFormatItem
  | LineFormatItem
  | NewLineFormatItem
  | StringFormatItem string
  | TabFormatItem

definition show_int :: "int \<Rightarrow> string" where
  "show_int n = (if n < 0 then ''-'' @ digits (nat (- n)) else digits (nat n))"

text \<open>\<open>strftime\<close> fills a buffer of 64 characters; a longer result is the parameter's business.\<close>

fun item_format :: "(string \<Rightarrow> 32 word \<Rightarrow> string) \<Rightarrow> format_item \<Rightarrow> Level \<Rightarrow> log_event \<Rightarrow> string" where
  "item_format tm MessageFormatItem level e = ev_ss e"
| "item_format tm LevelFormatItem level e = ToString level"
| "item_format tm ElapseFormatItem level e = digits (unat (ev_elapse e))"
| "item_format tm NameFormatItem level e = ev_logger e"
| "item_format tm ThreadIdFormatItem level e = digits (unat (ev_threadId e))"
| "item_format tm FiberIdFormatItem level e = digits (unat (ev_fiberId e))"
| "item_format tm ThreadNameFormatItem level e = ev_threadName e"
| "item_format tm (DateTimeFormatItem f) level e = tm f (getTime e)"
| "item_format tm FilenameFormatItem level e = ev_file e"
| "item_format tm LineFormatItem level e = show_int (sint (ev_line e))"
| "item_format tm NewLineFormatItem level e = [CHR 0x0A]"
| "item_format tm (StringFormatItem w) level e = w"
| "item_format tm TabFormatItem level e = [CHR 0x09]"

definition make_datetime :: "string \<Rightarrow> format_item" where
  "make_datetime fmt = DateTimeFormatItem (if fmt = [] then ''%Y-%m-%d %H:%M:%S'' else fmt)"

text \<open>The table \<open>s_format_items\<close> of factories.\<close>

definition s_format_items :: "string \<rightharpoonup> (string \<Rightarrow> format_item)" where
  "s_format_items = map_of
     [(''m'', \<lambda>_. MessageFormatItem), (''p'', \<lambda>_. LevelFormatItem), (''r'', \<lambda>_. ElapseFormatItem),
      (''c'', \<lambda>_. NameFormatItem), (''t'', \<lambda>_. ThreadIdFormatItem), (''n'', \<lambda>_. NewLineFormatItem),
      (''d'', make_datetime), (''f'', \<lambda>_. FilenameFormatItem), (''l'', \<lambda>_. LineFormatItem),
      (''T'', \<lambda>_. TabFormatItem), (''F'', \<lambda>_. FiberIdFormatItem), (''N'', \<lambda>_. ThreadNameFormatItem)]"

subsection \<open>The parser\<close>

record formatter =
  m_pattern :: string
  m_items :: "format_item list"
  m_error :: bool

definition isalpha :: "char \<Rightarrow> bool" where
  "isalpha c \<longleftrightarrow> (CHR ''A'' \<le> c \<and> c \<le> CHR ''Z'') \<or> (CHR ''a'' \<le> c \<and> c \<le> CHR ''z'')"

definition substr :: "string \<Rightarrow> nat \<Rightarrow> nat \<Rightarrow> string" where
  "substr s pos n = take n (drop pos s)"

text \<open>
  The inner loop, for the \<open>%\<close> at \<open>i\<close>: the position \<open>n\<close>, \<open>fmt_status\<close> (true inside braces),
  \<open>fmt_begin\<close> and \<open>str\<close> go in; \<open>n\<close>, \<open>fmt_status\<close>, \<open>str\<close> and \<open>fmt\<close> come out.
\<close>

function (sequential) init_spec ::
    "string \<Rightarrow> nat \<Rightarrow> nat \<Rightarrow> bool \<Rightarrow> nat \<Rightarrow> string \<Rightarrow> nat \<times> bool \<times> string \<times> string" where
  "init_spec s i n fmt_status fmt_begin str =
     (if \<not> n < length s then (n, fmt_status, str, [])
      else if \<not> fmt_status \<and> \<not> isalpha (s ! n) \<and> s ! n \<noteq> CHR ''{'' \<and> s ! n \<noteq> CHR ''}''
      then (n, fmt_status, substr s (i + 1) (n - i - 1), [])
      else if \<not> fmt_status \<and> s ! n = CHR ''{''
      then init_spec s i (n + 1) True n (substr s (i + 1) (n - i - 1))
      else if fmt_status \<and> s ! n = CHR ''}''
      then (n + 1, False, str, substr s (fmt_begin + 1) (n - fmt_begin - 1))
      else init_spec s i (n + 1) fmt_status fmt_begin
             (if n + 1 = length s \<and> str = [] then drop (i + 1) s else str))"
  by pat_completeness auto
termination by (relation "measure (\<lambda>(s, i, n, _). length s - n)") auto

declare init_spec.simps [simp del]

lemma init_spec_ge: "init_spec s i n st b str = (m, st', str', fmt) \<Longrightarrow> n \<le> m"
proof (induction s i n st b str arbitrary: m rule: init_spec.induct)
  case (1 s i n fmt_status fmt_begin str)
  note init_spec.simps [of s i n fmt_status fmt_begin str, simp]
  show ?case using 1 by (auto split: if_splits)
qed

text \<open>
  The outer loop at the index \<open>i\<close> with the raw text \<open>nstr\<close> collected so far: the list \<open>vec\<close> of
  triples (text, format, whether it is a \<open>%xxx\<close>) and whether a brace was never closed.
\<close>

function (sequential) init_loop ::
    "string \<Rightarrow> nat \<Rightarrow> string \<Rightarrow> (string \<times> string \<times> bool) list \<times> bool" where
  "init_loop s i nstr =
     (if \<not> i < length s then (if nstr \<noteq> [] then [(nstr, [], False)] else [], False)
      else if s ! i \<noteq> CHR ''%'' then init_loop s (i + 1) (nstr @ [s ! i])
      else if i + 1 < length s \<and> s ! (i + 1) = CHR ''%'' then init_loop s (i + 1) (nstr @ ''%'')
      else
        case init_spec s i (i + 1) False 0 [] of
          (n, fmt_status, str, fmt) \<Rightarrow>
            if \<not> fmt_status
            then (case init_loop s n [] of (vec, err) \<Rightarrow>
                    ((if nstr \<noteq> [] then [(nstr, [], False)] else []) @ (str, fmt, True) # vec, err))
            else (case init_loop s (i + 1) nstr of (vec, _) \<Rightarrow>
                    ((''<<pattern_error>>'', fmt, False) # vec, True)))"
  by pat_completeness auto
termination
  by (relation "measure (\<lambda>(s, i, _). length s - i)") (auto dest: init_spec_ge [OF sym])

declare init_loop.simps [simp del]

text \<open>The second half of \<open>init\<close>: from triples to items.\<close>

definition make_item :: "string \<times> string \<times> bool \<Rightarrow> format_item \<times> bool" where
  "make_item x =
     (case x of (str, fmt, is_spec) \<Rightarrow>
        if \<not> is_spec then (StringFormatItem str, False)
        else (case s_format_items str of
                None \<Rightarrow> (StringFormatItem (''<<error_format %'' @ str @ ''>>''), True)
              | Some f \<Rightarrow> (f fmt, False)))"

definition LogFormatter :: "string \<Rightarrow> formatter" where
  "LogFormatter pattern =
     (case init_loop pattern 0 [] of (vec, err) \<Rightarrow>
        \<lparr>m_pattern = pattern, m_items = map (fst \<circ> make_item) vec,
         m_error = err \<or> (\<exists>x \<in> set vec. snd (make_item x))\<rparr>)"

definition LogFormatter_format ::
    "(string \<Rightarrow> 32 word \<Rightarrow> string) \<Rightarrow> formatter \<Rightarrow> Level \<Rightarrow> log_event \<Rightarrow> string" where
  "LogFormatter_format tm f level e = concat (map (\<lambda>i. item_format tm i level e) (m_items f))"

definition default_pattern :: string where
  "default_pattern = ''%d{%Y-%m-%d %H:%M:%S}%T%t%T%N%T%F%T[%p]%T[%c]%T%f:%l%T%m%n''"

end
