(* ===== verification/LogPatterns.thy ===== *)
theory LogPatterns
  imports LogFormatters
begin

section \<open>What the pattern parser computes\<close>

text \<open>
  A reference parser without indices, recursive on the text that is left, and its equivalence with
  the loops of \<open>LogFormatter::init\<close>; then the round trip: a pattern printed from a list of segments
  parses back into them.
\<close>

definition flush :: "string \<Rightarrow> (string \<times> string \<times> bool) list" where
  "flush nstr = (if nstr \<noteq> [] then [(nstr, [], False)] else [])"

text \<open>The characters that may belong to the name after a \<open>%\<close>.\<close>

definition in_name :: "char \<Rightarrow> bool" where
  "in_name c \<longleftrightarrow> isalpha c \<or> c = CHR ''}''"

function (sequential) ref_parse :: "string \<Rightarrow> string \<Rightarrow> (string \<times> string \<times> bool) list \<times> bool" where
  "ref_parse [] nstr = (flush nstr, False)"
| "ref_parse (c # cs) nstr =
     (if c \<noteq> CHR ''%'' then ref_parse cs (nstr @ [c])
      else if cs \<noteq> [] \<and> hd cs = CHR ''%'' then ref_parse cs (nstr @ ''%'')
      else
        let str = takeWhile in_name cs; rest = dropWhile in_name cs in
        if rest \<noteq> [] \<and> hd rest = CHR ''{'' then
          if CHR ''}'' \<notin> set (tl rest)
          then (case ref_parse cs nstr of (vec, _) \<Rightarrow> ((''<<pattern_error>>'', [], False) # vec, True))
          else (case ref_parse (tl (dropWhile (\<lambda>x. x \<noteq> CHR ''}'') (tl rest))) [] of (vec, err) \<Rightarrow>
                  (flush nstr @ (str, takeWhile (\<lambda>x. x \<noteq> CHR ''}'') (tl rest), True) # vec, err))
        else (case ref_parse rest [] of (vec, err) \<Rightarrow> (flush nstr @ (str, [], True) # vec, err)))"
  by pat_completeness auto
termination
proof (relation "measure (\<lambda>(cs, _). length cs)")
  fix c :: char and cs nstr str rest
  assume "rest = dropWhile in_name cs"
  then have r: "length rest \<le> length cs" by (simp add: length_dropWhile_le)
  then show "((rest, []), c # cs, nstr) \<in> measure (\<lambda>(cs, _). length cs)" by simp
  have "length (tl (dropWhile (\<lambda>x. x \<noteq> CHR ''}'') (tl rest))) \<le> length rest"
    using length_dropWhile_le [of "\<lambda>x. x \<noteq> CHR ''}''" "tl rest"] by simp
  with r show "((tl (dropWhile (\<lambda>x. x \<noteq> CHR ''}'') (tl rest)), []), c # cs, nstr)
      \<in> measure (\<lambda>(cs, _). length cs)" by simp
qed auto

declare ref_parse.simps(2) [simp del]

subsection \<open>The inner loop\<close>

lemma drop_Cons: "n < length s \<Longrightarrow> drop n s = s ! n # drop (n + 1) s"
  by (simp add: Cons_nth_drop_Suc)

lemma init_spec_open:
  "CHR ''}'' \<notin> set (drop n s) \<Longrightarrow> \<exists>m str'. init_spec s i n True b str = (m, True, str', [])"
proof (induction "length s - n" arbitrary: n str)
  case 0
  then show ?case by (simp add: init_spec.simps)
next
  case (Suc k)
  then have n: "n < length s" by simp
  note d = drop_Cons [OF n]
  from Suc.prems d have "s ! n \<noteq> CHR ''}''" "CHR ''}'' \<notin> set (drop (n + 1) s)" by auto
  then show ?case
    using Suc.hyps(1) [of "n + 1"] Suc.hyps(2) n
    by (subst init_spec.simps) auto
qed

lemma init_spec_closed:
  "CHR ''}'' \<in> set (drop n s) \<Longrightarrow>
   init_spec s i n True b str =
     (n + length (takeWhile (\<lambda>x. x \<noteq> CHR ''}'') (drop n s)) + 1, False, str,
      substr s (b + 1) (n + length (takeWhile (\<lambda>x. x \<noteq> CHR ''}'') (drop n s)) - b - 1))"
proof (induction "length s - n" arbitrary: n)
  case 0
  then show ?case by simp
next
  case (Suc k)
  then have n: "n < length s" by simp
  note d = drop_Cons [OF n]
  show ?case
  proof (cases "s ! n = CHR ''}''")
    case True
    then show ?thesis using n d by (subst init_spec.simps) simp
  next
    case False
    with Suc.prems d have m: "CHR ''}'' \<in> set (drop (n + 1) s)" by auto
    then have "n + 1 \<noteq> length s" by auto
    then have "init_spec s i n True b str = init_spec s i (n + 1) True b str"
      using n False by (subst init_spec.simps) simp
    with Suc.hyps(1) [of "n + 1"] Suc.hyps(2) m d False show ?thesis by simp
  qed
qed

text \<open>Outside braces, from the position after the \<open>%\<close> at \<open>i\<close>.\<close>

lemma init_spec_name:
  "n \<le> length s \<Longrightarrow> m = n + length (takeWhile in_name (drop n s)) \<Longrightarrow>
   init_spec s i n False b [] =
     (if m = length s then (length s, False, (if n = length s then [] else drop (i + 1) s), [])
      else if s ! m = CHR ''{'' then init_spec s i (m + 1) True m (substr s (i + 1) (m - i - 1))
      else (m, False, substr s (i + 1) (m - i - 1), []))"
proof (induction "length s - n" arbitrary: n)
  case 0
  then show ?case by (simp add: init_spec.simps)
next
  case (Suc k)
  then have n: "n < length s" by simp
  note d = drop_Cons [OF n]
  show ?case
  proof (cases "in_name (s ! n)")
    case False
    then have "m = n" using Suc.prems(2) d by simp
    then show ?thesis
      using n False by (subst init_spec.simps) (auto simp: in_name_def)
  next
    case True
    then have m: "m = (n + 1) + length (takeWhile in_name (drop (n + 1) s))"
      using Suc.prems(2) d by simp
    have c: "s ! n \<noteq> CHR ''{''" "isalpha (s ! n) \<or> s ! n = CHR ''}''"
      using True by (auto simp: in_name_def isalpha_def)
    have step: "init_spec s i n False b [] =
        init_spec s i (n + 1) False b (if n + 1 = length s then drop (i + 1) s else [])"
      using n c by (subst init_spec.simps) auto
    show ?thesis
    proof (cases "n + 1 = length s")
      case True
      then have "m = length s" using m by simp
      with True n step show ?thesis by (simp add: init_spec.simps)
    next
      case False
      have "init_spec s i (n + 1) False b [] =
         (if m = length s then (length s, False, (if n + 1 = length s then [] else drop (i + 1) s), [])
          else if s ! m = CHR ''{'' then init_spec s i (m + 1) True m (substr s (i + 1) (m - i - 1))
          else (m, False, substr s (i + 1) (m - i - 1), []))"
        by (rule Suc.hyps(1) [OF _ _ m]) (use Suc.hyps(2) n in simp_all)
      with step False n show ?thesis by (simp only: if_False) simp
    qed
  qed
qed

subsection \<open>The outer loop\<close>

lemma substr_takeWhile:
  "m = n + length (takeWhile P (drop n s)) \<Longrightarrow> substr s n (m - n) = takeWhile P (drop n s)"
  by (simp add: substr_def takeWhile_eq_take [symmetric])

lemma drop_dropWhile:
  "m = n + length (takeWhile P (drop n s)) \<Longrightarrow> drop m s = dropWhile P (drop n s)"
  by (simp add: dropWhile_eq_drop [of P "drop n s"] add.commute)

text \<open>The result of the inner loop for the \<open>%\<close> at \<open>i\<close>, in terms of the text after it.\<close>

lemma init_spec_ref:
  assumes i: "i < length s"
  defines "cs \<equiv> drop (i + 1) s"
  defines "str \<equiv> takeWhile in_name cs" and "rest \<equiv> dropWhile in_name cs"
  shows "if rest \<noteq> [] \<and> hd rest = CHR ''{'' then
      (if CHR ''}'' \<notin> set (tl rest) then \<exists>m x. init_spec s i (i + 1) False 0 [] = (m, True, x, [])
       else \<exists>m. init_spec s i (i + 1) False 0 []
                 = (m, False, str, takeWhile (\<lambda>x. x \<noteq> CHR ''}'') (tl rest)) \<and>
              drop m s = tl (dropWhile (\<lambda>x. x \<noteq> CHR ''}'') (tl rest)))
     else \<exists>m. init_spec s i (i + 1) False 0 [] = (m, False, str, []) \<and> drop m s = rest"
proof -
  let ?n = "i + 1"
  let ?m = "?n + length (takeWhile in_name (drop ?n s))"
  have n: "?n \<le> length s" using i by simp
  note spec = init_spec_name [OF n refl, of i 0]
  have rest: "drop ?m s = rest" using drop_dropWhile [OF refl, of ?n in_name s] by (simp add: rest_def cs_def)
  have str: "substr s ?n (?m - i - 1) = str"
    using substr_takeWhile [OF refl, of s ?n in_name] by (simp add: str_def cs_def)
  show ?thesis
  proof (cases "?m = length s")
    case True
    then have r: "rest = []" using rest by simp
    then have "str = cs" unfolding rest_def str_def by (metis dropWhile_eq_Nil_conv takeWhile_eq_all_conv)
    moreover have "?n = length s \<Longrightarrow> cs = []" by (simp add: cs_def)
    ultimately have "init_spec s i ?n False 0 [] = (length s, False, str, [])"
      using spec True by (auto simp: cs_def)
    with r show ?thesis by auto
  next
    case False
    have "length (takeWhile in_name (drop ?n s)) \<le> length (drop ?n s)" by (rule length_takeWhile_le)
    with False n have lt: "?m < length s" by simp
    then have "drop ?m s = s ! ?m # drop (?m + 1) s" by (rule drop_Cons)
    then have hd: "hd rest = s ! ?m" "rest \<noteq> []" "tl rest = drop (?m + 1) s"
      using rest by (metis list.sel(1), metis list.distinct(1), metis list.sel(3))
    show ?thesis
    proof (cases "s ! ?m = CHR ''{''")
      case False
      then have "init_spec s i ?n False 0 [] = (?m, False, str, [])"
        using spec \<open>?m \<noteq> length s\<close> str by simp
      with False hd rest show ?thesis by auto
    next
      case True
      then have sp: "init_spec s i ?n False 0 [] = init_spec s i (?m + 1) True ?m str"
        using spec \<open>?m \<noteq> length s\<close> str by simp
      show ?thesis
      proof (cases "CHR ''}'' \<in> set (tl rest)")
        case False
        then have "\<exists>m x. init_spec s i (?m + 1) True ?m str = (m, True, x, [])"
          using hd(3) by (intro init_spec_open) simp
        with False True hd sp show ?thesis by simp
      next
        case c: True
        let ?w = "takeWhile (\<lambda>x. x \<noteq> CHR ''}'') (drop (?m + 1) s)"
        let ?e = "?m + 1 + length ?w"
        have "init_spec s i (?m + 1) True ?m str = (?e + 1, False, str, substr s (?m + 1) (?e - ?m - 1))"
          using c hd(3) by (intro init_spec_closed) simp
        moreover have "substr s (?m + 1) (?e - ?m - 1) = ?w"
          using substr_takeWhile [OF refl, of s "?m + 1" "\<lambda>x. x \<noteq> CHR ''}''"] by simp
        moreover have "drop (?e + 1) s = tl (dropWhile (\<lambda>x. x \<noteq> CHR ''}'') (tl rest))"
          using drop_dropWhile [OF refl, of "?m + 1" "\<lambda>x. x \<noteq> CHR ''}''" s] hd(3)
          by (metis drop_Suc Suc_eq_plus1 tl_drop)
        ultimately show ?thesis using c True hd sp by auto
      qed
    qed
  qed
qed

lemma init_loop_ref: "init_loop s i nstr = ref_parse (drop i s) nstr"
proof (induction "length s - i" arbitrary: i nstr rule: less_induct)
  case less
  show ?case
  proof (cases "i < length s")
    case False
    then show ?thesis by (simp add: init_loop.simps flush_def)
  next
    case i: True
    let ?cs = "drop (i + 1) s" and ?sp = "init_spec s i (i + 1) False 0 []"
    let ?str = "takeWhile in_name ?cs" and ?rest = "dropWhile in_name ?cs"
    have d: "drop i s = s ! i # ?cs" using i by (rule drop_Cons)
    have hd: "?cs \<noteq> [] \<and> hd ?cs = CHR ''%'' \<longleftrightarrow> i + 1 < length s \<and> s ! (i + 1) = CHR ''%''"
      by (auto simp: hd_drop_conv_nth)
    have IH: "init_loop s j w = ref_parse (drop j s) w" if "i + 1 \<le> j" for j w
      using i that by (intro less) simp
    consider (raw) "s ! i \<noteq> CHR ''%''"
      | (escape) "s ! i = CHR ''%''" "?cs \<noteq> [] \<and> hd ?cs = CHR ''%''"
      | (spec) "s ! i = CHR ''%''" "\<not> (?cs \<noteq> [] \<and> hd ?cs = CHR ''%'')" by blast
    then show ?thesis
    proof cases
      case raw
      with i IH show ?thesis unfolding d by (simp add: init_loop.simps [of s i] ref_parse.simps(2))
    next
      case escape
      with i hd IH show ?thesis
        unfolding d by (simp add: init_loop.simps [of s i] ref_parse.simps(2))
    next
      case spec
      obtain m and st :: bool and x f where sp: "?sp = (m, st, x, f)" by (metis prod_cases4)
      have IH_end: "init_loop s m [] = ref_parse (drop m s) []"
        using init_spec_ge [OF sp] by (rule IH)
      have IH_err: "init_loop s (i + 1) nstr = ref_parse ?cs nstr"
        by (rule IH) simp
      have loop: "init_loop s i nstr =
          (if \<not> st then (case init_loop s m [] of (vec, err) \<Rightarrow>
                    ((if nstr \<noteq> [] then [(nstr, [], False)] else []) @ (x, f, True) # vec, err))
            else (case init_loop s (i + 1) nstr of (vec, _) \<Rightarrow>
                    ((''<<pattern_error>>'', f, False) # vec, True)))"
      proof -
        have "\<not> (i + 1 < length s \<and> s ! (i + 1) = CHR ''%'')" using spec(2) hd by blast
        then show ?thesis
          by (subst init_loop.simps) (simp only: i spec(1) sp if_False if_True simp_thms prod.case)
      qed
      have ref: "ref_parse (drop i s) nstr =
          (if ?rest \<noteq> [] \<and> hd ?rest = CHR ''{'' then
            if CHR ''}'' \<notin> set (tl ?rest)
            then (case ref_parse ?cs nstr of (vec, _) \<Rightarrow> ((''<<pattern_error>>'', [], False) # vec, True))
            else (case ref_parse (tl (dropWhile (\<lambda>x. x \<noteq> CHR ''}'') (tl ?rest))) [] of (vec, err) \<Rightarrow>
                  (flush nstr @ (?str, takeWhile (\<lambda>x. x \<noteq> CHR ''}'') (tl ?rest), True) # vec, err))
          else (case ref_parse ?rest [] of (vec, err) \<Rightarrow> (flush nstr @ (?str, [], True) # vec, err)))"
        unfolding d
        by (subst ref_parse.simps(2)) (simp only: spec(1) spec(2) Let_def simp_thms if_True if_False)
      note sr = init_spec_ref [OF i, unfolded sp]
      consider (a) "?rest \<noteq> [] \<and> hd ?rest = CHR ''{''" "CHR ''}'' \<notin> set (tl ?rest)"
        | (b) "?rest \<noteq> [] \<and> hd ?rest = CHR ''{''" "CHR ''}'' \<in> set (tl ?rest)"
        | (c) "\<not> (?rest \<noteq> [] \<and> hd ?rest = CHR ''{'')" by blast
      then show ?thesis
      proof cases
        case a
        with sr have "st" "f = []" by auto
        with a IH_err show ?thesis unfolding loop ref by simp
      next
        case b
        with sr have "\<not> st" "x = ?str" "f = takeWhile (\<lambda>x. x \<noteq> CHR ''}'') (tl ?rest)"
          "drop m s = tl (dropWhile (\<lambda>x. x \<noteq> CHR ''}'') (tl ?rest))" by auto
        with b IH_end show ?thesis unfolding loop ref by (simp add: flush_def)
      next
        case c
        with sr have "\<not> st" "x = ?str" "f = []" "drop m s = ?rest" by (simp_all only: if_False) auto
        with c IH_end show ?thesis unfolding loop ref by (simp only: if_False flush_def) simp
      qed
    qed
  qed
qed

text \<open>The result of \<open>init\<close> read off a parse.\<close>

definition formatter_of :: "string \<Rightarrow> (string \<times> string \<times> bool) list \<times> bool \<Rightarrow> formatter" where
  "formatter_of pattern r =
     \<lparr>m_pattern = pattern, m_items = map (fst \<circ> make_item) (fst r),
      m_error = snd r \<or> (\<exists>x \<in> set (fst r). snd (make_item x))\<rparr>"

text \<open>
  C14. The parser of the code, with its two loops over indices of the pattern, computes for every
  pattern what the reference parser computes; in particular it never reads outside the pattern.
\<close>

theorem LogFormatter_ref: "LogFormatter pattern = formatter_of pattern (ref_parse pattern [])"
  by (simp add: LogFormatter_def formatter_of_def init_loop_ref split: prod.split)

subsection \<open>Printing and parsing\<close>

datatype segment = Raw string | Spec string "string option"

fun show_segment :: "segment \<Rightarrow> string" where
  "show_segment (Raw w) = w"
| "show_segment (Spec n None) = ''%'' @ n"
| "show_segment (Spec n (Some f)) = ''%'' @ n @ ''{'' @ f @ ''}''"

fun triple_of :: "segment \<Rightarrow> string \<times> string \<times> bool" where
  "triple_of (Raw w) = (w, [], False)"
| "triple_of (Spec n f) = (n, case f of None \<Rightarrow> [] | Some w \<Rightarrow> w, True)"

text \<open>
  Segments whose text does not run together: raw text has no \<open>%\<close> and is one piece, a name is made
  of letters, a format has no closing brace, and what follows a name without a format is no letter
  and no brace.
\<close>

fun segments_ok :: "segment list \<Rightarrow> bool" where
  "segments_ok [] = True"
| "segments_ok (Raw w # r) \<longleftrightarrow>
     w \<noteq> [] \<and> CHR ''%'' \<notin> set w \<and> (case r of Raw _ # _ \<Rightarrow> False | _ \<Rightarrow> True) \<and> segments_ok r"
| "segments_ok (Spec n f # r) \<longleftrightarrow>
     n \<noteq> [] \<and> (\<forall>c \<in> set n. isalpha c) \<and> segments_ok r \<and>
     (case f of
        None \<Rightarrow> (case r of Raw w # _ \<Rightarrow> \<not> in_name (hd w) \<and> hd w \<noteq> CHR ''{'' | _ \<Rightarrow> True)
      | Some w \<Rightarrow> CHR ''}'' \<notin> set w)"

lemma ref_parse_raw: "CHR ''%'' \<notin> set w \<Longrightarrow> ref_parse (w @ r) nstr = ref_parse r (nstr @ w)"
  by (induction w arbitrary: nstr) (auto simp: ref_parse.simps(2))

lemma isalpha_facts: "isalpha c \<Longrightarrow> in_name c \<and> c \<noteq> CHR ''%'' \<and> c \<noteq> CHR ''{'' \<and> c \<noteq> CHR ''}''"
  by (auto simp: in_name_def isalpha_def)

lemma not_in_name [simp]: "\<not> in_name CHR ''{''" "\<not> in_name CHR ''%''"
  by (simp_all add: in_name_def isalpha_def)

lemma takeWhile_name:
  "\<forall>c \<in> set n. isalpha c \<Longrightarrow> r = [] \<or> \<not> in_name (hd r) \<Longrightarrow>
   takeWhile in_name (n @ r) = n \<and> dropWhile in_name (n @ r) = r"
  by (induction n) (auto simp: isalpha_facts takeWhile_eq_Nil_iff dropWhile_eq_self_iff)

lemma ref_parse_name:
  assumes n: "n \<noteq> []" "\<forall>c \<in> set n. isalpha c" and r: "r = [] \<or> \<not> in_name (hd r) \<and> hd r \<noteq> CHR ''{''"
  shows "ref_parse (''%'' @ n @ r) nstr =
    (case ref_parse r [] of (vec, err) \<Rightarrow> (flush nstr @ (n, [], True) # vec, err))"
proof -
  have tw: "takeWhile in_name (n @ r) = n \<and> dropWhile in_name (n @ r) = r"
    using n r by (intro takeWhile_name) auto
  have "hd (n @ r) \<noteq> CHR ''%''" using n by (cases n) (auto simp: isalpha_facts)
  then have "ref_parse (CHR ''%'' # (n @ r)) nstr =
    (case ref_parse r [] of (vec, err) \<Rightarrow> (flush nstr @ (n, [], True) # vec, err))"
    by (subst ref_parse.simps(2)) (use tw r in \<open>auto simp: Let_def\<close>)
  then show ?thesis by simp
qed

lemma takeWhile_brace:
  "CHR ''}'' \<notin> set w \<Longrightarrow>
   takeWhile (\<lambda>x. x \<noteq> CHR ''}'') (w @ CHR ''}'' # r) = w \<and>
   dropWhile (\<lambda>x. x \<noteq> CHR ''}'') (w @ CHR ''}'' # r) = CHR ''}'' # r"
  by (induction w) auto

lemma ref_parse_braces:
  assumes n: "n \<noteq> []" "\<forall>c \<in> set n. isalpha c" and w: "CHR ''}'' \<notin> set w"
  shows "ref_parse (''%'' @ n @ ''{'' @ w @ ''}'' @ r) nstr =
    (case ref_parse r [] of (vec, err) \<Rightarrow> (flush nstr @ (n, w, True) # vec, err))"
proof -
  let ?r = "CHR ''{'' # w @ CHR ''}'' # r"
  have tw: "takeWhile in_name (n @ ?r) = n" "dropWhile in_name (n @ ?r) = ?r"
    using takeWhile_name [OF n(2), of ?r] by simp_all
  have "hd (n @ ?r) \<noteq> CHR ''%''" using n by (cases n) (auto simp: isalpha_facts)
  then have "ref_parse (CHR ''%'' # (n @ ?r)) nstr =
    (case ref_parse r [] of (vec, err) \<Rightarrow> (flush nstr @ (n, w, True) # vec, err))"
    by (subst ref_parse.simps(2)) (use tw takeWhile_brace [OF w, of r] in \<open>simp add: Let_def\<close>)
  then show ?thesis by simp
qed

lemma segments_hd:
  "segments_ok r \<Longrightarrow> (case r of Raw w # _ \<Rightarrow> \<not> in_name (hd w) \<and> hd w \<noteq> CHR ''{'' | _ \<Rightarrow> True) \<Longrightarrow>
   concat (map show_segment r) = [] \<or> \<not> in_name (hd (concat (map show_segment r))) \<and>
     hd (concat (map show_segment r)) \<noteq> CHR ''{''"
proof (cases r)
  case (Cons x xs)
  assume "segments_ok r" "case r of Raw w # _ \<Rightarrow> \<not> in_name (hd w) \<and> hd w \<noteq> CHR ''{'' | _ \<Rightarrow> True"
  with Cons show ?thesis by (cases x; cases "case x of Spec _ f \<Rightarrow> f | _ \<Rightarrow> None") auto
qed simp

lemma ref_parse_segments:
  "segments_ok segs \<Longrightarrow> nstr = [] \<or> (case segs of Raw _ # _ \<Rightarrow> False | _ \<Rightarrow> True) \<Longrightarrow>
   ref_parse (concat (map show_segment segs)) nstr = (flush nstr @ map triple_of segs, False)"
proof (induction segs arbitrary: nstr)
  case Nil
  then show ?case by simp
next
  case (Cons x r)
  show ?case
  proof (cases x)
    case (Raw w)
    with Cons.prems have n: "nstr = []" and w: "w \<noteq> []" "CHR ''%'' \<notin> set w"
      and r: "segments_ok r" "case r of Raw _ # _ \<Rightarrow> False | _ \<Rightarrow> True" by auto
    from Cons.IH [OF r(1), of w] r(2) have
      "ref_parse (concat (map show_segment r)) w = (flush w @ map triple_of r, False)" by simp
    with Raw n w show ?thesis by (simp add: ref_parse_raw flush_def)
  next
    case (Spec n f)
    with Cons.prems have n: "n \<noteq> []" "\<forall>c \<in> set n. isalpha c" and r: "segments_ok r" by auto
    have IH: "ref_parse (concat (map show_segment r)) [] = (map triple_of r, False)"
      using Cons.IH [OF r, of "[]"] by (simp add: flush_def)
    show ?thesis
    proof (cases f)
      case None
      with Cons.prems Spec have "case r of Raw w # _ \<Rightarrow> \<not> in_name (hd w) \<and> hd w \<noteq> CHR ''{'' | _ \<Rightarrow> True"
        by simp
      from ref_parse_name [OF n segments_hd [OF r this], of nstr] IH Spec None show ?thesis by simp
    next
      case (Some w)
      with Cons.prems Spec have "CHR ''}'' \<notin> set w" by simp
      from ref_parse_braces [OF n this, of "concat (map show_segment r)" nstr] IH Spec Some
      show ?thesis by simp
    qed
  qed
qed

text \<open>
  C15. A pattern printed from well-separated segments parses back into them, one item for each, in
  order: raw text as it is, each known name as its item with its format. The formatter is in error
  exactly when some name is unknown.
\<close>

theorem LogFormatter_roundtrip:
  assumes "segments_ok segs"
  shows "m_items (LogFormatter (concat (map show_segment segs))) =
      map (\<lambda>x. case x of
            Raw w \<Rightarrow> StringFormatItem w
          | Spec n f \<Rightarrow> (case s_format_items n of
              None \<Rightarrow> StringFormatItem (''<<error_format %'' @ n @ ''>>'')
            | Some mk \<Rightarrow> mk (case f of None \<Rightarrow> [] | Some w \<Rightarrow> w))) segs \<and>
    (m_error (LogFormatter (concat (map show_segment segs))) \<longleftrightarrow>
      (\<exists>n f. Spec n f \<in> set segs \<and> s_format_items n = None))"
proof -
  have r: "ref_parse (concat (map show_segment segs)) [] = (map triple_of segs, False)"
    using ref_parse_segments [OF assms, of "[]"] by (simp add: flush_def)
  have it: "make_item (triple_of x) = (case x of
            Raw w \<Rightarrow> (StringFormatItem w, False)
          | Spec n f \<Rightarrow> (case s_format_items n of
              None \<Rightarrow> (StringFormatItem (''<<error_format %'' @ n @ ''>>''), True)
            | Some mk \<Rightarrow> (mk (case f of None \<Rightarrow> [] | Some w \<Rightarrow> w), False)))" for x
    by (cases x) (auto simp: make_item_def split: option.split)
  have "snd (make_item (triple_of x)) \<longleftrightarrow> (\<exists>n f. x = Spec n f \<and> s_format_items n = None)" for x
    by (cases x) (auto simp: make_item_def split: option.splits)
  then have "(\<exists>x \<in> set segs. snd (make_item (triple_of x))) \<longleftrightarrow>
      (\<exists>n f. Spec n f \<in> set segs \<and> s_format_items n = None)" by auto
  moreover have "fst (make_item (triple_of x)) = (case x of
            Raw w \<Rightarrow> StringFormatItem w
          | Spec n f \<Rightarrow> (case s_format_items n of
              None \<Rightarrow> StringFormatItem (''<<error_format %'' @ n @ ''>>'')
            | Some mk \<Rightarrow> mk (case f of None \<Rightarrow> [] | Some w \<Rightarrow> w)))" for x
    by (simp add: it split: segment.split option.split)
  ultimately show ?thesis by (simp add: LogFormatter_ref formatter_of_def r)
qed

text \<open>The default pattern of a logger, as segments.\<close>

definition default_segments :: "segment list" where
  "default_segments =
     [Spec ''d'' (Some ''%Y-%m-%d %H:%M:%S''), Spec ''T'' None, Spec ''t'' None, Spec ''T'' None,
      Spec ''N'' None, Spec ''T'' None, Spec ''F'' None, Spec ''T'' None, Raw ''['', Spec ''p'' None,
      Raw '']'', Spec ''T'' None, Raw ''['', Spec ''c'' None, Raw '']'', Spec ''T'' None,
      Spec ''f'' None, Raw '':'', Spec ''l'' None, Spec ''T'' None, Spec ''m'' None, Spec ''n'' None]"

theorem LogFormatter_roundtrip_witness:
  "\<not> m_error (LogFormatter default_pattern) \<and>
   m_items (LogFormatter default_pattern) =
     [DateTimeFormatItem ''%Y-%m-%d %H:%M:%S'', TabFormatItem, ThreadIdFormatItem, TabFormatItem,
      ThreadNameFormatItem, TabFormatItem, FiberIdFormatItem, TabFormatItem, StringFormatItem ''['',
      LevelFormatItem, StringFormatItem '']'', TabFormatItem, StringFormatItem ''['', NameFormatItem,
      StringFormatItem '']'', TabFormatItem, FilenameFormatItem, StringFormatItem '':'', LineFormatItem,
      TabFormatItem, MessageFormatItem, NewLineFormatItem]"
proof -
  have ok: "segments_ok default_segments"
    by (simp add: default_segments_def isalpha_def in_name_def)
  have p: "concat (map show_segment default_segments) = default_pattern"
    by (simp add: default_segments_def default_pattern_def)
  have "\<not> (\<exists>n f. Spec n f \<in> set default_segments \<and> s_format_items n = None)"
    by (auto simp: default_segments_def s_format_items_def)
  with LogFormatter_roundtrip [OF ok] show ?thesis
    unfolding p by (simp add: default_segments_def s_format_items_def make_datetime_def)
qed

subsection \<open>The escape of the percent sign\<close>

text \<open>
  A doubled percent sign is meant to stand for one. The code takes the first for the text and
  goes on at the second, which then begins a name of its own: unless a letter or a brace follows,
  the name is empty, the formatter is in error and the output has \<open>%<<error_format %>>\<close> in its
  place.
\<close>

theorem percent_escape_is_error:
  assumes pre: "CHR ''%'' \<notin> set pre"
    and rest: "rest = [] \<or> \<not> in_name (hd rest) \<and> hd rest \<notin> {CHR ''{'', CHR ''%''}"
  shows "\<exists>items. m_error (LogFormatter (pre @ ''%%'' @ rest)) \<and>
    m_items (LogFormatter (pre @ ''%%'' @ rest))
      = StringFormatItem (pre @ ''%'') # StringFormatItem ''<<error_format %>>'' # items"
proof -
  obtain vec err where r: "ref_parse rest [] = (vec, err)" by (rule prod.exhaust)
  have tw: "takeWhile in_name rest = [] \<and> dropWhile in_name rest = rest"
    using rest by (cases rest) auto
  have "ref_parse (CHR ''%'' # rest) (pre @ ''%'') = (flush (pre @ ''%'') @ ([], [], True) # vec, err)"
    by (subst ref_parse.simps(2)) (use tw rest r in \<open>auto simp: Let_def\<close>)
  moreover have "ref_parse (pre @ CHR ''%'' # CHR ''%'' # rest) [] = ref_parse (CHR ''%'' # rest) (pre @ ''%'')"
    by (simp add: ref_parse_raw [OF pre] ref_parse.simps(2) [of "CHR ''%''" "CHR ''%'' # rest"])
  ultimately have p: "ref_parse (pre @ CHR ''%'' # CHR ''%'' # rest) [] = ((pre @ ''%'', [], False) # ([], [], True) # vec, err)"
    by (simp add: flush_def)
  have "s_format_items [] = None" by (simp add: s_format_items_def)
  then show ?thesis by (simp add: LogFormatter_ref formatter_of_def p make_item_def)
qed

theorem percent_escape_is_error_witness:
  "m_error (LogFormatter ''100%% of '')"
  using percent_escape_is_error [of "''100''" "'' of ''"] by (auto simp: in_name_def isalpha_def)

subsection \<open>Levels\<close>

lemma FromString_ToString: "FromString (ToString l) = l"
  by (cases l) (simp_all add: FromString_def)

end
