(* ===== verification/LogConfigs.thy ===== *)
theory LogConfigs
  imports LogPatterns YamlFlow
begin

section \<open>Logger definitions and their YAML text (source/log.cpp)\<close>

text \<open>
  \<open>LogDefine\<close> and \<open>LogAppenderDefine\<close>, the type of the configuration \<open>logs\<close>, and the two
  specialisations of \<open>LexicalCast\<close> for it. \<open>operator==\<close> compares all members: it is HOL's equality.
  A node without a defined value reads as the default of the member.
\<close>

record LogAppenderDefine =
  lad_type :: int
  lad_level :: Level
  lad_formatter :: string
  lad_file :: string

record LogDefine =
  ld_name :: string
  ld_level :: Level
  ld_formatter :: string
  ld_appenders :: "LogAppenderDefine list"

definition ld_less :: "LogDefine \<Rightarrow> LogDefine \<Rightarrow> bool" where
  "ld_less a b \<longleftrightarrow> ld_name a < ld_name b"

subsection \<open>Reading\<close>

text \<open>\<open>node[key].IsDefined()\<close>, then \<open>node[key].as<std::string>()\<close>.\<close>

definition text_at :: "yaml_lib \<Rightarrow> yaml \<Rightarrow> string \<Rightarrow> string option option" where
  "text_at Y node key =
     Option.bind (y_get Y node key) (\<lambda>m.
       case m of None \<Rightarrow> Some None | Some n \<Rightarrow> map_option Some (y_as Y n))"

definition text_or_empty :: "yaml_lib \<Rightarrow> yaml \<Rightarrow> string \<Rightarrow> string option" where
  "text_or_empty Y node key =
     map_option (\<lambda>m. case m of None \<Rightarrow> [] | Some w \<Rightarrow> w) (text_at Y node key)"

text \<open>One turn of the loop over \<open>node["appenders"]\<close>; \<open>Some None\<close> is \<open>continue\<close>.\<close>

definition read_appender :: "yaml_lib \<Rightarrow> yaml option \<Rightarrow> LogAppenderDefine option option" where
  "read_appender Y x =
     (case x of
        None \<Rightarrow> Some None
      | Some a \<Rightarrow> Option.bind (text_at Y a ''type'') (\<lambda>ty.
          case ty of
            None \<Rightarrow> Some None
          | Some type \<Rightarrow>
              if type = ''FileLogAppender'' then
                Option.bind (text_at Y a ''file'') (\<lambda>f.
                  case f of
                    None \<Rightarrow> Some None
                  | Some file \<Rightarrow> map_option
                      (\<lambda>fm. Some \<lparr>lad_type = 1, lad_level = UNKNOWN, lad_formatter = fm, lad_file = file\<rparr>)
                      (text_or_empty Y a ''formatter''))
              else if type = ''StdoutLogAppender'' then
                map_option
                  (\<lambda>fm. Some \<lparr>lad_type = 2, lad_level = UNKNOWN, lad_formatter = fm, lad_file = []\<rparr>)
                  (text_or_empty Y a ''formatter'')
              else Some None))"

definition somes :: "'a option list \<Rightarrow> 'a list" where
  "somes xs = concat (map (\<lambda>x. case x of None \<Rightarrow> [] | Some y \<Rightarrow> [y]) xs)"

definition LogDefine_from :: "yaml_lib \<Rightarrow> LogDefine from_str" where
  "LogDefine_from Y v =
     Option.bind (y_load Y v) (\<lambda>node.
     Option.bind (text_at Y node ''name'') (\<lambda>nm.
       case nm of
         None \<Rightarrow> None
       | Some name \<Rightarrow>
           Option.bind (text_or_empty Y node ''level'') (\<lambda>level.
           Option.bind (text_or_empty Y node ''formatter'') (\<lambda>formatter.
           Option.bind (y_get Y node ''appenders'') (\<lambda>ap.
           map_option
             (\<lambda>as. \<lparr>ld_name = name, ld_level = FromString level, ld_formatter = formatter,
                    ld_appenders = somes as\<rparr>)
             (case ap of None \<Rightarrow> Some [] | Some n \<Rightarrow> those (map (read_appender Y) (y_nodes Y n))))))))"

subsection \<open>Writing\<close>

text \<open>A node on which no key was set is null.\<close>

definition keyed :: "(string \<times> yaml) list \<Rightarrow> yaml" where
  "keyed kvs = (if kvs = [] then YNull else YMap kvs)"

definition level_pair :: "Level \<Rightarrow> (string \<times> yaml) list" where
  "level_pair l = (if l \<noteq> UNKNOWN then [(''level'', YScalar (ToString l))] else [])"

definition formatter_pair :: "string \<Rightarrow> (string \<times> yaml) list" where
  "formatter_pair w = (if w \<noteq> [] then [(''formatter'', YScalar w)] else [])"

definition appender_node :: "LogAppenderDefine \<Rightarrow> yaml" where
  "appender_node a = keyed
     ((if lad_type a = 1
       then [(''type'', YScalar ''FileLogAppender''), (''file'', YScalar (lad_file a))]
       else if lad_type a = 2 then [(''type'', YScalar ''StdoutLogAppender'')] else [])
      @ level_pair (lad_level a) @ formatter_pair (lad_formatter a))"

definition define_node :: "LogDefine \<Rightarrow> yaml" where
  "define_node d = keyed
     ((''name'', YScalar (ld_name d)) # level_pair (ld_level d) @ formatter_pair (ld_formatter d)
      @ (if ld_appenders d \<noteq> []
         then [(''appenders'', YSeq (map appender_node (ld_appenders d)))] else []))"

definition LogDefine_to :: "yaml_lib \<Rightarrow> LogDefine to_str" where
  "LogDefine_to Y d = Some (y_dump Y (define_node d))"

subsection \<open>Reading what was written\<close>

text \<open>
  What survives of a definition: appenders of an unknown type are dropped, the level of every other
  appender is, and the file of one that writes to the console.
\<close>

definition kept_appender :: "LogAppenderDefine \<Rightarrow> LogAppenderDefine" where
  "kept_appender a = a\<lparr>lad_level := UNKNOWN, lad_file := if lad_type a = 1 then lad_file a else []\<rparr>"

definition kept :: "LogDefine \<Rightarrow> LogDefine" where
  "kept d = d\<lparr>ld_appenders :=
     map kept_appender (filter (\<lambda>a. lad_type a = 1 \<or> lad_type a = 2) (ld_appenders d))\<rparr>"

text \<open>Nothing is lost of these.\<close>

definition define_ok :: "LogDefine \<Rightarrow> bool" where
  "define_ok d \<longleftrightarrow> (\<forall>a \<in> set (ld_appenders d). lad_level a = UNKNOWN \<and>
     (lad_type a = 1 \<or> lad_type a = 2 \<and> lad_file a = []))"

lemma read_appender_node:
  assumes "yaml_law Y"
  shows "read_appender Y (Some (appender_node a)) =
    Some (if lad_type a = 1 \<or> lad_type a = 2 then Some (kept_appender a) else None)"
  using assms
  by (cases a) (auto simp: read_appender_def text_at_def text_or_empty_def appender_node_def keyed_def
      level_pair_def formatter_pair_def kept_appender_def yaml_lawD)

lemma read_appender_nodes:
  assumes "yaml_law Y"
  shows "map_option somes (those (map (read_appender Y) (map Some (map appender_node as)))) =
    Some (map kept_appender (filter (\<lambda>a. lad_type a = 1 \<or> lad_type a = 2) as))"
proof (induction as)
  case Nil
  then show ?case by (simp add: somes_def)
next
  case (Cons a as)
  then obtain xs where "those (map (read_appender Y) (map Some (map appender_node as))) = Some xs"
    "somes xs = map kept_appender (filter (\<lambda>a. lad_type a = 1 \<or> lad_type a = 2) as)" by auto
  then show ?case by (simp add: read_appender_node [OF assms] somes_def)
qed

lemma LogDefine_from_node:
  assumes Y: "yaml_law Y" and v: "y_load Y v = Some (define_node d)"
  shows "LogDefine_from Y v = Some (kept d)"
proof -
  define kvs where "kvs = (''name'', YScalar (ld_name d)) # level_pair (ld_level d) @ formatter_pair (ld_formatter d)
      @ (if ld_appenders d \<noteq> [] then [(''appenders'', YSeq (map appender_node (ld_appenders d)))] else [])"
  have n: "define_node d = YMap kvs" by (simp add: define_node_def keyed_def kvs_def)
  have 1: "text_at Y (YMap kvs) ''name'' = Some (Some (ld_name d))"
    by (simp add: text_at_def yaml_lawD [OF Y] kvs_def)
  have 2: "text_or_empty Y (YMap kvs) ''level'' = Some (if ld_level d = UNKNOWN then [] else ToString (ld_level d))"
    by (simp add: text_or_empty_def text_at_def yaml_lawD [OF Y] kvs_def level_pair_def formatter_pair_def)
  have 3: "text_or_empty Y (YMap kvs) ''formatter'' = Some (ld_formatter d)"
    by (simp add: text_or_empty_def text_at_def yaml_lawD [OF Y] kvs_def level_pair_def formatter_pair_def)
  have 4: "y_get Y (YMap kvs) ''appenders'' =
      Some (if ld_appenders d = [] then None else Some (YSeq (map appender_node (ld_appenders d))))"
    by (simp add: yaml_lawD [OF Y] kvs_def level_pair_def formatter_pair_def)
  have 5: "map_option somes (case if ld_appenders d = [] then None
        else Some (YSeq (map appender_node (ld_appenders d))) of
        None \<Rightarrow> Some [] | Some n \<Rightarrow> those (map (read_appender Y) (y_nodes Y n))) =
      Some (ld_appenders (kept d))"
    using read_appender_nodes [OF Y, of "ld_appenders d"]
    by (auto simp: kept_def yaml_lawD [OF Y] somes_def simp del: map_map)
  have 6: "FromString (if ld_level d = UNKNOWN then [] else ToString (ld_level d)) = ld_level d"
    by (simp add: FromString_ToString) (simp add: FromString_def)
  from 5 obtain as where as: "(case if ld_appenders d = [] then None
        else Some (YSeq (map appender_node (ld_appenders d))) of
        None \<Rightarrow> Some [] | Some n \<Rightarrow> those (map (read_appender Y) (y_nodes Y n))) = Some as"
      "somes as = ld_appenders (kept d)" by auto
  show ?thesis
    using v 1 2 3 as 6
    by (simp add: LogDefine_from_def n 4 [simplified] kept_def del: if_split)
qed

lemma kept_id: "define_ok d \<Longrightarrow> kept d = d"
proof -
  assume "define_ok d"
  then have "filter (\<lambda>a. lad_type a = 1 \<or> lad_type a = 2) (ld_appenders d) = ld_appenders d"
    and "map kept_appender (ld_appenders d) = ld_appenders d"
    by (auto simp: define_ok_def kept_appender_def filter_id_conv intro!: map_idI)
  then show ?thesis by (simp add: kept_def)
qed

interpretation log_define: yaml_codec Y "LogDefine_from Y" "LogDefine_to Y" define_ok for Y
proof
  fix d
  assume Y: "yaml_law Y" and d: "define_ok d"
  show "cast_ok Y (LogDefine_from Y) (LogDefine_to Y) d"
    using LogDefine_from_node [OF Y, of _ d] yaml_lawD(1) [OF Y] kept_id [OF d]
    by (auto simp: cast_ok_def LogDefine_to_def)
qed

interpretation log_defines: yaml_codec Y "vector_from Y (LogDefine_from Y)"
  "vector_to Y (LogDefine_to Y)" "\<lambda>ds. \<forall>d \<in> set ds. define_ok d" for Y
  by unfold_locales (rule log_define.vector_ok)

text \<open>
  C31. The text of a logger definition is read back, except for the appenders: their levels are
  lost, as is the file of a console appender, and those of an unknown type are dropped.
\<close>

theorem LogDefine_roundtrip:
  assumes "yaml_law Y"
  shows "Option.bind (LogDefine_to Y d) (LogDefine_from Y) = Some (kept d)"
  using LogDefine_from_node [OF assms yaml_lawD(1) [OF assms]] by (simp add: LogDefine_to_def)

definition demo_define :: LogDefine where
  "demo_define = \<lparr>ld_name = ''system'', ld_level = WARN, ld_formatter = ''%d%T%m%n'',
     ld_appenders = [\<lparr>lad_type = 1, lad_level = ERROR, lad_formatter = [], lad_file = ''log.txt''\<rparr>]\<rparr>"

theorem LogDefine_roundtrip_witness:
  "Option.bind (LogDefine_to flow_yaml demo_define) (LogDefine_from flow_yaml)
     = Some (demo_define\<lparr>ld_appenders :=
         [\<lparr>lad_type = 1, lad_level = UNKNOWN, lad_formatter = [], lad_file = ''log.txt''\<rparr>]\<rparr>)"
  using LogDefine_roundtrip [OF flow_law, of demo_define]
  by (simp add: demo_define_def kept_def kept_appender_def)

text \<open>
  The configuration \<open>logs\<close>, a set of definitions in the order of their names: its text is read
  back into the same set when no appender carries a level, and none of its names is used twice.
\<close>

theorem logs_roundtrip:
  assumes "yaml_law Y" and "\<forall>d \<in> set ds. define_ok d" and "sorted_wrt ld_less ds"
  shows "Option.bind (set_to Y (LogDefine_to Y) ds) (set_from Y ld_less (LogDefine_from Y)) = Some ds"
proof -
  have "\<not> ld_less b a" if "ld_less a b" for a b using that by (auto simp: ld_less_def)
  with assms show ?thesis by (intro cast_okD [OF log_define.set_ok])
qed

theorem logs_roundtrip_witness:
  "Option.bind (set_to flow_yaml (LogDefine_to flow_yaml)
       [\<lparr>ld_name = ''root'', ld_level = INFO, ld_formatter = [], ld_appenders =
          [\<lparr>lad_type = 2, lad_level = UNKNOWN, lad_formatter = [], lad_file = []\<rparr>]\<rparr>,
        \<lparr>ld_name = ''system'', ld_level = UNKNOWN, ld_formatter = ''%m%n'', ld_appenders = []\<rparr>])
     (set_from flow_yaml ld_less (LogDefine_from flow_yaml)) =
   Some [\<lparr>ld_name = ''root'', ld_level = INFO, ld_formatter = [], ld_appenders =
          [\<lparr>lad_type = 2, lad_level = UNKNOWN, lad_formatter = [], lad_file = []\<rparr>]\<rparr>,
        \<lparr>ld_name = ''system'', ld_level = UNKNOWN, ld_formatter = ''%m%n'', ld_appenders = []\<rparr>]"
  by (rule logs_roundtrip [OF flow_law])
    (simp_all add: define_ok_def ld_less_def list_less_def less_char_def)

text \<open>
  A map from names to lists of logger definitions: the casts of \<open>std::map\<close> and \<open>std::vector\<close>
  compose, and the map is read back in the order of its keys.
\<close>

theorem map_roundtrip:
  assumes "yaml_law Y" and "\<forall>(k, ds) \<in> set m. \<forall>d \<in> set ds. define_ok d"
    and "sorted_wrt (\<lambda>a b. fst a < fst b) m"
  shows "Option.bind (map_to Y (vector_to Y (LogDefine_to Y)) m)
      (map_from Y (vector_from Y (LogDefine_from Y))) = Some m"
  using assms by (intro cast_okD [OF log_defines.map_ok]) auto

theorem map_roundtrip_witness:
  "Option.bind (map_to flow_yaml (vector_to flow_yaml (LogDefine_to flow_yaml))
       [(''a'', []), (''b'', [kept demo_define])])
     (map_from flow_yaml (vector_from flow_yaml (LogDefine_from flow_yaml)))
   = Some [(''a'', []), (''b'', [kept demo_define])]"
  by (rule map_roundtrip [OF flow_law])
    (simp_all add: define_ok_def kept_def kept_appender_def demo_define_def)

end
