(* ===== verification/Loggers.thy ===== *)
theory Loggers
  imports LogConfigs Configs
begin

section \<open>Loggers, appenders and their manager (source/log.hpp, source/log.cpp)\<close>

text \<open>
  \<open>LogAppender\<close> and \<open>Logger\<close> objects have addresses, the indices into the lists of all that were
  ever made; \<open>shared_ptr\<close> keeps each alive as long as it is pointed to. A formatter never changes
  once made, so a pointer to one is an optional value.
  \<^item> \<open>sink None\<close> is what the appenders wrote to the console and \<open>sink (Some f)\<close> what they wrote to
    the file \<open>f\<close>, where every write arrives at once. The lines by which an operation reports its own
    failure on \<open>std::cout\<close> are not recorded.
  \<^item> \<open>opens f\<close> is whether the system lets the program open the file \<open>f\<close>; writing to an open file
    succeeds. \<open>tm\<close> is the parameter of theory \<open>LogFormatters\<close>.
\<close>

datatype destination = StdoutLogAppender | FileLogAppender string

record appender =
  ap_dest :: destination
  ap_formatter :: "formatter option"
  ap_level :: Level
  ap_hasFormatter :: bool
  ap_open :: bool
  ap_lastTime :: "64 word"

record logger =
  lg_name :: string
  lg_level :: Level
  lg_appenders :: "nat list"
  lg_formatter :: "formatter option"
  lg_root :: "nat option"

record log_state =
  m_appenders :: "appender list"
  m_logger_objs :: "logger list"
  m_loggers :: "(string \<times> nat) list"
  m_root :: nat
  sink :: "string option \<Rightarrow> string"

definition upd_logger :: "nat \<Rightarrow> (logger \<Rightarrow> logger) \<Rightarrow> log_state \<Rightarrow> log_state" where
  "upd_logger l f s = s\<lparr>m_logger_objs := (m_logger_objs s)[l := f (m_logger_objs s ! l)]\<rparr>"

definition upd_appender :: "nat \<Rightarrow> (appender \<Rightarrow> appender) \<Rightarrow> log_state \<Rightarrow> log_state" where
  "upd_appender a f s = s\<lparr>m_appenders := (m_appenders s)[a := f (m_appenders s ! a)]\<rparr>"

subsection \<open>Appenders\<close>

text \<open>
  \<open>reopen\<close>: a good stream is closed, then the file is opened for appending. The constructor of a
  file appender calls it on the new stream.
\<close>

definition reopen :: "(string \<Rightarrow> bool) \<Rightarrow> string \<Rightarrow> appender \<Rightarrow> appender" where
  "reopen opens f a = a\<lparr>ap_open := opens f\<rparr>"

definition new_appender :: "(string \<Rightarrow> bool) \<Rightarrow> destination \<Rightarrow> appender" where
  "new_appender opens d =
     (let a = \<lparr>ap_dest = d, ap_formatter = None, ap_level = DEBUG, ap_hasFormatter = False,
               ap_open = False, ap_lastTime = 0\<rparr>
      in case d of StdoutLogAppender \<Rightarrow> a | FileLogAppender f \<Rightarrow> reopen opens f a)"

definition make_appender :: "(string \<Rightarrow> bool) \<Rightarrow> destination \<Rightarrow> log_state \<Rightarrow> nat \<times> log_state" where
  "make_appender opens d s =
     (length (m_appenders s), s\<lparr>m_appenders := m_appenders s @ [new_appender opens d]\<rparr>)"

definition LogAppender_setFormatter :: "formatter option \<Rightarrow> appender \<Rightarrow> appender" where
  "LogAppender_setFormatter val a = a\<lparr>ap_formatter := val, ap_hasFormatter := val \<noteq> None\<rparr>"

definition LogAppender_setLevel :: "Level \<Rightarrow> appender \<Rightarrow> appender" where
  "LogAppender_setLevel level a = a\<lparr>ap_level := level\<rparr>"

definition write_sink :: "string option \<Rightarrow> string \<Rightarrow> log_state \<Rightarrow> log_state" where
  "write_sink d w s = s\<lparr>sink := (sink s)(d := sink s d @ w)\<rparr>"

definition reopen_when_due :: "(string \<Rightarrow> bool) \<Rightarrow> string \<Rightarrow> log_event \<Rightarrow> appender \<Rightarrow> appender" where
  "reopen_when_due opens f e a =
     (let now = ucast (getTime e) :: 64 word
      in if ap_lastTime a + 3 \<le> now then (reopen opens f a)\<lparr>ap_lastTime := now\<rparr> else a)"

definition StdoutLogAppender_log ::
    "(string \<Rightarrow> 32 word \<Rightarrow> string) \<Rightarrow> nat \<Rightarrow> Level \<Rightarrow> log_event \<Rightarrow> log_state \<Rightarrow> log_state res" where
  "StdoutLogAppender_log tm p level e s =
     (let a = m_appenders s ! p in
      if \<not> ap_level a \<le> level then Inr s
      else case ap_formatter a of
             None \<Rightarrow> Inl (BadAccess ''m_formatter'')
           | Some fm \<Rightarrow> Inr (write_sink None (LogFormatter_format tm fm level e) s))"

definition FileLogAppender_log ::
    "(string \<Rightarrow> bool) \<Rightarrow> (string \<Rightarrow> 32 word \<Rightarrow> string) \<Rightarrow> string \<Rightarrow> nat \<Rightarrow> Level \<Rightarrow> log_event
       \<Rightarrow> log_state \<Rightarrow> log_state res" where
  "FileLogAppender_log opens tm f p level e s =
     (let a = m_appenders s ! p in
      if \<not> ap_level a \<le> level then Inr s
      else let s1 = upd_appender p (reopen_when_due opens f e) s in
           case ap_formatter a of
             None \<Rightarrow> Inl (BadAccess ''m_formatter'')
           | Some fm \<Rightarrow>
               Inr (if ap_open (m_appenders s1 ! p)
                    then write_sink (Some f) (LogFormatter_format tm fm level e) s1 else s1))"

text \<open>The virtual \<open>LogAppender::log\<close>.\<close>

definition appender_log ::
    "(string \<Rightarrow> bool) \<Rightarrow> (string \<Rightarrow> 32 word \<Rightarrow> string) \<Rightarrow> nat \<Rightarrow> Level \<Rightarrow> log_event
       \<Rightarrow> log_state \<Rightarrow> log_state res" where
  "appender_log opens tm p level e s =
     (case ap_dest (m_appenders s ! p) of
        StdoutLogAppender \<Rightarrow> StdoutLogAppender_log tm p level e s
      | FileLogAppender f \<Rightarrow> FileLogAppender_log opens tm f p level e s)"

subsection \<open>Loggers\<close>

definition new_logger :: "string \<Rightarrow> logger" where
  "new_logger name =
     \<lparr>lg_name = name, lg_level = DEBUG, lg_appenders = [],
      lg_formatter = Some (LogFormatter default_pattern), lg_root = None\<rparr>"

definition Logger_setLevel :: "nat \<Rightarrow> Level \<Rightarrow> log_state \<Rightarrow> log_state" where
  "Logger_setLevel l val s = upd_logger l (\<lambda>g. g\<lparr>lg_level := val\<rparr>) s"

definition share_formatter :: "formatter option \<Rightarrow> appender \<Rightarrow> appender" where
  "share_formatter val a = (if ap_hasFormatter a then a else a\<lparr>ap_formatter := val\<rparr>)"

text \<open>The two overloads of \<open>Logger::setFormatter\<close>, for a pointer and for a pattern.\<close>

definition Logger_setFormatter_ptr :: "nat \<Rightarrow> formatter option \<Rightarrow> log_state \<Rightarrow> log_state" where
  "Logger_setFormatter_ptr l val s =
     fold (\<lambda>p. upd_appender p (share_formatter val)) (lg_appenders (m_logger_objs s ! l))
       (upd_logger l (\<lambda>g. g\<lparr>lg_formatter := val\<rparr>) s)"

definition Logger_setFormatter :: "nat \<Rightarrow> string \<Rightarrow> log_state \<Rightarrow> log_state" where
  "Logger_setFormatter l val s =
     (let newVal = LogFormatter val
      in if m_error newVal then s else Logger_setFormatter_ptr l (Some newVal) s)"

definition addAppender :: "nat \<Rightarrow> nat \<Rightarrow> log_state \<Rightarrow> log_state" where
  "addAppender l p s =
     (let s1 = (if ap_formatter (m_appenders s ! p) = None
                then upd_appender p (\<lambda>a. a\<lparr>ap_formatter := lg_formatter (m_logger_objs s ! l)\<rparr>) s else s)
      in upd_logger l (\<lambda>g. g\<lparr>lg_appenders := lg_appenders g @ [p]\<rparr>) s1)"

definition delAppender :: "nat \<Rightarrow> nat \<Rightarrow> log_state \<Rightarrow> log_state" where
  "delAppender l p s = upd_logger l (\<lambda>g. g\<lparr>lg_appenders := remove1 p (lg_appenders g)\<rparr>) s"

definition clearAppenders :: "nat \<Rightarrow> log_state \<Rightarrow> log_state" where
  "clearAppenders l s = upd_logger l (\<lambda>g. g\<lparr>lg_appenders := []\<rparr>) s"

fun appenders_log ::
    "(string \<Rightarrow> bool) \<Rightarrow> (string \<Rightarrow> 32 word \<Rightarrow> string) \<Rightarrow> nat list \<Rightarrow> Level \<Rightarrow> log_event
       \<Rightarrow> log_state \<Rightarrow> log_state res" where
  "appenders_log opens tm [] level e s = Inr s"
| "appenders_log opens tm (p # ps) level e s =
     rbind (appender_log opens tm p level e s) (appenders_log opens tm ps level e)"

text \<open>
  \<open>Logger::log\<close> calls itself on the root logger. The first argument bounds the depth of these
  calls; \<open>None\<close> is that it was reached. The logger's mutex is held meanwhile.
\<close>

fun Logger_log ::
    "nat \<Rightarrow> (string \<Rightarrow> bool) \<Rightarrow> (string \<Rightarrow> 32 word \<Rightarrow> string) \<Rightarrow> nat \<Rightarrow> Level \<Rightarrow> log_event
       \<Rightarrow> log_state \<Rightarrow> log_state res option" where
  "Logger_log 0 opens tm l level e s = None"
| "Logger_log (Suc n) opens tm l level e s =
     (let g = m_logger_objs s ! l in
      if \<not> lg_level g \<le> level then Some (Inr s)
      else if lg_appenders g \<noteq> [] then Some (appenders_log opens tm (lg_appenders g) level e s)
      else case lg_root g of
             None \<Rightarrow> Some (Inr s)
           | Some r \<Rightarrow> Logger_log n opens tm r level e s)"

text \<open>
  The destructor of \<open>LogEventWrap\<close> logs its event at the event's level with the event's logger.
  \<open>LogEvent::format\<close> appends what \<open>vasprintf\<close> makes of its arguments (\<open>None\<close>: it failed).
\<close>

definition LogEvent_new ::
    "string \<Rightarrow> Level \<Rightarrow> string \<Rightarrow> 32 word \<Rightarrow> 32 word \<Rightarrow> 32 word \<Rightarrow> 32 word \<Rightarrow> 64 word \<Rightarrow> string \<Rightarrow> log_event"
  where
  "LogEvent_new logger level file line elapse threadId fiberId time threadName =
     \<lparr>ev_file = file, ev_line = line, ev_elapse = elapse, ev_threadId = threadId, ev_fiberId = fiberId,
      ev_time = time, ev_threadName = threadName, ev_ss = [], ev_logger = logger, ev_level = level\<rparr>"

definition LogEvent_format :: "string option \<Rightarrow> log_event \<Rightarrow> log_event" where
  "LogEvent_format printed e =
     (case printed of None \<Rightarrow> e | Some w \<Rightarrow> e\<lparr>ev_ss := ev_ss e @ w\<rparr>)"

definition LogEventWrap_delete ::
    "nat \<Rightarrow> (string \<Rightarrow> bool) \<Rightarrow> (string \<Rightarrow> 32 word \<Rightarrow> string) \<Rightarrow> nat \<Rightarrow> log_event
       \<Rightarrow> log_state \<Rightarrow> log_state res option" where
  "LogEventWrap_delete n opens tm l e s = Logger_log n opens tm l (ev_level e) e s"

text \<open>
  \<open>SERVER_LOG_LEVEL(logger, level) << text\<close>. Of \<open>e\<close> it takes the place of the statement, the ids of
  the thread and the fiber, the thread's name, the time and the text.
\<close>

definition log_macro ::
    "nat \<Rightarrow> (string \<Rightarrow> bool) \<Rightarrow> (string \<Rightarrow> 32 word \<Rightarrow> string) \<Rightarrow> nat \<Rightarrow> Level \<Rightarrow> log_event
       \<Rightarrow> log_state \<Rightarrow> log_state res option" where
  "log_macro n opens tm l level e s =
     (if lg_level (m_logger_objs s ! l) \<le> level
      then LogEventWrap_delete n opens tm l
        (LogEvent_format (Some (ev_ss e))
          (LogEvent_new (lg_name (m_logger_objs s ! l)) level (ev_file e) (ev_line e) 0
            (ev_threadId e) (ev_fiberId e) (ev_time e) (ev_threadName e))) s
      else Some (Inr s))"

text \<open>
  \<open>SERVER_LOG_FMT_LEVEL(logger, level, fmt, ...)\<close>: the text is what \<open>vasprintf\<close> prints, or nothing when
  it fails.
\<close>

definition log_fmt_macro ::
    "nat \<Rightarrow> (string \<Rightarrow> bool) \<Rightarrow> (string \<Rightarrow> 32 word \<Rightarrow> string) \<Rightarrow> nat \<Rightarrow> Level \<Rightarrow> string option \<Rightarrow> log_event
       \<Rightarrow> log_state \<Rightarrow> log_state res option" where
  "log_fmt_macro n opens tm l level printed e s =
     (if lg_level (m_logger_objs s ! l) \<le> level
      then LogEventWrap_delete n opens tm l
        (LogEvent_format printed
          (LogEvent_new (lg_name (m_logger_objs s ! l)) level (ev_file e) (ev_line e) 0
            (ev_threadId e) (ev_fiberId e) (ev_time e) (ev_threadName e))) s
      else Some (Inr s))"

lemma log_fmt_macro_eq:
  "log_fmt_macro n opens tm l level printed e s =
   log_macro n opens tm l level (e\<lparr>ev_ss := case printed of None \<Rightarrow> [] | Some w \<Rightarrow> w\<rparr>) s"
  by (simp add: log_fmt_macro_def log_macro_def LogEvent_format_def LogEvent_new_def split: option.split)

text \<open>The five functions that pass a level to \<open>log\<close>.\<close>

definition Logger_debug where
  "Logger_debug n opens tm l e s = Logger_log n opens tm l DEBUG e s"

definition Logger_info where
  "Logger_info n opens tm l e s = Logger_log n opens tm l INFO e s"

definition Logger_warn where
  "Logger_warn n opens tm l e s = Logger_log n opens tm l WARN e s"

definition Logger_error where
  "Logger_error n opens tm l e s = Logger_log n opens tm l ERROR e s"

definition Logger_fatal where
  "Logger_fatal n opens tm l e s = Logger_log n opens tm l FATAL e s"


subsection \<open>The manager\<close>

definition make_logger :: "string \<Rightarrow> nat option \<Rightarrow> log_state \<Rightarrow> nat \<times> log_state" where
  "make_logger name root s =
     (length (m_logger_objs s),
      s\<lparr>m_logger_objs := m_logger_objs s @ [(new_logger name)\<lparr>lg_root := root\<rparr>]\<rparr>)"

definition LoggerManager_new :: "(string \<Rightarrow> bool) \<Rightarrow> log_state" where
  "LoggerManager_new opens =
     (let s0 = \<lparr>m_appenders = [], m_logger_objs = [], m_loggers = [], m_root = 0, sink = (\<lambda>_. [])\<rparr>;
          (r, s1) = make_logger ''root'' None s0;
          (p, s2) = make_appender opens StdoutLogAppender (s1\<lparr>m_root := r\<rparr>);
          s3 = addAppender r p s2
      in s3\<lparr>m_loggers := map_put (lg_name (m_logger_objs s3 ! r)) r (m_loggers s3)\<rparr>)"

definition getLogger :: "string \<Rightarrow> log_state \<Rightarrow> nat \<times> log_state" where
  "getLogger name s =
     (case map_of (m_loggers s) name of
        Some l \<Rightarrow> (l, s)
      | None \<Rightarrow> (case make_logger name (Some (m_root s)) s of
                  (l, s1) \<Rightarrow> (l, s1\<lparr>m_loggers := map_put name l (m_loggers s1)\<rparr>)))"

definition storeLogger :: "string \<Rightarrow> nat \<Rightarrow> log_state \<Rightarrow> bool \<times> log_state" where
  "storeLogger label l s =
     (if map_of (m_loggers s) label \<noteq> None then (False, s)
      else (True, s\<lparr>m_loggers := map_put label l (m_loggers s)\<rparr>))"

subsection \<open>YAML text\<close>

definition own_formatter_pair :: "appender \<Rightarrow> (string \<times> yaml) list" where
  "own_formatter_pair a =
     (if ap_hasFormatter a
      then (case ap_formatter a of None \<Rightarrow> [] | Some fm \<Rightarrow> [(''formatter'', YScalar (m_pattern fm))])
      else [])"

definition FileLogAppender_yaml :: "yaml_lib \<Rightarrow> string \<Rightarrow> appender \<Rightarrow> string" where
  "FileLogAppender_yaml Y f a = y_dump Y (YMap
     ((''type'', YScalar ''FileLogAppender'') # (''file'', YScalar f)
      # level_pair (ap_level a) @ own_formatter_pair a))"

definition StdoutLogAppender_yaml :: "yaml_lib \<Rightarrow> appender \<Rightarrow> string" where
  "StdoutLogAppender_yaml Y a = y_dump Y (YMap
     ((''type'', YScalar ''StdoutLogAppender'') # level_pair (ap_level a) @ own_formatter_pair a))"

definition appender_yaml :: "yaml_lib \<Rightarrow> appender \<Rightarrow> string" where
  "appender_yaml Y a =
     (case ap_dest a of
        StdoutLogAppender \<Rightarrow> StdoutLogAppender_yaml Y a
      | FileLogAppender f \<Rightarrow> FileLogAppender_yaml Y f a)"

definition Logger_yaml :: "yaml_lib \<Rightarrow> nat \<Rightarrow> log_state \<Rightarrow> string option" where
  "Logger_yaml Y l s =
     (let g = m_logger_objs s ! l in
      map_option (\<lambda>ns. y_dump Y (YMap
          ((''name'', YScalar (lg_name g)) # level_pair (lg_level g)
           @ (case lg_formatter g of None \<Rightarrow> [] | Some fm \<Rightarrow> [(''formatter'', YScalar (m_pattern fm))])
           @ (if ns \<noteq> [] then [(''appenders'', YSeq ns)] else []))))
        (those (map (\<lambda>p. y_load Y (appender_yaml Y (m_appenders s ! p))) (lg_appenders g))))"

definition LoggerManager_yaml :: "yaml_lib \<Rightarrow> log_state \<Rightarrow> string option" where
  "LoggerManager_yaml Y s =
     map_option (\<lambda>ns. y_dump Y (if ns = [] then YNull else YSeq ns))
       (those (map (\<lambda>i. Option.bind (Logger_yaml Y (snd i) s) (y_load Y)) (m_loggers s)))"

subsection \<open>The listener of the configuration \<open>logs\<close>\<close>

text \<open>One turn of the loop over the appenders of a definition. An unknown type leaves \<open>ap\<close> null.\<close>

definition config_appender ::
    "(string \<Rightarrow> bool) \<Rightarrow> nat \<Rightarrow> LogAppenderDefine \<Rightarrow> log_state \<Rightarrow> log_state res" where
  "config_appender opens l a s =
     (if lad_type a \<noteq> 1 \<and> lad_type a \<noteq> 2 then Inl (BadAccess ''ap'')
      else
        let (p, s1) = make_appender opens
              (if lad_type a = 1 then FileLogAppender (lad_file a) else StdoutLogAppender) s;
            s2 = upd_appender p (LogAppender_setLevel (lad_level a)) s1;
            fmt = LogFormatter (lad_formatter a);
            s3 = (if lad_formatter a \<noteq> [] \<and> \<not> m_error fmt
                  then upd_appender p (LogAppender_setFormatter (Some fmt)) s2 else s2)
        in Inr (addAppender l p s3))"

fun config_appenders ::
    "(string \<Rightarrow> bool) \<Rightarrow> nat \<Rightarrow> LogAppenderDefine list \<Rightarrow> log_state \<Rightarrow> log_state res" where
  "config_appenders opens l [] s = Inr s"
| "config_appenders opens l (a # as) s =
     rbind (config_appender opens l a s) (config_appenders opens l as)"

definition config_logger :: "(string \<Rightarrow> bool) \<Rightarrow> LogDefine \<Rightarrow> log_state \<Rightarrow> log_state res" where
  "config_logger opens i s =
     (let (l, s1) = getLogger (ld_name i) s;
          s2 = Logger_setLevel l (ld_level i) s1;
          s3 = (if ld_formatter i \<noteq> [] then Logger_setFormatter l (ld_formatter i) s2 else s2)
      in config_appenders opens l (ld_appenders i) (clearAppenders l s3))"

text \<open>\<open>find\<close> in a set ordered by \<open>operator<\<close>.\<close>

definition find_define :: "LogDefine \<Rightarrow> LogDefine list \<Rightarrow> LogDefine option" where
  "find_define i ds = find (\<lambda>j. \<not> ld_less i j \<and> \<not> ld_less j i) ds"

fun config_changed ::
    "(string \<Rightarrow> bool) \<Rightarrow> LogDefine list \<Rightarrow> LogDefine list \<Rightarrow> log_state \<Rightarrow> log_state res" where
  "config_changed opens old [] s = Inr s"
| "config_changed opens old (i # is) s =
     rbind (if find_define i old = Some i then Inr s else config_logger opens i s)
       (config_changed opens old is)"

definition config_deleted :: "LogDefine list \<Rightarrow> LogDefine \<Rightarrow> log_state \<Rightarrow> log_state" where
  "config_deleted new i s =
     (if find_define i new = None
      then case getLogger (ld_name i) s of
             (l, s1) \<Rightarrow> clearAppenders l (Logger_setLevel l UNKNOWN s1)
      else s)"

text \<open>\<open>e\<close> is the event of the line that the listener logs first (its place, time and thread).\<close>

definition log_listener ::
    "nat \<Rightarrow> (string \<Rightarrow> bool) \<Rightarrow> (string \<Rightarrow> 32 word \<Rightarrow> string) \<Rightarrow> log_event
       \<Rightarrow> LogDefine list \<Rightarrow> LogDefine list \<Rightarrow> log_state \<Rightarrow> log_state res option" where
  "log_listener n opens tm e old new s =
     map_option (\<lambda>r. rbind r (\<lambda>s1. rbind (config_changed opens old new s1) (\<lambda>s2.
         Inr (fold (config_deleted new) old s2))))
       (log_macro n opens tm (m_root s) INFO (e\<lparr>ev_ss := ''Logger configuration loaded''\<rparr>) s)"

end
