(* ===== verification/LoggerSpecs.thy ===== *)
theory LoggerSpecs
  imports Loggers ConfigSpecs
begin

section \<open>Where an event goes\<close>

text \<open>
  The well-formedness of the loggers and appenders of \<open>Loggers\<close>, that every operation keeps it, and
  the route of an event: which appenders get it and what each adds to its destination.
\<close>

subsection \<open>Well-formed states\<close>

text \<open>
  Every pointer designates an object, every formatter that is needed is there, and a logger
  forwards to the root logger, which forwards to none.
\<close>

definition appender_ok :: "log_state \<Rightarrow> nat \<Rightarrow> bool" where
  "appender_ok s p \<longleftrightarrow> p < length (m_appenders s) \<and> ap_formatter (m_appenders s ! p) \<noteq> None"

definition logger_ok :: "log_state \<Rightarrow> logger \<Rightarrow> bool" where
  "logger_ok s g \<longleftrightarrow> lg_formatter g \<noteq> None \<and> (lg_root g = None \<or> lg_root g = Some (m_root s)) \<and>
     (\<forall>p \<in> set (lg_appenders g). appender_ok s p)"

definition log_ok :: "log_state \<Rightarrow> bool" where
  "log_ok s \<longleftrightarrow> m_root s < length (m_logger_objs s) \<and> lg_root (m_logger_objs s ! m_root s) = None \<and>
     (\<forall>g \<in> set (m_logger_objs s). logger_ok s g) \<and>
     (\<forall>(name, l) \<in> set (m_loggers s). l < length (m_logger_objs s))"

text \<open>No operation takes an object away, and an appender that has a formatter keeps one.\<close>

definition grows :: "log_state \<Rightarrow> log_state \<Rightarrow> bool" where
  "grows s s' \<longleftrightarrow> m_root s' = m_root s \<and> (\<forall>p. appender_ok s p \<longrightarrow> appender_ok s' p)"

lemma grows_refl [simp]: "grows s s"
  by (simp add: grows_def)

lemma logger_ok_grows: "logger_ok s g \<Longrightarrow> grows s s' \<Longrightarrow> logger_ok s' g"
  by (auto simp: logger_ok_def grows_def)

lemma log_ok_nth: "log_ok s \<Longrightarrow> l < length (m_logger_objs s) \<Longrightarrow> logger_ok s (m_logger_objs s ! l)"
  by (simp add: log_ok_def)

text \<open>Writing to a logger or to an appender keeps the state well-formed under simple conditions.\<close>

lemma log_ok_upd_logger:
  assumes s: "log_ok s" and g: "logger_ok s (f (m_logger_objs s ! l))"
    and r: "lg_root (f (m_logger_objs s ! l)) = lg_root (m_logger_objs s ! l)"
  shows "log_ok (upd_logger l f s)"
proof -
  let ?s = "upd_logger l f s"
  have "logger_ok ?s x" if "x \<in> set (m_logger_objs ?s)" for x
  proof -
    have "x = f (m_logger_objs s ! l) \<or> x \<in> set (m_logger_objs s)"
      using that set_update_subset_insert [of "m_logger_objs s" l "f (m_logger_objs s ! l)"]
      by (auto simp: upd_logger_def)
    with s g have "logger_ok s x" by (auto simp: log_ok_def)
    then show ?thesis by (simp add: logger_ok_def appender_ok_def upd_logger_def)
  qed
  then show ?thesis using s r
    by (cases "m_root s = l") (auto simp: log_ok_def upd_logger_def nth_list_update)
qed

lemma log_ok_appenders:
  assumes s: "log_ok s" and g: "grows s (s\<lparr>m_appenders := as\<rparr>)"
  shows "log_ok (s\<lparr>m_appenders := as\<rparr>)"
  using s logger_ok_grows [OF _ g] by (auto simp: log_ok_def)

lemma grows_upd_appender:
  assumes "ap_formatter (m_appenders s ! p) \<noteq> None \<Longrightarrow> ap_formatter (f (m_appenders s ! p)) \<noteq> None"
  shows "grows s (upd_appender p f s)"
proof -
  have "appender_ok (upd_appender p f s) q" if q: "appender_ok s q" for q
    using q assms by (cases "q = p") (auto simp: appender_ok_def upd_appender_def)
  then show ?thesis by (simp add: grows_def upd_appender_def)
qed

lemma log_ok_upd_appender:
  assumes "log_ok s"
    and "ap_formatter (m_appenders s ! p) \<noteq> None \<Longrightarrow> ap_formatter (f (m_appenders s ! p)) \<noteq> None"
  shows "log_ok (upd_appender p f s)"
  using log_ok_appenders [OF assms(1)] grows_upd_appender [of s p f] assms(2) by (simp add: upd_appender_def)

lemma log_ok_sink [simp]: "log_ok (s\<lparr>sink := x\<rparr>) = log_ok s"
  by (simp add: log_ok_def logger_ok_def appender_ok_def)

lemma log_ok_register:
  "log_ok s \<Longrightarrow> l < length (m_logger_objs s) \<Longrightarrow> log_ok (s\<lparr>m_loggers := map_put name l (m_loggers s)\<rparr>)"
proof -
  have "set (map_put name l xs) \<subseteq> insert (name, l) (set xs)" for xs :: "(string \<times> nat) list"
    by (induction xs) auto
  then show "log_ok s \<Longrightarrow> l < length (m_logger_objs s) \<Longrightarrow> log_ok (s\<lparr>m_loggers := map_put name l (m_loggers s)\<rparr>)"
    by (fastforce simp: log_ok_def logger_ok_def appender_ok_def)
qed

lemma upd_logger_simps [simp]:
  "m_root (upd_logger l f s) = m_root s" "m_appenders (upd_logger l f s) = m_appenders s"
  "m_loggers (upd_logger l f s) = m_loggers s" "sink (upd_logger l f s) = sink s"
  "length (m_logger_objs (upd_logger l f s)) = length (m_logger_objs s)"
  "l' \<noteq> l \<Longrightarrow> m_logger_objs (upd_logger l f s) ! l' = m_logger_objs s ! l'"
  "l < length (m_logger_objs s) \<Longrightarrow> m_logger_objs (upd_logger l f s) ! l = f (m_logger_objs s ! l)"
  by (simp_all add: upd_logger_def)

lemma upd_appender_simps [simp]:
  "m_root (upd_appender p f s) = m_root s" "m_logger_objs (upd_appender p f s) = m_logger_objs s"
  "m_loggers (upd_appender p f s) = m_loggers s" "sink (upd_appender p f s) = sink s"
  "length (m_appenders (upd_appender p f s)) = length (m_appenders s)"
  "q \<noteq> p \<Longrightarrow> m_appenders (upd_appender p f s) ! q = m_appenders s ! q"
  "p < length (m_appenders s) \<Longrightarrow> m_appenders (upd_appender p f s) ! p = f (m_appenders s ! p)"
  by (simp_all add: upd_appender_def)

subsection \<open>Each operation keeps the state well-formed\<close>

lemma make_logger_ok:
  assumes "log_ok s" "root = None \<or> root = Some (m_root s)" "make_logger name root s = (l, s')"
  shows "log_ok s' \<and> l = length (m_logger_objs s) \<and> length (m_logger_objs s') = Suc l"
  using assms
  by (auto simp: log_ok_def logger_ok_def appender_ok_def make_logger_def new_logger_def nth_append
      less_Suc_eq)

lemma getLogger_ok:
  assumes s: "log_ok s" and g: "getLogger name s = (l, s')"
  shows "log_ok s' \<and> l < length (m_logger_objs s')"
proof (cases "map_of (m_loggers s) name")
  case None
  obtain s1 where m: "make_logger name (Some (m_root s)) s = (l, s1)"
    and s': "s' = s1\<lparr>m_loggers := map_put name l (m_loggers s1)\<rparr>"
    using g None by (auto simp: getLogger_def split: prod.splits)
  from make_logger_ok [OF s _ m] show ?thesis using log_ok_register [of s1 l name] s' by simp
next
  case (Some k)
  with g have "l = k" "s' = s" by (auto simp: getLogger_def)
  with Some s show ?thesis by (auto simp: log_ok_def dest: map_of_SomeD)
qed

lemma storeLogger_ok:
  "log_ok s \<Longrightarrow> l < length (m_logger_objs s) \<Longrightarrow> log_ok (snd (storeLogger label l s))"
  by (simp add: storeLogger_def log_ok_register)

lemma Logger_setLevel_ok: "log_ok s \<Longrightarrow> l < length (m_logger_objs s) \<Longrightarrow> log_ok (Logger_setLevel l v s)"
  unfolding Logger_setLevel_def
  by (rule log_ok_upd_logger) (auto dest: log_ok_nth [of s l] simp: logger_ok_def)

lemma share_ok:
  "log_ok s \<Longrightarrow> log_ok (fold (\<lambda>p. upd_appender p (share_formatter (Some fm))) ps s)"
proof (induction ps arbitrary: s)
  case (Cons p ps)
  from Cons.prems have "log_ok (upd_appender p (share_formatter (Some fm)) s)"
    by (rule log_ok_upd_appender) (simp add: share_formatter_def)
  with Cons.IH show ?case by simp
qed simp

lemma Logger_setFormatter_ptr_ok:
  "log_ok s \<Longrightarrow> l < length (m_logger_objs s) \<Longrightarrow> log_ok (Logger_setFormatter_ptr l (Some fm) s)"
  unfolding Logger_setFormatter_ptr_def
  by (intro share_ok log_ok_upd_logger) (auto dest: log_ok_nth [of s l] simp: logger_ok_def)

lemma Logger_setFormatter_ok:
  "log_ok s \<Longrightarrow> l < length (m_logger_objs s) \<Longrightarrow> log_ok (Logger_setFormatter l val s)"
  by (simp add: Logger_setFormatter_def Let_def Logger_setFormatter_ptr_ok)

lemma clearAppenders_ok:
  "log_ok s \<Longrightarrow> l < length (m_logger_objs s) \<Longrightarrow> log_ok (clearAppenders l s)"
  unfolding clearAppenders_def
  by (rule log_ok_upd_logger) (auto dest: log_ok_nth [of s l] simp: logger_ok_def)

lemma delAppender_ok:
  "log_ok s \<Longrightarrow> l < length (m_logger_objs s) \<Longrightarrow> log_ok (delAppender l p s)"
  unfolding delAppender_def
  by (rule log_ok_upd_logger) (auto dest: log_ok_nth [of s l] simp: logger_ok_def dest!: set_remove1_subset [THEN subsetD])

lemma addAppender_ok:
  assumes s: "log_ok s" and l: "l < length (m_logger_objs s)" and p: "p < length (m_appenders s)"
  shows "log_ok (addAppender l p s)"
proof -
  define s1 where "s1 = (if ap_formatter (m_appenders s ! p) = None
      then upd_appender p (\<lambda>a. a\<lparr>ap_formatter := lg_formatter (m_logger_objs s ! l)\<rparr>) s else s)"
  have 1: "log_ok s1" unfolding s1_def using s by (auto intro!: log_ok_upd_appender)
  have 2: "m_logger_objs s1 = m_logger_objs s" by (simp add: s1_def)
  have 3: "appender_ok s1 p" using log_ok_nth [OF s l] p by (auto simp: s1_def appender_ok_def logger_ok_def)
  show ?thesis unfolding addAppender_def Let_def s1_def [symmetric]
    using log_ok_nth [OF 1, of l] 2 3 l
    by (intro log_ok_upd_logger [OF 1]) (auto simp: logger_ok_def)
qed

lemma make_appender_ok:
  assumes s: "log_ok s" and m: "make_appender opens d s = (p, s')"
  shows "log_ok s' \<and> p = length (m_appenders s) \<and> length (m_appenders s') = Suc p"
proof -
  have "grows s (s\<lparr>m_appenders := m_appenders s @ [new_appender opens d]\<rparr>)"
    by (auto simp: grows_def appender_ok_def nth_append)
  from log_ok_appenders [OF s this] m show ?thesis by (auto simp: make_appender_def)
qed

lemma LogAppender_setFormatter_ok:
  "log_ok s \<Longrightarrow> log_ok (upd_appender p (LogAppender_setFormatter (Some fm)) s)"
  by (rule log_ok_upd_appender) (auto simp: LogAppender_setFormatter_def)

lemma LogAppender_setLevel_ok:
  "log_ok s \<Longrightarrow> log_ok (upd_appender p (LogAppender_setLevel v) s)"
  by (rule log_ok_upd_appender) (auto simp: LogAppender_setLevel_def)

lemma LoggerManager_new_ok: "log_ok (LoggerManager_new opens)"
  by (simp add: LoggerManager_new_def make_logger_def make_appender_def addAppender_def new_appender_def
      new_logger_def upd_logger_def upd_appender_def log_ok_def logger_ok_def appender_ok_def Let_def)

subsection \<open>Logging\<close>

text \<open>The appenders an event of a level goes to.\<close>

definition route :: "log_state \<Rightarrow> nat \<Rightarrow> Level \<Rightarrow> nat list" where
  "route s l level =
     (let g = m_logger_objs s ! l in
      if \<not> lg_level g \<le> level then []
      else if lg_appenders g \<noteq> [] then lg_appenders g
      else case lg_root g of
             None \<Rightarrow> []
           | Some r \<Rightarrow> (if lg_level (m_logger_objs s ! r) \<le> level
                       then lg_appenders (m_logger_objs s ! r) else []))"

lemma Logger_log_route:
  assumes s: "log_ok s" and l: "l < length (m_logger_objs s)"
  shows "Logger_log (n + 2) opens tm l level e s = Some (appenders_log opens tm (route s l level) level e s)"
proof -
  have "lg_root (m_logger_objs s ! l) = None \<or> lg_root (m_logger_objs s ! l) = Some (m_root s)"
    using log_ok_nth [OF s l] by (simp add: logger_ok_def)
  moreover have "lg_root (m_logger_objs s ! m_root s) = None" using s by (simp add: log_ok_def)
  ultimately show ?thesis by (auto simp: route_def Let_def)
qed

lemma route_ok:
  assumes s: "log_ok s" and l: "l < length (m_logger_objs s)" and p: "p \<in> set (route s l level)"
  shows "appender_ok s p"
proof -
  have r: "m_root s < length (m_logger_objs s)" using s by (simp add: log_ok_def)
  from log_ok_nth [OF s l] log_ok_nth [OF s r] p show ?thesis
    by (auto simp: route_def Let_def logger_ok_def split: if_splits)
qed

text \<open>Whether an appender's stream takes what is logged now, and where it writes.\<close>

definition stream_ok :: "(string \<Rightarrow> bool) \<Rightarrow> log_event \<Rightarrow> appender \<Rightarrow> bool" where
  "stream_ok opens e a =
     (case ap_dest a of
        StdoutLogAppender \<Rightarrow> True
      | FileLogAppender f \<Rightarrow>
          if ap_lastTime a + 3 \<le> ucast (getTime e) then opens f else ap_open a)"

definition place :: "appender \<Rightarrow> string option" where
  "place a = (case ap_dest a of StdoutLogAppender \<Rightarrow> None | FileLogAppender f \<Rightarrow> Some f)"

definition written ::
    "(string \<Rightarrow> bool) \<Rightarrow> (string \<Rightarrow> 32 word \<Rightarrow> string) \<Rightarrow> Level \<Rightarrow> log_event \<Rightarrow> appender \<Rightarrow> string" where
  "written opens tm level e a =
     (if ap_level a \<le> level \<and> stream_ok opens e a
      then LogFormatter_format tm (the (ap_formatter a)) level e else [])"

lemma not_due_again: "\<not> (ucast x + 3 :: 64 word) \<le> ucast (x :: 32 word)"
proof -
  have x: "unat x < 2 ^ 32" using unsigned_less [of x] by simp
  then have u: "unat (ucast x :: 64 word) = unat x"
    by (simp add: unsigned_ucast_eq take_bit_nat_eq_self)
  with x have "unat (ucast x + 3 :: 64 word) = unat x + 3"
    by (simp add: unat_word_ariths)
  with u show ?thesis by (simp add: word_le_nat_alt)
qed

lemma reopen_when_due_spec:
  assumes "ap_dest a = FileLogAppender f"
  shows "stream_ok opens e (reopen_when_due opens f e a) = stream_ok opens e a"
    and "ap_open (reopen_when_due opens f e a) = stream_ok opens e a"
  using assms not_due_again [of "getTime e"]
  by (auto simp: stream_ok_def reopen_when_due_def reopen_def Let_def)

lemma reopen_when_due_frame [simp]:
  "ap_dest (reopen_when_due opens f e a) = ap_dest a"
  "ap_formatter (reopen_when_due opens f e a) = ap_formatter a"
  "ap_level (reopen_when_due opens f e a) = ap_level a"
  by (simp_all add: reopen_when_due_def reopen_def Let_def)

text \<open>What logging one event leaves as it is, as far as writing that event is concerned.\<close>

definition same_routes ::
    "(string \<Rightarrow> bool) \<Rightarrow> (string \<Rightarrow> 32 word \<Rightarrow> string) \<Rightarrow> Level \<Rightarrow> log_event \<Rightarrow> log_state \<Rightarrow> log_state \<Rightarrow> bool"
  where
  "same_routes opens tm level e s s' \<longleftrightarrow>
     m_root s' = m_root s \<and> m_logger_objs s' = m_logger_objs s \<and> m_loggers s' = m_loggers s \<and>
     (\<forall>q. appender_ok s q \<longrightarrow> appender_ok s' q \<and>
        written opens tm level e (m_appenders s' ! q) = written opens tm level e (m_appenders s ! q) \<and>
        place (m_appenders s' ! q) = place (m_appenders s ! q))"

lemma same_routes_refl [simp]: "same_routes opens tm level e s s"
  by (simp add: same_routes_def)

lemma same_routes_trans:
  "same_routes opens tm level e s s1 \<Longrightarrow> same_routes opens tm level e s1 s2 \<Longrightarrow> same_routes opens tm level e s s2"
  by (simp add: same_routes_def)

lemma same_routes_sink [simp]: "same_routes opens tm level e s (write_sink d w s1) = same_routes opens tm level e s s1"
  by (simp add: same_routes_def write_sink_def appender_ok_def)

lemma same_routes_reopen:
  assumes "ap_dest (m_appenders s ! p) = FileLogAppender f"
  shows "same_routes opens tm level e s (upd_appender p (reopen_when_due opens f e) s)"
proof -
  let ?t = "upd_appender p (reopen_when_due opens f e) s"
  have "appender_ok ?t q \<and> written opens tm level e (m_appenders ?t ! q) = written opens tm level e (m_appenders s ! q) \<and>
      place (m_appenders ?t ! q) = place (m_appenders s ! q)" if q: "appender_ok s q" for q
    using q reopen_when_due_spec(1) [OF assms, of opens e]
    by (cases "q = p") (auto simp: appender_ok_def written_def place_def)
  then show ?thesis by (simp add: same_routes_def)
qed

lemma appender_log_spec:
  assumes p: "appender_ok s p"
  shows "\<exists>s'. appender_log opens tm p level e s = Inr s' \<and> same_routes opens tm level e s s' \<and>
    (\<forall>d. sink s' d = sink s d @
      (if place (m_appenders s ! p) = d then written opens tm level e (m_appenders s ! p) else []))"
proof -
  from p obtain fm where fm: "ap_formatter (m_appenders s ! p) = Some fm" and l: "p < length (m_appenders s)"
    by (auto simp: appender_ok_def)
  show ?thesis
  proof (cases "ap_level (m_appenders s ! p) \<le> level")
    case False
    then show ?thesis
      by (simp add: appender_log_def StdoutLogAppender_log_def FileLogAppender_log_def written_def
          split: destination.split)
  next
    case True
    show ?thesis
    proof (cases "ap_dest (m_appenders s ! p)")
      case StdoutLogAppender
      with True fm show ?thesis
        by (simp add: appender_log_def StdoutLogAppender_log_def written_def stream_ok_def place_def) (simp add: write_sink_def)
    next
      case (FileLogAppender f)
      note o = reopen_when_due_spec(2) [OF FileLogAppender, of opens e]
      from True fm l FileLogAppender o same_routes_reopen [OF FileLogAppender, of opens tm level e] show ?thesis
        by (simp add: appender_log_def FileLogAppender_log_def Let_def written_def place_def) (simp add: write_sink_def)
    qed
  qed
qed

lemma appenders_log_spec:
  "\<forall>p \<in> set ps. appender_ok s p \<Longrightarrow>
   \<exists>s'. appenders_log opens tm ps level e s = Inr s' \<and> same_routes opens tm level e s s' \<and>
    (\<forall>d. sink s' d = sink s d @ concat (map (written opens tm level e)
      (filter (\<lambda>a. place a = d) (map ((!) (m_appenders s)) ps))))"
proof (induction ps arbitrary: s)
  case Nil
  then show ?case by simp
next
  case (Cons p ps)
  then obtain s1 where s1: "appender_log opens tm p level e s = Inr s1" "same_routes opens tm level e s s1"
    "\<forall>d. sink s1 d = sink s d @
      (if place (m_appenders s ! p) = d then written opens tm level e (m_appenders s ! p) else [])"
    using appender_log_spec by (metis list.set_intros(1))
  from Cons.prems s1(2) have "\<forall>q \<in> set ps. appender_ok s1 q" by (simp add: same_routes_def)
  from Cons.IH [OF this] obtain s2 where
    s2: "appenders_log opens tm ps level e s1 = Inr s2" "same_routes opens tm level e s1 s2"
    "\<forall>d. sink s2 d = sink s1 d @ concat (map (written opens tm level e)
      (filter (\<lambda>a. place a = d) (map ((!) (m_appenders s1)) ps)))" by blast
  have "concat (map (written opens tm level e) (filter (\<lambda>a. place a = d) (map ((!) (m_appenders s1)) qs))) =
      concat (map (written opens tm level e) (filter (\<lambda>a. place a = d) (map ((!) (m_appenders s)) qs)))"
    if "\<forall>q \<in> set qs. appender_ok s q" for qs d
    using that s1(2) by (induction qs) (auto simp: same_routes_def)
  with Cons.prems s1 s2 same_routes_trans [OF s1(2) s2(2)] show ?case by auto
qed

end
