(* ===== verification/LoggerRoutes.thy ===== *)
theory LoggerRoutes
  imports LoggerSpecs
begin

section \<open>Every reachable logging state delivers\<close>

text \<open>
  The states the operations of \<open>Loggers\<close> can reach are well-formed, and in them logging an event
  returns and writes exactly what \<open>LoggerSpecs\<close> says.
\<close>

lemma log_ok_same_routes:
  assumes "log_ok s" "same_routes opens tm level e s s'"
  shows "log_ok s'"
proof -
  have "grows s s'" using assms(2) by (simp add: same_routes_def grows_def)
  from logger_ok_grows [OF _ this] assms show ?thesis by (auto simp: log_ok_def same_routes_def)
qed

lemma Logger_log_ok:
  assumes "log_ok s"
  shows "Logger_log n opens tm l level e s = Some (Inr s') \<Longrightarrow> l < length (m_logger_objs s) \<Longrightarrow> log_ok s'"
proof (induction n arbitrary: l)
  case 0
  then show ?case by simp
next
  case (Suc n)
  let ?g = "m_logger_objs s ! l"
  have g: "logger_ok s ?g" using log_ok_nth [OF assms Suc.prems(2)] .
  consider "s' = s" | "appenders_log opens tm (lg_appenders ?g) level e s = Inr s'"
    | r where "lg_root ?g = Some r" "Logger_log n opens tm r level e s = Some (Inr s')"
    using Suc.prems(1) by (auto simp: Let_def split: if_splits option.splits)
  then show ?case
  proof cases
    case 1
    with assms show ?thesis by simp
  next
    case 2
    from g have "\<forall>p \<in> set (lg_appenders ?g). appender_ok s p" by (simp add: logger_ok_def)
    from appenders_log_spec [OF this, of opens tm level e] 2 log_ok_same_routes [OF assms] show ?thesis by auto
  next
    case 3
    with g have "r = m_root s" by (auto simp: logger_ok_def)
    with 3 Suc.IH assms show ?thesis by (auto simp: log_ok_def)
  qed
qed

lemma event_level [simp]: "ev_level (LogEvent_format r e) = ev_level e"
  by (simp add: LogEvent_format_def split: option.split)

lemma new_event_level [simp]: "ev_level (LogEvent_new nm level f ln el ti fi tm tn) = level"
  by (simp add: LogEvent_new_def)

lemma log_macro_ok:
  "log_ok s \<Longrightarrow> log_macro n opens tm l level e s = Some (Inr s') \<Longrightarrow> l < length (m_logger_objs s) \<Longrightarrow> log_ok s'"
  by (auto simp: log_macro_def LogEventWrap_delete_def dest: Logger_log_ok split: if_splits)

lemma config_appender_ok:
  assumes s: "log_ok s" and l: "l < length (m_logger_objs s)" and c: "config_appender opens l a s = Inr s'"
  shows "log_ok s' \<and> length (m_logger_objs s') = length (m_logger_objs s)"
proof -
  obtain p s1 where m: "make_appender opens
      (if lad_type a = 1 then FileLogAppender (lad_file a) else StdoutLogAppender) s = (p, s1)"
    by (rule prod.exhaust)
  define s2 where "s2 = upd_appender p (LogAppender_setLevel (lad_level a)) s1"
  define s3 where "s3 = (if lad_formatter a \<noteq> [] \<and> \<not> m_error (LogFormatter (lad_formatter a))
    then upd_appender p (LogAppender_setFormatter (Some (LogFormatter (lad_formatter a)))) s2 else s2)"
  have s': "s' = addAppender l p s3"
    using c m by (auto simp: config_appender_def s2_def s3_def Let_def split: if_splits)
  from make_appender_ok [OF s m] have 1: "log_ok s1" "p < length (m_appenders s1)" by auto
  have o: "m_logger_objs s1 = m_logger_objs s" using m by (auto simp: make_appender_def)
  from 1 have 3: "log_ok s3" "p < length (m_appenders s3)" "m_logger_objs s3 = m_logger_objs s"
    using o by (auto simp: s2_def s3_def LogAppender_setLevel_ok LogAppender_setFormatter_ok)
  with addAppender_ok [of s3 l p] l show ?thesis by (simp add: s' addAppender_def Let_def)
qed

lemma config_appenders_ok:
  "log_ok s \<Longrightarrow> l < length (m_logger_objs s) \<Longrightarrow> config_appenders opens l as s = Inr s' \<Longrightarrow>
   log_ok s' \<and> length (m_logger_objs s') = length (m_logger_objs s)"
proof (induction as arbitrary: s)
  case (Cons a as)
  then obtain s1 where s1: "config_appender opens l a s = Inr s1" "config_appenders opens l as s1 = Inr s'"
    by auto
  from config_appender_ok [OF Cons.prems(1,2) s1(1)] Cons.IH [OF _ _ s1(2)] Cons.prems(2) show ?case by auto
qed simp

lemma config_logger_ok:
  assumes s: "log_ok s" and c: "config_logger opens i s = Inr s'"
  shows "log_ok s'"
proof -
  obtain l s1 where g: "getLogger (ld_name i) s = (l, s1)" by (rule prod.exhaust)
  from getLogger_ok [OF s g] have 1: "log_ok s1" "l < length (m_logger_objs s1)" by auto
  define s2 where "s2 = Logger_setLevel l (ld_level i) s1"
  have 2: "log_ok s2" "l < length (m_logger_objs s2)"
    using 1 Logger_setLevel_ok by (auto simp: s2_def) (simp add: Logger_setLevel_def)
  define s3 where "s3 = (if ld_formatter i \<noteq> [] then Logger_setFormatter l (ld_formatter i) s2 else s2)"
  have objs: "length (m_logger_objs (fold (\<lambda>p. upd_appender p f) ps t)) = length (m_logger_objs t)" for f ps t
    by (induction ps arbitrary: t) simp_all
  have 3: "log_ok s3" "l < length (m_logger_objs s3)"
    using 2 Logger_setFormatter_ok
    by (auto simp: s3_def) (simp add: Logger_setFormatter_def Logger_setFormatter_ptr_def Let_def objs)
  have "log_ok (clearAppenders l s3)" "l < length (m_logger_objs (clearAppenders l s3))"
    using 3 clearAppenders_ok by auto (simp add: clearAppenders_def)
  moreover have "config_appenders opens l (ld_appenders i) (clearAppenders l s3) = Inr s'"
    using c unfolding config_logger_def g Let_def prod.case s2_def s3_def .
  ultimately show ?thesis using config_appenders_ok by blast
qed

lemma config_changed_ok:
  "log_ok s \<Longrightarrow> config_changed opens old is s = Inr s' \<Longrightarrow> log_ok s'"
proof (induction "is" arbitrary: s)
  case (Cons i "is")
  then show ?case by (auto split: if_splits dest: config_logger_ok)
qed simp

lemma config_deleted_ok: "log_ok s \<Longrightarrow> log_ok (config_deleted new i s)"
proof -
  assume s: "log_ok s"
  obtain l s1 where g: "getLogger (ld_name i) s = (l, s1)" by (rule prod.exhaust)
  from getLogger_ok [OF s g] have 1: "log_ok s1" "l < length (m_logger_objs s1)" by auto
  then have "log_ok (Logger_setLevel l UNKNOWN s1)" by (rule Logger_setLevel_ok)
  then have "log_ok (clearAppenders l (Logger_setLevel l UNKNOWN s1))"
    by (rule clearAppenders_ok) (use 1 in \<open>simp add: Logger_setLevel_def\<close>)
  with s g show ?thesis by (simp add: config_deleted_def)
qed

lemma config_deleted_all_ok: "log_ok s \<Longrightarrow> log_ok (fold (config_deleted new) is s)"
  by (induction "is" arbitrary: s) (simp_all add: config_deleted_ok)

lemma log_listener_ok:
  assumes s: "log_ok s" and c: "log_listener n opens tm e old new s = Some (Inr s')"
  shows "log_ok s'"
proof -
  obtain s1 s2 where 1: "log_macro n opens tm (m_root s) INFO (e\<lparr>ev_ss := ''Logger configuration loaded''\<rparr>) s = Some (Inr s1)"
    "config_changed opens old new s1 = Inr s2" "s' = fold (config_deleted new) old s2"
    using c by (auto simp: log_listener_def)
  have "m_root s < length (m_logger_objs s)" using s by (simp add: log_ok_def)
  from log_macro_ok [OF s 1(1) this] have "log_ok s1" .
  from config_changed_ok [OF this 1(2)] 1(3) show ?thesis by (simp add: config_deleted_all_ok)
qed

inductive log_reach :: "log_state \<Rightarrow> bool" where
  start: "log_reach (LoggerManager_new opens)"
| getLogger: "log_reach s \<Longrightarrow> log_reach (snd (getLogger name s))"
| newLogger: "log_reach s \<Longrightarrow> log_reach (snd (make_logger name None s))"
| storeLogger: "log_reach s \<Longrightarrow> l < length (m_logger_objs s) \<Longrightarrow> log_reach (snd (storeLogger label l s))"
| setLevel: "log_reach s \<Longrightarrow> l < length (m_logger_objs s) \<Longrightarrow> log_reach (Logger_setLevel l v s)"
| setFormatter: "log_reach s \<Longrightarrow> l < length (m_logger_objs s) \<Longrightarrow> log_reach (Logger_setFormatter l val s)"
| setFormatter_ptr: "log_reach s \<Longrightarrow> l < length (m_logger_objs s) \<Longrightarrow>
    log_reach (Logger_setFormatter_ptr l (Some fm) s)"
| newAppender: "log_reach s \<Longrightarrow> log_reach (snd (make_appender opens d s))"
| addAppender: "log_reach s \<Longrightarrow> l < length (m_logger_objs s) \<Longrightarrow> p < length (m_appenders s) \<Longrightarrow>
    log_reach (addAppender l p s)"
| delAppender: "log_reach s \<Longrightarrow> l < length (m_logger_objs s) \<Longrightarrow> log_reach (delAppender l p s)"
| clearAppenders: "log_reach s \<Longrightarrow> l < length (m_logger_objs s) \<Longrightarrow> log_reach (clearAppenders l s)"
| appenderFormatter: "log_reach s \<Longrightarrow> log_reach (upd_appender p (LogAppender_setFormatter (Some fm)) s)"
| appenderLevel: "log_reach s \<Longrightarrow> log_reach (upd_appender p (LogAppender_setLevel v) s)"
| log: "log_reach s \<Longrightarrow> l < length (m_logger_objs s) \<Longrightarrow>
    Logger_log n opens tm l level e s = Some (Inr s') \<Longrightarrow> log_reach s'"
| macro: "log_reach s \<Longrightarrow> l < length (m_logger_objs s) \<Longrightarrow>
    log_macro n opens tm l level e s = Some (Inr s') \<Longrightarrow> log_reach s'"
| config: "log_reach s \<Longrightarrow> log_listener n opens tm e old new s = Some (Inr s') \<Longrightarrow> log_reach s'"

lemma log_reach_ok: "log_reach s \<Longrightarrow> log_ok s"
proof (induction rule: log_reach.induct)
  case (getLogger s name)
  then show ?case using getLogger_ok [of s name] by (metis prod.collapse)
next
  case (newLogger s name)
  then show ?case using make_logger_ok [of s None name] by (metis prod.collapse)
next
  case (newAppender s opens d)
  then show ?case using make_appender_ok [of s opens d] by (metis prod.collapse)
qed (auto intro: LoggerManager_new_ok storeLogger_ok Logger_setLevel_ok Logger_setFormatter_ok
  Logger_setFormatter_ptr_ok addAppender_ok delAppender_ok clearAppenders_ok LogAppender_setFormatter_ok
  LogAppender_setLevel_ok Logger_log_ok log_macro_ok log_listener_ok)


text \<open>A new logger without appenders of its own: the event goes to the console of the root logger.\<close>

definition demo_event :: log_event where
  "demo_event = \<lparr>ev_file = ''a.cpp'', ev_line = 7, ev_elapse = 0, ev_threadId = 42, ev_fiberId = 0,
     ev_time = 1000, ev_threadName = ''main'', ev_ss = ''hello'', ev_logger = ''system'', ev_level = INFO\<rparr>"

definition demo_log :: log_state where
  "demo_log = snd (getLogger ''system'' (Logger_setFormatter 0 ''%p %m'' (LoggerManager_new (\<lambda>_. True))))"

lemma demo_pattern:
  "LogFormatter ''%p %m'' =
     \<lparr>m_pattern = ''%p %m'', m_items = [LevelFormatItem, StringFormatItem '' '', MessageFormatItem], m_error = False\<rparr>"
proof -
  have "ref_parse (concat (map show_segment [Spec ''p'' None, Raw '' '', Spec ''m'' None])) [] =
      ([(''p'', [], True), ('' '', [], False), (''m'', [], True)], False)"
    by (subst ref_parse_segments) (simp_all add: flush_def isalpha_def in_name_def)
  then have "init_loop ''%p %m'' 0 [] = ([(''p'', [], True), ('' '', [], False), (''m'', [], True)], False)"
    by (simp add: init_loop_ref)
  then show ?thesis by (simp add: LogFormatter_def make_item_def s_format_items_def)
qed

lemmas logger_defs = LoggerManager_new_def make_logger_def make_appender_def addAppender_def
  new_appender_def new_logger_def upd_logger_def upd_appender_def getLogger_def
  Logger_setFormatter_def Logger_setFormatter_ptr_def share_formatter_def Let_def

lemma demo_log_eq:
  "m_logger_objs demo_log ! 1 = (new_logger ''system'')\<lparr>lg_root := Some 0\<rparr> \<and>
   length (m_logger_objs demo_log) = 2 \<and>
   lg_level (m_logger_objs demo_log ! 0) = DEBUG \<and> lg_appenders (m_logger_objs demo_log ! 0) = [0] \<and>
   m_appenders demo_log ! 0 = \<lparr>ap_dest = StdoutLogAppender, ap_formatter = Some (LogFormatter ''%p %m''),
     ap_level = DEBUG, ap_hasFormatter = False, ap_open = False, ap_lastTime = 0\<rparr> \<and> sink demo_log = (\<lambda>_. [])"
  by (simp add: demo_log_def demo_pattern logger_defs)


end
