(* ===== verification/LoggerConfigs.thy ===== *)
theory LoggerConfigs
  imports LoggerRoutes
begin

section \<open>What a changed configuration does to the loggers\<close>

text \<open>
  The listener of the configuration \<open>logs\<close> works through the new definitions and then the old ones.
  Each definition changes one logger and leaves the others alone (\<open>local\<close>), so what is in force
  afterwards can be read off definition by definition.
\<close>

subsection \<open>Changes to one logger\<close>

abbreviation apps :: "log_state \<Rightarrow> nat \<Rightarrow> nat list" where
  "apps s l \<equiv> lg_appenders (m_logger_objs s ! l)"

text \<open>
  A change of the logger \<open>l\<close>: other loggers stay, and of the appenders that existed only those of \<open>l\<close>
  change; the appenders \<open>l\<close> has afterwards were its own or are new.
\<close>

definition local :: "nat \<Rightarrow> log_state \<Rightarrow> log_state \<Rightarrow> bool" where
  "local l s s' \<longleftrightarrow> m_loggers s' = m_loggers s \<and> length (m_logger_objs s') = length (m_logger_objs s) \<and>
     length (m_appenders s) \<le> length (m_appenders s') \<and>
     (\<forall>l'. l' \<noteq> l \<longrightarrow> m_logger_objs s' ! l' = m_logger_objs s ! l') \<and>
     (\<forall>p < length (m_appenders s). p \<notin> set (apps s l) \<longrightarrow> m_appenders s' ! p = m_appenders s ! p) \<and>
     (\<forall>p \<in> set (apps s' l). p \<in> set (apps s l) \<or> length (m_appenders s) \<le> p)"

lemma local_refl [simp]: "local l s s"
  by (simp add: local_def)

lemma local_trans: "local l s s1 \<Longrightarrow> local l s1 s2 \<Longrightarrow> local l s s2"
proof -
  assume 1: "local l s s1" and 2: "local l s1 s2"
  have "m_appenders s2 ! p = m_appenders s ! p" if "p < length (m_appenders s)" "p \<notin> set (apps s l)" for p
  proof -
    from that 1 have "p \<notin> set (apps s1 l)" "p < length (m_appenders s1)" "m_appenders s1 ! p = m_appenders s ! p"
      by (auto simp: local_def dest: leD)
    with 2 show ?thesis by (simp add: local_def)
  qed
  moreover have "p \<in> set (apps s l) \<or> length (m_appenders s) \<le> p" if "p \<in> set (apps s2 l)" for p
    using that 1 2 by (auto simp: local_def)
  ultimately show ?thesis using 1 2 by (auto simp: local_def)
qed

lemma local_upd_logger:
  assumes "l < length (m_logger_objs s)"
    and "set (lg_appenders (f (m_logger_objs s ! l))) \<subseteq> set (apps s l) \<union> {length (m_appenders s)..}"
  shows "local l s (upd_logger l f s)"
  using assms by (auto simp: local_def)

lemma local_upd_appender: "p \<in> set (apps s l) \<Longrightarrow> local l s (upd_appender p f s)"
  by (auto simp: local_def) (metis upd_appender_simps(6))

lemma local_share:
  "set ps \<subseteq> set (apps s l) \<Longrightarrow> local l s (fold (\<lambda>p. upd_appender p f) ps s)"
proof (induction ps arbitrary: s)
  case (Cons p ps)
  have "local l s (upd_appender p f s)" using Cons.prems by (intro local_upd_appender) auto
  moreover have "local l (upd_appender p f s) (fold (\<lambda>p. upd_appender p f) ps (upd_appender p f s))"
    using Cons.prems by (intro Cons.IH) simp
  ultimately show ?case by (auto intro: local_trans)
qed simp

lemma local_setLevel: "l < length (m_logger_objs s) \<Longrightarrow> local l s (Logger_setLevel l v s)"
  unfolding Logger_setLevel_def by (rule local_upd_logger) auto

lemma local_clear: "l < length (m_logger_objs s) \<Longrightarrow> local l s (clearAppenders l s)"
  unfolding clearAppenders_def by (rule local_upd_logger) auto

lemma local_setFormatter: "l < length (m_logger_objs s) \<Longrightarrow> local l s (Logger_setFormatter l val s)"
proof -
  assume l: "l < length (m_logger_objs s)"
  let ?fm = "Some (LogFormatter val)"
  have "local l s (upd_logger l (\<lambda>g. g\<lparr>lg_formatter := ?fm\<rparr>) s)" by (rule local_upd_logger [OF l]) auto
  moreover have "local l (upd_logger l (\<lambda>g. g\<lparr>lg_formatter := ?fm\<rparr>) s)
      (fold (\<lambda>p. upd_appender p (share_formatter ?fm)) (apps s l) (upd_logger l (\<lambda>g. g\<lparr>lg_formatter := ?fm\<rparr>) s))"
    by (rule local_share) (simp add: l)
  ultimately show ?thesis
    by (auto simp: Logger_setFormatter_def Logger_setFormatter_ptr_def Let_def intro: local_trans)
qed

subsection \<open>Loggers with appenders of their own\<close>

definition own :: "nat \<Rightarrow> log_state \<Rightarrow> bool" where
  "own l s \<longleftrightarrow> (\<forall>l' < length (m_logger_objs s). l' \<noteq> l \<longrightarrow> set (apps s l) \<inter> set (apps s l') = {})"

text \<open>The logger and its appenders are as before.\<close>

definition keeps :: "nat \<Rightarrow> log_state \<Rightarrow> log_state \<Rightarrow> bool" where
  "keeps l s s' \<longleftrightarrow> m_logger_objs s' ! l = m_logger_objs s ! l \<and>
     (\<forall>p \<in> set (apps s l). m_appenders s' ! p = m_appenders s ! p)"

lemma apps_bound: "log_ok s \<Longrightarrow> l < length (m_logger_objs s) \<Longrightarrow> p \<in> set (apps s l) \<Longrightarrow> p < length (m_appenders s)"
  by (auto dest: log_ok_nth simp: logger_ok_def appender_ok_def)

lemma local_own:
  assumes s: "log_ok s" and l: "l < length (m_logger_objs s)" "own l s" and c: "local l s s'"
  shows "own l s'"
proof -
  have "p \<notin> set (apps s' l')" if "l' < length (m_logger_objs s')" "l' \<noteq> l" "p \<in> set (apps s' l)" for l' p
  proof -
    from that c have l': "l' < length (m_logger_objs s)" "apps s' l' = apps s l'" by (auto simp: local_def)
    from that(3) c consider "p \<in> set (apps s l)" | "length (m_appenders s) \<le> p" by (auto simp: local_def)
    then show ?thesis
    proof cases
      case 1
      with l(2) l' that(2) show ?thesis by (auto simp: own_def)
    next
      case 2
      with apps_bound [OF s l'(1), of p] l'(2) show ?thesis by auto
    qed
  qed
  then show ?thesis by (auto simp: own_def)
qed

lemma local_other:
  assumes s: "log_ok s" and l2: "l2 < length (m_logger_objs s)" "l2 \<noteq> l" "own l2 s"
    and l: "l < length (m_logger_objs s)" and c: "local l s s'"
  shows "keeps l2 s s' \<and> own l2 s'"
proof -
  have same: "m_logger_objs s' ! l2 = m_logger_objs s ! l2" using c l2 by (simp add: local_def)
  have d: "p \<notin> set (apps s l)" "p < length (m_appenders s)" if "p \<in> set (apps s l2)" for p
    using that l2 l apps_bound [OF s l2(1)] by (auto simp: own_def)
  then have k: "keeps l2 s s'" using c same by (auto simp: keeps_def local_def)
  have "set (apps s' l2) \<inter> set (apps s' l') = {}" if "l' < length (m_logger_objs s')" "l' \<noteq> l2" for l'
  proof (cases "l' = l")
    case True
    with same d c show ?thesis by (fastforce simp: local_def)
  next
    case False
    then have "m_logger_objs s' ! l' = m_logger_objs s ! l'" "l' < length (m_logger_objs s)"
      using c that by (auto simp: local_def)
    with same l2(3) that(2) show ?thesis by (simp add: own_def)
  qed
  with k show ?thesis by (simp add: own_def)
qed

subsection \<open>The appenders of a definition\<close>

definition view :: "appender \<Rightarrow> string option \<times> Level \<times> formatter option" where
  "view a = (place a, ap_level a, ap_formatter a)"

definition types_ok :: "LogDefine \<Rightarrow> bool" where
  "types_ok i \<longleftrightarrow> (\<forall>a \<in> set (ld_appenders i). lad_type a = 1 \<or> lad_type a = 2)"

text \<open>An appender as defined, where \<open>fm\<close> is the formatter of its logger.\<close>

definition defined_view ::
    "formatter option \<Rightarrow> LogAppenderDefine \<Rightarrow> string option \<times> Level \<times> formatter option" where
  "defined_view fm a =
     (if lad_type a = 1 then Some (lad_file a) else None, lad_level a,
      if lad_formatter a \<noteq> [] \<and> \<not> m_error (LogFormatter (lad_formatter a))
      then Some (LogFormatter (lad_formatter a)) else fm)"

lemma config_appender_view:
  assumes l: "l < length (m_logger_objs s)" and t: "lad_type a = 1 \<or> lad_type a = 2"
  shows "\<exists>s'. config_appender opens l a s = Inr s' \<and> local l s s' \<and>
    m_logger_objs s' ! l = (m_logger_objs s ! l)\<lparr>lg_appenders := apps s l @ [length (m_appenders s)]\<rparr> \<and>
    length (m_appenders s') = Suc (length (m_appenders s)) \<and>
    (\<forall>p < length (m_appenders s). m_appenders s' ! p = m_appenders s ! p) \<and>
    view (m_appenders s' ! length (m_appenders s)) = defined_view (lg_formatter (m_logger_objs s ! l)) a"
proof -
  define d where "d = (if lad_type a = 1 then FileLogAppender (lad_file a) else StdoutLogAppender)"
  define p where "p = length (m_appenders s)"
  define x where "x = (LogAppender_setLevel (lad_level a) (new_appender opens d))"
  define fmt where "fmt = LogFormatter (lad_formatter a)"
  define y where "y = (if lad_formatter a \<noteq> [] \<and> \<not> m_error fmt then LogAppender_setFormatter (Some fmt) x else x)"
  define z where "z = (if ap_formatter y = None then y\<lparr>ap_formatter := lg_formatter (m_logger_objs s ! l)\<rparr> else y)"
  have u: "upd_appender p f (s\<lparr>m_appenders := m_appenders s @ [v]\<rparr>) = s\<lparr>m_appenders := m_appenders s @ [f v]\<rparr>"
    "(m_appenders s @ [v]) ! p = v" for f v by (simp_all add: upd_appender_def p_def)
  have "config_appender opens l a s = Inr (upd_logger l (\<lambda>g. g\<lparr>lg_appenders := lg_appenders g @ [p]\<rparr>)
      (s\<lparr>m_appenders := m_appenders s @ [z]\<rparr>))"
    using t by (simp add: config_appender_def make_appender_def addAppender_def Let_def u
        d_def [symmetric] p_def [symmetric] x_def [symmetric] fmt_def [symmetric] y_def z_def)
  moreover have "local l s (upd_logger l (\<lambda>g. g\<lparr>lg_appenders := lg_appenders g @ [p]\<rparr>)
      (s\<lparr>m_appenders := m_appenders s @ [z]\<rparr>))"
    using l by (auto simp: local_def p_def nth_append upd_logger_def nth_list_update)
  moreover have "view z = defined_view (lg_formatter (m_logger_objs s ! l)) a"
    using t by (auto simp: view_def defined_view_def z_def y_def x_def d_def fmt_def place_def
        LogAppender_setLevel_def LogAppender_setFormatter_def new_appender_def reopen_def Let_def)
  ultimately show ?thesis using l by (auto simp: p_def nth_append upd_logger_def)
qed

lemma config_appenders_view:
  assumes "l < length (m_logger_objs s)" "\<forall>a \<in> set as. lad_type a = 1 \<or> lad_type a = 2"
    "\<forall>p \<in> set (apps s l). p < length (m_appenders s)"
  shows "\<exists>s'. config_appenders opens l as s = Inr s' \<and> local l s s' \<and>
    lg_level (m_logger_objs s' ! l) = lg_level (m_logger_objs s ! l) \<and>
    lg_formatter (m_logger_objs s' ! l) = lg_formatter (m_logger_objs s ! l) \<and>
    map (\<lambda>p. view (m_appenders s' ! p)) (apps s' l) =
      map (\<lambda>p. view (m_appenders s ! p)) (apps s l)
      @ map (defined_view (lg_formatter (m_logger_objs s ! l))) as"
  using assms
proof (induction as arbitrary: s)
  case Nil
  then show ?case by simp
next
  case (Cons a as)
  from Cons.prems(2) have t: "lad_type a = 1 \<or> lad_type a = 2" by simp
  from config_appender_view [OF Cons.prems(1) t, of opens] obtain s1 where
    c: "config_appender opens l a s = Inr s1" "local l s s1"
    and g: "m_logger_objs s1 ! l = (m_logger_objs s ! l)\<lparr>lg_appenders := apps s l @ [length (m_appenders s)]\<rparr>"
    and n: "length (m_appenders s1) = Suc (length (m_appenders s))"
    and old: "\<forall>p < length (m_appenders s). m_appenders s1 ! p = m_appenders s ! p"
    and v: "view (m_appenders s1 ! length (m_appenders s)) = defined_view (lg_formatter (m_logger_objs s ! l)) a"
    by blast
  have l: "l < length (m_logger_objs s1)" using c(2) Cons.prems(1) by (simp add: local_def)
  have "\<forall>p \<in> set (apps s1 l). p < length (m_appenders s1)" using Cons.prems(3) by (auto simp: g n)
  from Cons.IH [OF l _ this] Cons.prems(2) obtain s2 where
    c2: "config_appenders opens l as s1 = Inr s2" "local l s1 s2"
    and g2: "lg_level (m_logger_objs s2 ! l) = lg_level (m_logger_objs s1 ! l)"
      "lg_formatter (m_logger_objs s2 ! l) = lg_formatter (m_logger_objs s1 ! l)"
    and v2: "map (\<lambda>p. view (m_appenders s2 ! p)) (apps s2 l) =
      map (\<lambda>p. view (m_appenders s1 ! p)) (apps s1 l)
      @ map (defined_view (lg_formatter (m_logger_objs s1 ! l))) as"
    by auto
  have "map (\<lambda>p. view (m_appenders s1 ! p)) (apps s l) = map (\<lambda>p. view (m_appenders s ! p)) (apps s l)"
    using old Cons.prems(3) by auto
  then have "map (\<lambda>p. view (m_appenders s2 ! p)) (apps s2 l) =
      map (\<lambda>p. view (m_appenders s ! p)) (apps s l)
      @ map (defined_view (lg_formatter (m_logger_objs s ! l))) (a # as)"
    unfolding v2 by (simp add: g v)
  with c c2 g g2 show ?case by (auto intro: local_trans)
qed

subsection \<open>One definition\<close>

text \<open>The logger \<open>l\<close> is as the definition says.\<close>

definition configured :: "LogDefine \<Rightarrow> log_state \<Rightarrow> nat \<Rightarrow> bool" where
  "configured i s l \<longleftrightarrow> lg_level (m_logger_objs s ! l) = ld_level i \<and>
     (ld_formatter i \<noteq> [] \<and> \<not> m_error (LogFormatter (ld_formatter i)) \<longrightarrow>
        lg_formatter (m_logger_objs s ! l) = Some (LogFormatter (ld_formatter i))) \<and>
     map (\<lambda>p. view (m_appenders s ! p)) (apps s l) =
       map (defined_view (lg_formatter (m_logger_objs s ! l))) (ld_appenders i)"

definition silenced :: "log_state \<Rightarrow> nat \<Rightarrow> bool" where
  "silenced s l \<longleftrightarrow> lg_level (m_logger_objs s ! l) = UNKNOWN \<and> apps s l = []"

lemma configured_keeps: "keeps l s s' \<Longrightarrow> configured i s l \<Longrightarrow> configured i s' l"
  by (auto simp: keeps_def configured_def cong: map_cong)

lemma silenced_keeps: "keeps l s s' \<Longrightarrow> silenced s l \<Longrightarrow> silenced s' l"
  by (simp add: keeps_def silenced_def)

lemma Logger_setFormatter_objs:
  assumes "l < length (m_logger_objs s)"
  shows "m_logger_objs (Logger_setFormatter l val s) ! l =
    (if m_error (LogFormatter val) then m_logger_objs s ! l
     else (m_logger_objs s ! l)\<lparr>lg_formatter := Some (LogFormatter val)\<rparr>)"
proof -
  have "m_logger_objs (fold (\<lambda>p. upd_appender p f) ps t) = m_logger_objs t" for f ps t
    by (induction ps arbitrary: t) simp_all
  with assms show ?thesis by (simp add: Logger_setFormatter_def Logger_setFormatter_ptr_def Let_def)
qed

text \<open>Configuring or silencing the logger \<open>l\<close> once it is known.\<close>

lemma configure_local:
  assumes s: "log_ok s" and l: "l < length (m_logger_objs s)" and t: "types_ok i"
  shows "\<exists>s'. config_appenders opens l (ld_appenders i)
      (clearAppenders l
        (if ld_formatter i \<noteq> [] then Logger_setFormatter l (ld_formatter i) (Logger_setLevel l (ld_level i) s)
         else Logger_setLevel l (ld_level i) s)) = Inr s' \<and>
    local l s s' \<and> configured i s' l \<and> own l s'"
proof -
  define s2 where "s2 = Logger_setLevel l (ld_level i) s"
  define s3 where "s3 = (if ld_formatter i \<noteq> [] then Logger_setFormatter l (ld_formatter i) s2 else s2)"
  have 2: "local l s s2" "log_ok s2" "l < length (m_logger_objs s2)"
    using l s by (auto simp: s2_def local_setLevel Logger_setLevel_ok) (simp add: Logger_setLevel_def)
  have 3: "local l s2 s3" "log_ok s3"
    using 2 by (auto simp: s3_def local_setFormatter Logger_setFormatter_ok)
  then have l3: "l < length (m_logger_objs s3)" using 2 by (simp add: local_def)
  have g3: "lg_level (m_logger_objs s3 ! l) = ld_level i"
    "ld_formatter i \<noteq> [] \<Longrightarrow> \<not> m_error (LogFormatter (ld_formatter i)) \<Longrightarrow>
      lg_formatter (m_logger_objs s3 ! l) = Some (LogFormatter (ld_formatter i))"
    using 2(3) l by (auto simp: s3_def Logger_setFormatter_objs) (simp_all add: s2_def Logger_setLevel_def)
  define s4 where "s4 = clearAppenders l s3"
  have 4: "local l s3 s4" "log_ok s4" "l < length (m_logger_objs s4)"
    using 3 l3 local_clear clearAppenders_ok by (auto simp: s4_def) (simp add: clearAppenders_def)
  have g4: "m_logger_objs s4 ! l = (m_logger_objs s3 ! l)\<lparr>lg_appenders := []\<rparr>"
    using l3 by (simp add: s4_def clearAppenders_def)
  from config_appenders_view [OF 4(3), of "ld_appenders i" opens] t g4 obtain s5 where
    s5: "config_appenders opens l (ld_appenders i) s4 = Inr s5" "local l s4 s5"
    and "lg_level (m_logger_objs s5 ! l) = ld_level i"
      "lg_formatter (m_logger_objs s5 ! l) = lg_formatter (m_logger_objs s3 ! l)"
      "map (\<lambda>p. view (m_appenders s5 ! p)) (apps s5 l) =
        map (defined_view (lg_formatter (m_logger_objs s3 ! l))) (ld_appenders i)"
    by (auto simp: types_ok_def g3)
  then have "configured i s5 l" using g3 by (simp add: configured_def)
  moreover have "own l s4" by (simp add: own_def g4)
  with local_own [OF 4(2,3) _ s5(2)] have "own l s5" .
  moreover have "local l s s5"
    by (rule local_trans [OF local_trans [OF local_trans [OF 2(1) 3(1)] 4(1)] s5(2)])
  ultimately show ?thesis using s5(1) by (auto simp: s4_def s3_def s2_def)
qed

subsection \<open>Loggers by name\<close>

lemma map_of_map_put [simp]: "map_of (map_put k v xs) = (map_of xs)(k \<mapsto> v)"
  by (induction xs) (auto simp: fun_upd_twist)

text \<open>
  The operation worked on the logger \<open>l\<close>, registered as \<open>name\<close> before or by it; loggers with
  appenders of their own are as before.
\<close>

definition touches :: "string \<Rightarrow> nat \<Rightarrow> log_state \<Rightarrow> log_state \<Rightarrow> bool" where
  "touches name l s s' \<longleftrightarrow> log_ok s' \<and> length (m_logger_objs s) \<le> length (m_logger_objs s') \<and>
     map_of (m_loggers s') name = Some l \<and>
     (map_of (m_loggers s) name = Some l \<or> map_of (m_loggers s) name = None \<and> l = length (m_logger_objs s)) \<and>
     (\<forall>nm. nm \<noteq> name \<longrightarrow> map_of (m_loggers s') nm = map_of (m_loggers s) nm) \<and>
     (\<forall>l2 < length (m_logger_objs s). l2 \<noteq> l \<longrightarrow> own l2 s \<longrightarrow> keeps l2 s s' \<and> own l2 s')"

lemma getLogger_touches:
  assumes s: "log_ok s" and g: "getLogger name s = (l, s')"
  shows "touches name l s s'"
proof (cases "map_of (m_loggers s) name")
  case (Some k)
  with g have "l = k" "s' = s" by (auto simp: getLogger_def)
  with Some s show ?thesis by (auto simp: touches_def keeps_def)
next
  case None
  with g have l: "l = length (m_logger_objs s)" and s': "s' = s\<lparr>m_logger_objs := m_logger_objs s @
      [(new_logger name)\<lparr>lg_root := Some (m_root s)\<rparr>], m_loggers := map_put name l (m_loggers s)\<rparr>"
    by (auto simp: getLogger_def make_logger_def)
  have "keeps l2 s s' \<and> own l2 s'" if l2: "l2 < length (m_logger_objs s)" "own l2 s" for l2
    using l2 by (auto simp: s' keeps_def own_def nth_append new_logger_def)
  with None l getLogger_ok [OF s g] show ?thesis by (simp add: touches_def s')
qed

lemma touches_local:
  assumes t: "touches name l s s1" and l: "l < length (m_logger_objs s1)"
    and c: "local l s1 s2" and ok: "log_ok s2"
  shows "touches name l s s2"
proof -
  have s1: "log_ok s1" using t by (simp add: touches_def)
  have "keeps l2 s s2 \<and> own l2 s2" if l2: "l2 < length (m_logger_objs s)" "l2 \<noteq> l" "own l2 s" for l2
  proof -
    from l2 t have k: "keeps l2 s s1" "own l2 s1" "l2 < length (m_logger_objs s1)" by (auto simp: touches_def)
    from local_other [OF s1 k(3) l2(2) k(2) l c] k(1) show ?thesis by (auto simp: keeps_def)
  qed
  with t c ok show ?thesis by (auto simp: touches_def local_def)
qed

lemma config_logger_touches:
  assumes s: "log_ok s" and t: "types_ok i"
  shows "\<exists>s' l. config_logger opens i s = Inr s' \<and> touches (ld_name i) l s s' \<and> configured i s' l \<and> own l s'"
proof -
  obtain l s1 where g: "getLogger (ld_name i) s = (l, s1)" by (rule prod.exhaust)
  from getLogger_ok [OF s g] have 1: "log_ok s1" "l < length (m_logger_objs s1)" by auto
  from configure_local [OF 1 t, of opens] obtain s' where
    c: "config_appenders opens l (ld_appenders i)
      (clearAppenders l
        (if ld_formatter i \<noteq> [] then Logger_setFormatter l (ld_formatter i) (Logger_setLevel l (ld_level i) s1)
         else Logger_setLevel l (ld_level i) s1)) = Inr s'"
    and s': "local l s1 s'" "configured i s' l" "own l s'" by blast
  have d: "config_logger opens i s = Inr s'" unfolding config_logger_def g Let_def prod.case by (rule c)
  from touches_local [OF getLogger_touches [OF s g] 1(2) s'(1)] config_logger_ok [OF s d] d s' show ?thesis
    by blast
qed

lemma config_deleted_touches:
  assumes s: "log_ok s" and f: "find_define i new = None"
  shows "\<exists>l. touches (ld_name i) l s (config_deleted new i s) \<and> silenced (config_deleted new i s) l \<and>
    own l (config_deleted new i s)"
proof -
  obtain l s1 where g: "getLogger (ld_name i) s = (l, s1)" by (rule prod.exhaust)
  from getLogger_ok [OF s g] have 1: "log_ok s1" "l < length (m_logger_objs s1)" by auto
  have s': "config_deleted new i s = clearAppenders l (Logger_setLevel l UNKNOWN s1)"
    using f g by (simp add: config_deleted_def)
  have l2: "l < length (m_logger_objs (Logger_setLevel l UNKNOWN s1))" using 1 by (simp add: Logger_setLevel_def)
  have "local l s1 (config_deleted new i s)"
    unfolding s' by (rule local_trans [OF local_setLevel [OF 1(2)] local_clear [OF l2]])
  from touches_local [OF getLogger_touches [OF s g] 1(2) this config_deleted_ok [OF s]]
  show ?thesis using l2 1 by (auto simp: s' silenced_def own_def clearAppenders_def Logger_setLevel_def)
qed

definition inj_ok :: "log_state \<Rightarrow> bool" where
  "inj_ok s \<longleftrightarrow> inj_on (map_of (m_loggers s)) (dom (map_of (m_loggers s)))"

definition settled :: "(log_state \<Rightarrow> nat \<Rightarrow> bool) \<Rightarrow> log_state \<Rightarrow> string \<Rightarrow> bool" where
  "settled Q s name \<longleftrightarrow> (\<exists>l. map_of (m_loggers s) name = Some l \<and> own l s \<and> Q s l)"

definition stable :: "(log_state \<Rightarrow> nat \<Rightarrow> bool) \<Rightarrow> bool" where
  "stable Q \<longleftrightarrow> (\<forall>s s' l. keeps l s s' \<longrightarrow> Q s l \<longrightarrow> Q s' l)"

lemma registered_bound: "log_ok s \<Longrightarrow> map_of (m_loggers s) name = Some l \<Longrightarrow> l < length (m_logger_objs s)"
  by (auto simp: log_ok_def dest: map_of_SomeD)

lemma inj_ok_touches:
  assumes i: "inj_ok s" and s: "log_ok s" and t: "touches name l s s'"
  shows "inj_ok s'"
proof -
  have "x = y" if x: "map_of (m_loggers s') x = Some k" and y: "map_of (m_loggers s') y = Some k" for x y k
  proof -
    have other: "map_of (m_loggers s) z = Some k" if "z \<noteq> name" "map_of (m_loggers s') z = Some k" for z
      using that t by (simp add: touches_def)
    have new: "z = name" if "map_of (m_loggers s) z = Some l" for z
      using that t i registered_bound [OF s that] unfolding touches_def inj_ok_def inj_on_def
      by (metis domI less_irrefl)
    have l: "map_of (m_loggers s') name = Some l" using t by (simp add: touches_def)
    show ?thesis
    proof (cases "x = name \<or> y = name")
      case True
      with l x y other new show ?thesis by (metis option.inject)
    next
      case False
      with other x y have "map_of (m_loggers s) x = Some k" "map_of (m_loggers s) y = Some k" by auto
      with i show ?thesis unfolding inj_ok_def inj_on_def by (metis domI)
    qed
  qed
  then show ?thesis unfolding inj_ok_def inj_on_def by (metis domD)
qed

lemma settled_touches:
  assumes i: "inj_ok s" and s: "log_ok s" and t: "touches name l s s'" and nm: "nm \<noteq> name"
    and q: "settled Q s nm" "stable Q"
  shows "settled Q s' nm"
proof -
  from q obtain l2 where l2: "map_of (m_loggers s) nm = Some l2" "own l2 s" "Q s l2" by (auto simp: settled_def)
  note b = registered_bound [OF s l2(1)]
  have "l2 \<noteq> l" using t i l2(1) nm b unfolding touches_def inj_ok_def inj_on_def by (metis domI less_irrefl)
  with t b l2 nm q(2) show ?thesis by (auto simp: touches_def settled_def stable_def)
qed

subsection \<open>The listener\<close>

lemma find_define_None: "find_define i ds = None \<longleftrightarrow> ld_name i \<notin> ld_name ` set ds"
  by (auto simp: find_define_def find_None_iff ld_less_def) (metis image_eqI linorder_less_linear)

lemma config_changed_settled:
  assumes "log_ok s" "inj_ok s" "\<forall>i \<in> set is. types_ok i" "distinct (map ld_name is)"
  shows "\<exists>s'. config_changed opens old is s = Inr s' \<and> log_ok s' \<and> inj_ok s' \<and>
    (\<forall>i \<in> set is. find_define i old = Some i \<or> settled (configured i) s' (ld_name i)) \<and>
    (\<forall>nm Q. nm \<notin> ld_name ` set is \<longrightarrow> stable Q \<longrightarrow> settled Q s nm \<longrightarrow> settled Q s' nm)"
  using assms
proof (induction "is" arbitrary: s)
  case Nil
  then show ?case by simp
next
  case (Cons i "is")
  have "\<exists>s1. (if find_define i old = Some i then Inr s else config_logger opens i s) = Inr s1 \<and>
      log_ok s1 \<and> inj_ok s1 \<and> (find_define i old = Some i \<or> settled (configured i) s1 (ld_name i)) \<and>
      (\<forall>nm Q. nm \<noteq> ld_name i \<longrightarrow> stable Q \<longrightarrow> settled Q s nm \<longrightarrow> settled Q s1 nm)"
  proof (cases "find_define i old = Some i")
    case True
    with Cons.prems show ?thesis by simp
  next
    case False
    from Cons.prems have t: "types_ok i" by simp
    from config_logger_touches [OF Cons.prems(1) t, of opens] obtain s1 l where
      s1: "config_logger opens i s = Inr s1" "touches (ld_name i) l s s1" "configured i s1 l" "own l s1" by blast
    then have "log_ok s1" "settled (configured i) s1 (ld_name i)" by (auto simp: touches_def settled_def)
    with s1 False inj_ok_touches [OF Cons.prems(2,1) s1(2)] settled_touches [OF Cons.prems(2,1) s1(2)]
    show ?thesis by auto
  qed
  then obtain s1 where s1: "(if find_define i old = Some i then Inr s else config_logger opens i s) = Inr s1"
    "log_ok s1" "inj_ok s1" "find_define i old = Some i \<or> settled (configured i) s1 (ld_name i)"
    "\<forall>nm Q. nm \<noteq> ld_name i \<longrightarrow> stable Q \<longrightarrow> settled Q s nm \<longrightarrow> settled Q s1 nm" by blast
  from Cons.IH [OF s1(2,3)] Cons.prems obtain s2 where
    s2: "config_changed opens old is s1 = Inr s2" "log_ok s2" "inj_ok s2"
    "\<forall>i \<in> set is. find_define i old = Some i \<or> settled (configured i) s2 (ld_name i)"
    "\<forall>nm Q. nm \<notin> ld_name ` set is \<longrightarrow> stable Q \<longrightarrow> settled Q s1 nm \<longrightarrow> settled Q s2 nm" by auto
  have st: "stable (configured i)" using configured_keeps by (auto simp: stable_def)
  have "find_define i old = Some i \<or> settled (configured i) s2 (ld_name i)"
    using s1(4) s2(5) st Cons.prems(4) by auto
  with s1 s2 show ?case by simp
qed

lemma config_deleted_settled:
  assumes "log_ok s" "inj_ok s" "distinct (map ld_name is)"
  shows "(\<forall>i \<in> set is. find_define i new = None \<longrightarrow>
      settled silenced (fold (config_deleted new) is s) (ld_name i)) \<and>
    (\<forall>nm Q. nm \<in> ld_name ` set new \<or> nm \<notin> ld_name ` set is \<longrightarrow> stable Q \<longrightarrow> settled Q s nm \<longrightarrow>
      settled Q (fold (config_deleted new) is s) nm)"
  using assms
proof (induction "is" arbitrary: s)
  case Nil
  then show ?case by simp
next
  case (Cons i "is")
  let ?s = "config_deleted new i s"
  have *: "log_ok ?s \<and> inj_ok ?s \<and> (find_define i new = None \<longrightarrow> settled silenced ?s (ld_name i)) \<and>
      (\<forall>nm Q. nm \<in> ld_name ` set new \<or> nm \<noteq> ld_name i \<longrightarrow> stable Q \<longrightarrow> settled Q s nm \<longrightarrow> settled Q ?s nm)"
  proof (cases "find_define i new = None")
    case True
    then have n: "ld_name i \<notin> ld_name ` set new" by (simp add: find_define_None)
    from config_deleted_touches [OF Cons.prems(1) True] obtain l where
      l: "touches (ld_name i) l s ?s" "silenced ?s l" "own l ?s" by blast
    then have "log_ok ?s" "settled silenced ?s (ld_name i)" by (auto simp: touches_def settled_def)
    moreover have "settled Q ?s nm"
      if q: "nm \<in> ld_name ` set new \<or> nm \<noteq> ld_name i" "stable Q" "settled Q s nm" for nm Q
    proof -
      from q(1) n have "nm \<noteq> ld_name i" by metis
      from settled_touches [OF Cons.prems(2,1) l(1) this q(3,2)] show ?thesis .
    qed
    ultimately show ?thesis using inj_ok_touches [OF Cons.prems(2,1) l(1)] by (intro conjI allI impI)
  next
    case False
    then have "?s = s" by (auto simp: config_deleted_def)
    with False Cons.prems(1,2) show ?thesis by auto
  qed
  have st: "stable silenced" using silenced_keeps by (auto simp: stable_def)
  have IH: "(\<forall>i \<in> set is. find_define i new = None \<longrightarrow>
      settled silenced (fold (config_deleted new) is ?s) (ld_name i)) \<and>
    (\<forall>nm Q. nm \<in> ld_name ` set new \<or> nm \<notin> ld_name ` set is \<longrightarrow> stable Q \<longrightarrow> settled Q ?s nm \<longrightarrow>
      settled Q (fold (config_deleted new) is ?s) nm)"
    using * Cons.prems by (intro Cons.IH) auto
  have n: "ld_name i \<notin> ld_name ` set is" using Cons.prems(3) by simp
  let ?s' = "fold (config_deleted new) is ?s"
  have f: "fold (config_deleted new) (i # is) s = ?s'" by simp
  have a: "find_define i new = None \<longrightarrow> settled silenced ?s' (ld_name i)" using * IH st n by blast
  have b: "settled Q ?s' nm" if q: "nm \<in> ld_name ` set new \<or> nm \<notin> ld_name ` set (i # is)" "stable Q" "settled Q s nm"
    for nm Q
  proof -
    from q(1) have "nm \<in> ld_name ` set new \<or> nm \<noteq> ld_name i" "nm \<in> ld_name ` set new \<or> nm \<notin> ld_name ` set is" by auto
    with * IH q(2,3) show ?thesis by blast
  qed
  show ?case unfolding f
  proof (intro conjI ballI impI allI)
    fix x
    assume "x \<in> set (i # is)" "find_define x new = None"
    with a IH show "settled silenced ?s' (ld_name x)" by auto
  qed (rule b)
qed

lemma log_macro_returns:
  assumes s: "log_ok s" and l: "l < length (m_logger_objs s)"
  shows "\<exists>s1. log_macro (n + 2) opens tm l level e s = Some (Inr s1) \<and> m_loggers s1 = m_loggers s"
proof -
  have "\<exists>s1. Logger_log (n + 2) opens tm l level x s = Some (Inr s1) \<and> m_loggers s1 = m_loggers s" for x
  proof -
    have "\<forall>p \<in> set (route s l level). appender_ok s p" using route_ok [OF s l] by blast
    from appenders_log_spec [OF this, of opens tm level x] Logger_log_route [OF s l, of n opens tm level x]
    show ?thesis by (auto simp: same_routes_def)
  qed
  then show ?thesis unfolding log_macro_def LogEventWrap_delete_def
    by (cases "lg_level (m_logger_objs s ! l) \<le> level") (simp_all del: Logger_log.simps add_2_eq_Suc')
qed

lemma sorted_distinct_names: "sorted_wrt ld_less ds \<Longrightarrow> distinct (map ld_name ds)"
  by (induction ds) (auto simp: ld_less_def)

text \<open>
  C17. When the configuration \<open>logs\<close> changes in a reachable state where no logger is registered
  under two names, the listener returns, and afterwards: every definition that is new or differs from
  the old one is in force for the logger of its name, with its level, with its formatter when that is
  valid, and with exactly the appenders it lists, each with its destination, its level and its own
  formatter or else the logger's; and the logger of every name that is no longer defined has the
  lowest level and no appender.
\<close>

theorem log_listener_settles:
  assumes "log_reach s" and "inj_ok s" and "sorted_wrt ld_less old" and "sorted_wrt ld_less new"
    and "\<forall>i \<in> set new. types_ok i"
  shows "\<exists>s'. log_listener (n + 2) opens tm e old new s = Some (Inr s') \<and>
    (\<forall>i \<in> set new. find_define i old = Some i \<or> settled (configured i) s' (ld_name i)) \<and>
    (\<forall>i \<in> set old. find_define i new = None \<longrightarrow> settled silenced s' (ld_name i))"
proof -
  note s = log_reach_ok [OF assms(1)]
  then have r: "m_root s < length (m_logger_objs s)" by (simp add: log_ok_def)
  from log_macro_returns [OF s r] obtain s1 where
    m: "log_macro (n + 2) opens tm (m_root s) INFO (e\<lparr>ev_ss := ''Logger configuration loaded''\<rparr>) s = Some (Inr s1)"
    "m_loggers s1 = m_loggers s" by blast
  have 1: "log_ok s1" "inj_ok s1" using log_macro_ok [OF s m(1) r] assms(2) m(2) by (auto simp: inj_ok_def)
  from config_changed_settled [OF 1 assms(5) sorted_distinct_names [OF assms(4)], of opens old] obtain s2 where
    s2: "config_changed opens old new s1 = Inr s2" "log_ok s2" "inj_ok s2"
    "\<forall>i \<in> set new. find_define i old = Some i \<or> settled (configured i) s2 (ld_name i)" by blast
  from config_deleted_settled [OF s2(2,3) sorted_distinct_names [OF assms(3)], of new]
  have d: "\<forall>i \<in> set old. find_define i new = None \<longrightarrow>
      settled silenced (fold (config_deleted new) old s2) (ld_name i)" by blast
  have k: "settled Q (fold (config_deleted new) old s2) nm"
    if "nm \<in> ld_name ` set new" "stable Q" "settled Q s2 nm" for nm Q
    using that config_deleted_settled [OF s2(2,3) sorted_distinct_names [OF assms(3)], of new] by blast
  have st: "stable (configured i)" for i using configured_keeps by (auto simp: stable_def)
  have "find_define i old = Some i \<or> settled (configured i) (fold (config_deleted new) old s2) (ld_name i)"
    if i: "i \<in> set new" for i
    using s2(4) [rule_format, OF i] k [OF imageI [OF i] st] by blast
  moreover have "log_listener (n + 2) opens tm e old new s = Some (Inr (fold (config_deleted new) old s2))"
    using m(1) s2(1) by (simp add: log_listener_def)
  ultimately show ?thesis using d by (intro exI conjI) auto
qed

text \<open>The definition of \<open>system\<close> appears and that of \<open>root\<close> disappears.\<close>

definition demo_old :: "LogDefine list" where
  "demo_old = [\<lparr>ld_name = ''root'', ld_level = INFO, ld_formatter = [], ld_appenders = []\<rparr>]"

theorem log_listener_settles_witness:
  "\<exists>s'. log_listener 2 (\<lambda>_. True) (\<lambda>_ _. []) demo_event demo_old [demo_define] demo_log = Some (Inr s') \<and>
    settled (configured demo_define) s' ''system'' \<and> settled silenced s' ''root''"
proof -
  have r: "log_reach demo_log" unfolding demo_log_def
    by (intro log_reach.getLogger log_reach.setFormatter log_reach.start) (simp add: logger_defs)
  have "m_loggers demo_log = [(''root'', 0), (''system'', 1)]"
    by (simp add: demo_log_def demo_pattern logger_defs list_less_def less_char_def)
  then have i: "inj_ok demo_log" by (auto simp: inj_ok_def inj_on_def split: if_splits)
  have t: "\<forall>i \<in> set [demo_define]. types_ok i" by (simp add: types_ok_def demo_define_def)
  have f: "find_define demo_define demo_old = None" "find_define (hd demo_old) [demo_define] = None"
    by (auto simp: find_define_None demo_old_def demo_define_def)
  obtain s' where s': "log_listener (0 + 2) (\<lambda>_. True) (\<lambda>_ _. []) demo_event demo_old [demo_define] demo_log = Some (Inr s')"
    "\<forall>i \<in> set [demo_define]. find_define i demo_old = Some i \<or> settled (configured i) s' (ld_name i)"
    "\<forall>i \<in> set demo_old. find_define i [demo_define] = None \<longrightarrow> settled silenced s' (ld_name i)"
    using log_listener_settles [OF r i _ _ t, of demo_old 0 "\<lambda>_. True" "\<lambda>_ _. []" demo_event]
    by (auto simp: demo_old_def)
  have n: "(0::nat) + 2 = 2" by simp
  from s'(2) f(1) have "settled (configured demo_define) s' ''system''" by (simp add: demo_define_def)
  moreover from s'(3) f(2) have "settled silenced s' ''root''" by (simp add: demo_old_def)
  ultimately show ?thesis using s'(1) [unfolded n] by blast
qed

end
