(* ===== verification/LockOrder.thy ===== *)
theory LockOrder
  imports Locks
begin

section \<open>Threads that take several locks\<close>

text \<open>
  What a thread does with spinlocks: a list of acquisitions and releases, as the scoped guards of an
  operation and of the operations it calls make them. The contract \<open>lock_order\<close>: every such list
  takes locks of growing rank only and releases the one it took last.
\<close>

datatype 'l lock_action = Acquire 'l | Release 'l

definition guarded :: "'l \<Rightarrow> 'l lock_action list \<Rightarrow> 'l lock_action list" where
  "guarded l as = Acquire l # as @ [Release l]"

text \<open>For each thread: the locks it holds, the last taken first, and what it still does.\<close>

record 'l lock_sys =
  taken :: "'l \<Rightarrow> bool"
  threads :: "('l list \<times> 'l lock_action list) list"

definition lock_start :: "nat \<Rightarrow> 'l lock_sys" where
  "lock_start n = \<lparr>taken = (\<lambda>_. Spinlock_new), threads = replicate n ([], [])\<rparr>"

definition lock_thread_step :: "nat \<Rightarrow> 'l lock_sys \<Rightarrow> 'l lock_sys option" where
  "lock_thread_step t s =
     (case threads s ! t of
        (hs, []) \<Rightarrow> None
      | (hs, Acquire l # as) \<Rightarrow>
          map_option (\<lambda>b. s\<lparr>taken := (taken s)(l := b), threads := (threads s)[t := (l # hs, as)]\<rparr>)
            (Spinlock_lock (taken s l))
      | (hs, Release l # as) \<Rightarrow>
          Some (s\<lparr>taken := (taken s)(l := Spinlock_unlock (taken s l)),
                  threads := (threads s)[t := (remove1 l hs, as)]\<rparr>))"

inductive lock_reach :: "('l lock_action list \<Rightarrow> bool) \<Rightarrow> nat \<Rightarrow> 'l lock_sys \<Rightarrow> bool" for P n where
  lr_start: "lock_reach P n (lock_start n)"
| lr_call: "lock_reach P n s \<Longrightarrow> t < n \<Longrightarrow> threads s ! t = ([], []) \<Longrightarrow> P as \<Longrightarrow>
    lock_reach P n (s\<lparr>threads := (threads s)[t := ([], as)]\<rparr>)"
| lr_step: "lock_reach P n s \<Longrightarrow> t < n \<Longrightarrow> lock_thread_step t s = Some s' \<Longrightarrow> lock_reach P n s'"

fun disciplined :: "('l \<Rightarrow> nat) \<Rightarrow> 'l list \<Rightarrow> 'l lock_action list \<Rightarrow> bool" where
  "disciplined rank hs [] \<longleftrightarrow> hs = []"
| "disciplined rank hs (Acquire l # as) \<longleftrightarrow> (\<forall>h \<in> set hs. rank h < rank l) \<and> disciplined rank (l # hs) as"
| "disciplined rank hs (Release l # as) \<longleftrightarrow> (\<exists>hs'. hs = l # hs' \<and> disciplined rank hs' as)"

text \<open>A part of a list that leaves the locks as it finds them.\<close>

definition balanced :: "('l \<Rightarrow> nat) \<Rightarrow> 'l list \<Rightarrow> 'l lock_action list \<Rightarrow> bool" where
  "balanced rank hs as \<longleftrightarrow> (\<forall>bs. disciplined rank hs bs \<longrightarrow> disciplined rank hs (as @ bs))"

lemma balanced_intros [intro]:
  "balanced rank hs []"
  "balanced rank hs as \<Longrightarrow> balanced rank hs bs \<Longrightarrow> balanced rank hs (as @ bs)"
  "\<forall>h \<in> set hs. rank h < rank l \<Longrightarrow> balanced rank (l # hs) as \<Longrightarrow> balanced rank hs (guarded l as)"
  by (simp_all add: balanced_def guarded_def)

lemma balanced_concat: "(\<And>x. x \<in> set xs \<Longrightarrow> balanced rank hs (f x)) \<Longrightarrow> balanced rank hs (concat (map f xs))"
  by (induction xs) auto

definition lock_work :: "'l lock_sys \<Rightarrow> nat" where
  "lock_work s = sum_list (map (length \<circ> snd) (threads s))"

definition all_held :: "'l lock_sys \<Rightarrow> 'l list" where
  "all_held s = concat (map fst (threads s))"

definition lock_inv :: "('l \<Rightarrow> nat) \<Rightarrow> nat \<Rightarrow> 'l lock_sys \<Rightarrow> bool" where
  "lock_inv rank n s \<longleftrightarrow> length (threads s) = n \<and> distinct (all_held s) \<and> (\<forall>l. taken s l \<longleftrightarrow> l \<in> set (all_held s)) \<and>
     (\<forall>(hs, as) \<in> set (threads s). disciplined rank hs as)"

lemma all_held_split:
  "t < length (threads s) \<Longrightarrow> all_held s = concat (map fst (take t (threads s))) @ fst (threads s ! t)
     @ concat (map fst (drop (Suc t) (threads s)))"
  unfolding all_held_def by (subst id_take_nth_drop [of t "threads s"]) simp_all

lemma all_held_update:
  "t < length (threads s) \<Longrightarrow> threads s' = (threads s)[t := x] \<Longrightarrow> all_held s' = concat (map fst (take t (threads s)))
     @ fst x @ concat (map fst (drop (Suc t) (threads s)))"
  unfolding all_held_def by (simp add: upd_conv_take_nth_drop)

lemma highest: "finite H \<Longrightarrow> H \<noteq> {} \<Longrightarrow> \<exists>l \<in> H. \<forall>h \<in> H. rank h \<le> rank l" for rank :: "'a \<Rightarrow> nat"
proof (induction rule: finite_ne_induct)
  case (insert x F)
  then obtain l where l: "l \<in> F" "\<forall>h \<in> F. rank h \<le> rank l" by blast
  show ?case
  proof (cases "rank l \<le> rank x")
    case True
    with l have "\<forall>h \<in> insert x F. rank h \<le> rank x" by (auto intro: order_trans)
    then show ?thesis by blast
  next
    case False
    with l show ?thesis by (intro bexI [of _ l]) auto
  qed
qed simp

locale lock_order =
  fixes rank :: "'l \<Rightarrow> nat" and P :: "'l lock_action list \<Rightarrow> bool"
  assumes ordered: "P as \<Longrightarrow> disciplined rank [] as"
begin

lemma thread_step_inv:
  assumes inv: "lock_inv rank n s" and t: "t < n" and step: "lock_thread_step t s = Some s'"
  shows "lock_inv rank n s'"
proof -
  obtain hs bs where th: "threads s ! t = (hs, bs)" by fastforce
  have len: "t < length (threads s)" using inv t by (simp add: lock_inv_def)
  have d: "disciplined rank hs bs" using inv nth_mem [OF len] th by (auto simp: lock_inv_def)
  have rest: "\<forall>(hs, as) \<in> set ((threads s)[t := x]). disciplined rank hs as" if "case x of (hs, as) \<Rightarrow> disciplined rank hs as" for x
    using inv that set_update_subset_insert [of "threads s" t x] by (auto simp: lock_inv_def)
  let ?A = "concat (map fst (take t (threads s)))" and ?B = "concat (map fst (drop (Suc t) (threads s)))"
  have held: "all_held s = ?A @ hs @ ?B" using all_held_split [OF len] th by simp
  show ?thesis
  proof (cases bs)
    case Nil
    with step th show ?thesis by (simp add: lock_thread_step_def)
  next
    case (Cons b as)
    show ?thesis
    proof (cases b)
      case (Acquire l)
      with step th Cons have free: "\<not> taken s l" and s': "s' = s\<lparr>taken := (taken s)(l := True), threads := (threads s)[t := (l # hs, as)]\<rparr>"
        by (auto simp: lock_thread_step_def Spinlock_lock_def split: if_splits)
      have "all_held s' = ?A @ (l # hs) @ ?B" using all_held_update [OF len, of s' "(l # hs, as)"] s' by simp
      with inv free held s' rest [of "(l # hs, as)"] d Cons Acquire show ?thesis by (auto simp: lock_inv_def)
    next
      case (Release l)
      with d Cons obtain hs' where hs: "hs = l # hs'" "disciplined rank hs' as" by auto
      with step th Cons Release have s': "s' = s\<lparr>taken := (taken s)(l := False), threads := (threads s)[t := (hs', as)]\<rparr>"
        by (simp add: lock_thread_step_def Spinlock_unlock_def)
      have "all_held s' = ?A @ hs' @ ?B" using all_held_update [OF len, of s' "(hs', as)"] s' by simp
      with inv held s' hs rest [of "(hs', as)"] show ?thesis by (auto simp: lock_inv_def)
    qed
  qed
qed

lemma reach_inv: "lock_reach P n s \<Longrightarrow> lock_inv rank n s"
proof (induction rule: lock_reach.induct)
  case lr_start
  then show ?case by (auto simp: lock_inv_def lock_start_def all_held_def Spinlock_new_def)
next
  case (lr_call s t as)
  then have len: "t < length (threads s)" by (simp add: lock_inv_def)
  let ?s = "s\<lparr>threads := (threads s)[t := ([], as)]\<rparr>"
  have "all_held ?s = all_held s"
    using all_held_update [OF len, of ?s "([], as)"] all_held_split [OF len] lr_call.hyps(3) by simp
  with lr_call ordered [of as] set_update_subset_insert [of "threads s" t "([], as)"] show ?case
    by (auto simp: lock_inv_def)
next
  case (lr_step s t s')
  with thread_step_inv show ?case by blast
qed

lemma no_deadlock:
  assumes inv: "lock_inv rank n s" and busy: "t < n" "snd (threads s ! t) \<noteq> []"
  shows "\<exists>u < n. lock_thread_step u s \<noteq> None"
proof (rule ccontr)
  assume "\<not> ?thesis"
  then have none: "lock_thread_step u s = None" if "u < n" for u using that by blast
  have len: "length (threads s) = n" using inv by (simp add: lock_inv_def)
  have wants: "\<exists>l as. bs = Acquire l # as \<and> taken s l \<and> (\<forall>h \<in> set hs. rank h < rank l)"
    if "u < n" "threads s ! u = (hs, bs)" "bs \<noteq> []" for u hs bs
  proof -
    from that have "(hs, bs) \<in> set (threads s)" using len by (metis nth_mem)
    then have "disciplined rank hs bs" using inv by (auto simp: lock_inv_def)
    with none [OF that(1)] that(2,3) show ?thesis
      by (cases "(rank, hs, bs)" rule: disciplined.cases) (auto simp: lock_thread_step_def Spinlock_lock_def split: if_splits)
  qed
  let ?H = "set (all_held s)"
  obtain hs bs where "threads s ! t = (hs, bs)" by fastforce
  with wants busy have "?H \<noteq> {}" using inv by (fastforce simp: lock_inv_def)
  then obtain l where l: "l \<in> ?H" "\<forall>h \<in> ?H. rank h \<le> rank l"
    using highest [of ?H rank] by auto
  then obtain x where x: "x \<in> set (threads s)" "l \<in> set (fst x)" by (auto simp: all_held_def)
  then obtain u where u: "u < n" "threads s ! u = x" using len by (metis in_set_conv_nth)
  obtain hs bs where hb: "x = (hs, bs)" by fastforce
  have "disciplined rank hs bs" using inv x(1) hb by (auto simp: lock_inv_def)
  with x(2) hb have "bs \<noteq> []" by auto
  with wants [OF u(1)] u(2) hb obtain l' where "taken s l'" "rank l < rank l'" using x(2) by fastforce
  moreover have "l' \<in> ?H" using inv \<open>taken s l'\<close> by (simp add: lock_inv_def)
  ultimately show False using l(2) by fastforce
qed

lemma work_decreases:
  assumes "lock_inv rank n s" "t < n" "lock_thread_step t s = Some s'"
  shows "lock_work s' < lock_work s"
proof -
  have len: "t < length (threads s)" using assms by (simp add: lock_inv_def)
  obtain x where x: "threads s' = (threads s)[t := x]" "length (snd x) < length (snd (threads s ! t))"
    using assms(3) by (auto simp: lock_thread_step_def split: prod.splits list.splits lock_action.splits)
  have "lock_work s = sum_list (map (length \<circ> snd) (take t (threads s))) + length (snd (threads s ! t))
      + sum_list (map (length \<circ> snd) (drop (Suc t) (threads s)))"
    unfolding lock_work_def by (subst id_take_nth_drop [OF len]) simp
  moreover have "lock_work s' = sum_list (map (length \<circ> snd) (take t (threads s))) + length (snd x)
      + sum_list (map (length \<circ> snd) (drop (Suc t) (threads s)))"
    using len by (simp add: lock_work_def x(1) upd_conv_take_nth_drop)
  ultimately show ?thesis using x(2) by simp
qed

end

end
