(* ===== verification/LoggerLocks.thy ===== *)
theory LoggerLocks
  imports LoggerRoutes LockOrder
begin

section \<open>The spinlocks of the loggers (source/log.hpp, source/log.cpp)\<close>

text \<open>
  Which locks each operation takes, in which order: the scoped guards of the operation and of the
  operations it calls, in the state in which it is called. The contract \<open>lock_order\<close> is interpreted on
  them, with the manager below the loggers, the root logger above the others, and the appenders last.
\<close>

datatype log_lock = ManagerLock | LoggerLock nat | AppenderLock nat

subsection \<open>The operations\<close>

text \<open>\<open>reopen\<close>, \<open>getFormatter\<close>, \<open>setFormatter\<close> and \<open>toYamlString\<close> of an appender.\<close>

definition appender_locks :: "nat \<Rightarrow> log_lock lock_action list" where
  "appender_locks p = guarded (AppenderLock p) []"

definition appender_log_locks :: "nat \<Rightarrow> Level \<Rightarrow> log_event \<Rightarrow> log_state \<Rightarrow> log_lock lock_action list" where
  "appender_log_locks p level e s =
     (let a = m_appenders s ! p in
      if \<not> ap_level a \<le> level then []
      else (case ap_dest a of
              StdoutLogAppender \<Rightarrow> []
            | FileLogAppender f \<Rightarrow> if ap_lastTime a + 3 \<le> ucast (getTime e) then appender_locks p else [])
           @ guarded (AppenderLock p) [])"

fun Logger_log_locks ::
    "nat \<Rightarrow> nat \<Rightarrow> Level \<Rightarrow> log_event \<Rightarrow> log_state \<Rightarrow> log_lock lock_action list option" where
  "Logger_log_locks 0 l level e s = None"
| "Logger_log_locks (Suc n) l level e s =
     (let g = m_logger_objs s ! l in
      if \<not> lg_level g \<le> level then Some []
      else if lg_appenders g \<noteq> []
      then Some (guarded (LoggerLock l) (concat (map (\<lambda>p. appender_log_locks p level e s) (lg_appenders g))))
      else case lg_root g of
             None \<Rightarrow> Some (guarded (LoggerLock l) [])
           | Some r \<Rightarrow> map_option (guarded (LoggerLock l)) (Logger_log_locks n r level e s))"

text \<open>\<open>Logger::setFormatter\<close> and \<open>Logger::toYamlString\<close> go through the appenders.\<close>

definition each_appender_locks :: "nat \<Rightarrow> log_state \<Rightarrow> log_lock lock_action list" where
  "each_appender_locks l s = guarded (LoggerLock l) (concat (map appender_locks (lg_appenders (m_logger_objs s ! l))))"

definition addAppender_locks :: "nat \<Rightarrow> nat \<Rightarrow> log_state \<Rightarrow> log_lock lock_action list" where
  "addAppender_locks l p s = guarded (LoggerLock l)
     (appender_locks p @ (if ap_formatter (m_appenders s ! p) = None then guarded (AppenderLock p) [] else []))"

text \<open>\<open>delAppender\<close> and \<open>clearAppenders\<close>.\<close>

definition logger_locks :: "nat \<Rightarrow> log_lock lock_action list" where
  "logger_locks l = guarded (LoggerLock l) []"

definition getLogger_locks :: "log_lock lock_action list" where
  "getLogger_locks = guarded ManagerLock []"

definition LoggerManager_yaml_locks :: "log_state \<Rightarrow> log_lock lock_action list" where
  "LoggerManager_yaml_locks s = guarded ManagerLock (concat (map (\<lambda>i. each_appender_locks (snd i) s) (m_loggers s)))"

inductive logger_call :: "nat \<Rightarrow> log_lock lock_action list \<Rightarrow> bool" for r where
  lc_log: "log_reach s \<Longrightarrow> m_root s = r \<Longrightarrow> l < length (m_logger_objs s) \<Longrightarrow>
    Logger_log_locks n l level e s = Some as \<Longrightarrow> logger_call r as"
| lc_each: "logger_call r (each_appender_locks l s)"
| lc_add: "logger_call r (addAppender_locks l p s)"
| lc_logger: "logger_call r (logger_locks l)"
| lc_appender: "logger_call r (appender_locks p)"
| lc_get: "logger_call r getLogger_locks"
| lc_yaml: "logger_call r (LoggerManager_yaml_locks s)"

subsection \<open>Their order\<close>

fun log_rank :: "nat \<Rightarrow> log_lock \<Rightarrow> nat" where
  "log_rank r ManagerLock = 0"
| "log_rank r (LoggerLock l) = (if l = r then 2 else 1)"
| "log_rank r (AppenderLock p) = 3"

abbreviation below :: "nat \<Rightarrow> nat \<Rightarrow> log_lock list \<Rightarrow> bool" where
  "below r k hs \<equiv> \<forall>h \<in> set hs. log_rank r h < k"

lemma appender_balanced: "below r 3 hs \<Longrightarrow> balanced (log_rank r) hs (appender_locks p)"
  unfolding appender_locks_def by (intro balanced_intros) simp_all

lemma appender_log_balanced: "below r 3 hs \<Longrightarrow> balanced (log_rank r) hs (appender_log_locks p level e s)"
  using appender_balanced [of hs r p]
  by (auto simp: appender_log_locks_def appender_locks_def Let_def split: destination.split)

lemma logger_balanced:
  assumes "below r (log_rank r (LoggerLock l)) hs"
    and "below r 3 (LoggerLock l # hs) \<Longrightarrow> balanced (log_rank r) (LoggerLock l # hs) as"
  shows "balanced (log_rank r) hs (guarded (LoggerLock l) as)"
proof (rule balanced_intros(3))
  have "log_rank r (LoggerLock l) < 3" by simp
  with assms(1) have "below r 3 (LoggerLock l # hs)" by fastforce
  then show "balanced (log_rank r) (LoggerLock l # hs) as" by (rule assms(2))
qed (use assms(1) in blast)

lemma each_balanced: "below r 1 hs \<Longrightarrow> balanced (log_rank r) hs (each_appender_locks l s)"
  unfolding each_appender_locks_def
  by (rule logger_balanced) (fastforce, intro balanced_concat appender_balanced)

lemma log_balanced:
  assumes ok: "log_ok s" and l: "l < length (m_logger_objs s)" and as: "Logger_log_locks n l level e s = Some as"
    and hs: "below (m_root s) (log_rank (m_root s) (LoggerLock l)) hs"
  shows "balanced (log_rank (m_root s)) hs as"
  using l as hs
proof (induction n arbitrary: l as hs)
  case (Suc n)
  let ?g = "m_logger_objs s ! l"
  have root: "lg_root ?g = None \<or> lg_root ?g = Some (m_root s) \<and> l \<noteq> m_root s"
    using ok Suc.prems(1) nth_mem by (fastforce simp: log_ok_def logger_ok_def)
  consider "as = []" | "as = guarded (LoggerLock l) (concat (map (\<lambda>p. appender_log_locks p level e s) (lg_appenders ?g)))"
    | "as = guarded (LoggerLock l) []"
    | bs where "as = guarded (LoggerLock l) bs" "Logger_log_locks n (m_root s) level e s = Some bs" "l \<noteq> m_root s"
    using Suc.prems(2) root by (auto simp: Let_def split: if_splits option.splits)
  then show ?case
  proof cases
    case 2
    show ?thesis unfolding 2 by (rule logger_balanced [OF Suc.prems(3)]) (intro balanced_concat appender_log_balanced)
  next
    case 3
    show ?thesis unfolding 3 by (rule logger_balanced [OF Suc.prems(3)]) auto
  next
    case (4 bs)
    show ?thesis unfolding 4(1)
    proof (rule logger_balanced [OF Suc.prems(3)])
      show "balanced (log_rank (m_root s)) (LoggerLock l # hs) bs"
        by (rule Suc.IH [OF _ 4(2)]) (use ok 4(3) Suc.prems(3) in \<open>auto simp: log_ok_def\<close>)
    qed
  qed auto
qed simp

lemma logger_call_disciplined:
  assumes "logger_call r as"
  shows "disciplined (log_rank r) [] as"
proof -
  have "balanced (log_rank r) [] as"
    using assms
  proof cases
    case (lc_log s l n level e)
    with log_balanced [OF log_reach_ok [OF lc_log(1)] lc_log(3,4), of "[]"] show ?thesis by simp
  next
    case (lc_add l p s)
    show ?thesis unfolding lc_add addAppender_locks_def
      by (rule logger_balanced) (auto simp: appender_locks_def intro!: balanced_intros)
  next
    case (lc_yaml s)
    show ?thesis unfolding lc_yaml LoggerManager_yaml_locks_def
      by (rule balanced_intros(3)) (simp, intro balanced_concat each_balanced, simp)
  next
    case (lc_logger l)
    show ?thesis unfolding lc_logger logger_locks_def by (intro balanced_intros) simp
  next
    case lc_get
    show ?thesis unfolding lc_get getLogger_locks_def by (intro balanced_intros) simp
  qed (auto intro: each_balanced appender_balanced)
  then have "disciplined (log_rank r) [] (as @ [])" unfolding balanced_def by (blast intro: disciplined.simps(1) [THEN iffD2])
  then show ?thesis by simp
qed

interpretation loggers: lock_order "log_rank r" "logger_call r" for r
  by unfold_locales (rule logger_call_disciplined)

text \<open>
  C11. The loggers do not block for ever: however many threads call the operations of the loggers, the
  appenders and the manager, in every reachable state no lock is held twice, some thread can go on
  as long as one is inside a call, and each step leaves less to do, so that every call returns.
\<close>

theorem logger_calls_return:
  assumes run: "lock_reach (logger_call r) n s"
  shows "distinct (all_held s) \<and>
    ((\<exists>t < n. snd (threads s ! t) \<noteq> []) \<longrightarrow> (\<exists>u < n. lock_thread_step u s \<noteq> None)) \<and>
    (\<forall>t < n. \<forall>s'. lock_thread_step t s = Some s' \<longrightarrow> lock_reach (logger_call r) n s' \<and> lock_work s' < lock_work s)"
proof -
  note inv = loggers.reach_inv [OF run]
  show ?thesis
    using inv loggers.no_deadlock [OF inv] loggers.work_decreases [OF inv] lr_step [OF run]
    by (auto simp: lock_inv_def)
qed

theorem logger_calls_return_witness:
  "\<exists>s. lock_reach (logger_call 0) 2 s \<and> fst (threads s ! 0) = [LoggerLock 1] \<and> lock_thread_step 1 s = None \<and>
     (\<exists>u < 2. lock_thread_step u s \<noteq> None)"
proof -
  let ?as = "guarded (LoggerLock 1) (guarded (LoggerLock 0) (guarded (AppenderLock 0) []))"
  let ?s1 = "(lock_start 2)\<lparr>threads := (threads (lock_start 2))[0 := ([], ?as)]\<rparr>"
  let ?s2 = "?s1\<lparr>threads := (threads ?s1)[1 := ([], logger_locks 1)]\<rparr>"
  let ?s3 = "?s2\<lparr>taken := (taken ?s2)(LoggerLock 1 := True), threads := (threads ?s2)[0 := ([LoggerLock 1], tl ?as)]\<rparr>"
  have "Logger_log_locks (Suc (Suc 0)) 1 ERROR demo_event demo_log = Some ?as"
    using demo_log_eq by (simp add: new_logger_def less_eq_Level_def appender_log_locks_def)
  moreover have "log_reach demo_log" unfolding demo_log_def
    by (intro log_reach.getLogger log_reach.setFormatter log_reach.start) (simp add: logger_defs)
  moreover have "m_root demo_log = 0" "1 < length (m_logger_objs demo_log)"
    using demo_log_eq by (simp_all add: demo_log_def demo_pattern logger_defs)
  ultimately have call: "logger_call 0 ?as" by (blast intro: lc_log)
  have "lock_reach (logger_call 0) 2 ?s1"
    by (rule lr_call [where P = "logger_call 0" and s = "lock_start 2" and t = 0, OF lr_start _ _ call]) (simp_all add: lock_start_def)
  then have "lock_reach (logger_call 0) 2 ?s2"
    by (rule lr_call [where P = "logger_call 0" and s = ?s1 and t = 1, OF _ _ _ lc_logger]) (simp_all add: lock_start_def)
  moreover have "lock_thread_step 0 ?s2 = Some ?s3"
    by (simp add: lock_thread_step_def lock_start_def guarded_def Spinlock_lock_def Spinlock_new_def numeral_2_eq_2)
  ultimately have run: "lock_reach (logger_call 0) 2 ?s3" using lr_step [of _ 2 ?s2 0 ?s3] by simp
  have "lock_thread_step 1 ?s3 = None" "snd (threads ?s3 ! 1) \<noteq> []"
    by (simp_all add: lock_thread_step_def lock_start_def logger_locks_def guarded_def Spinlock_lock_def numeral_2_eq_2)
  moreover from this(2) have "\<exists>u < 2. lock_thread_step u ?s3 \<noteq> None"
    using logger_calls_return [OF run] by (metis one_less_numeral_iff semiring_norm(76))
  ultimately show ?thesis using run by (intro exI [of _ ?s3]) (simp add: lock_start_def)
qed

end
