(* ===== verification/Threads.thy ===== *)
theory Threads
  imports Locks
begin

section \<open>Starting a thread (source/thread.hpp, source/thread.cpp)\<close>

text \<open>
  One \<open>Thread\<close> object, the thread that makes it and the thread \<open>Thread::run\<close> executes in, whose
  kernel id is \<open>tid\<close>. Each statement of \<open>run\<close> is a step of its own, so that it interleaves with the
  constructor, with \<open>join\<close> and with the destructor. \<open>alive\<close> is whether the object exists: following
  the pointer \<open>thread\<close> afterwards is \<open>BadAccess\<close>. What \<open>pthread_create\<close> and \<open>pthread_join\<close> answer is
  an argument. \<open>'c\<close> is the type of callbacks; a callback that was moved from is \<open>None\<close>.
\<close>

datatype maker_pc = MBefore | MWaiting | MReturned | MDestroyed

datatype run_point = RNot | REntry | RName | RId | RKernelName | RSwap | RNotify | RCall | REnd

record 'c thread =
  th_id :: int
  th_thread :: bool
  th_cb :: "'c option"
  th_name :: string
  th_semaphore :: nat

record 'c thread_state =
  obj :: "'c thread"
  alive :: bool
  maker :: maker_pc
  runner :: run_point
  run_cb :: "'c option"
  t_thread :: bool
  t_thread_name :: string
  kernel_name :: string

text \<open>The object before the body of the constructor, with \<open>cb\<close> and \<open>name\<close>.\<close>

definition before_new :: "'c \<Rightarrow> string \<Rightarrow> 'c thread_state" where
  "before_new cb name =
     \<lparr>obj = \<lparr>th_id = -1, th_thread = False, th_cb = Some cb, th_name = name, th_semaphore = 0\<rparr>,
      alive = True, maker = MBefore, runner = RNot, run_cb = None, t_thread = False,
      t_thread_name = ''UNKNOWN'', kernel_name = []\<rparr>"

text \<open>The constructor up to the wait, and the wait.\<close>

definition Thread_new :: "int \<Rightarrow> 'c thread_state \<Rightarrow> 'c thread_state res" where
  "Thread_new ret s =
     (let name = (if th_name (obj s) = [] then ''UNKNOWN'' else th_name (obj s)) in
      if ret \<noteq> 0 then Inl (StdException ''pthread_create error'')
      else Inr (s\<lparr>obj := (obj s)\<lparr>th_name := name, th_thread := True\<rparr>, maker := MWaiting, runner := REntry\<rparr>))"

definition Thread_wait :: "'c thread_state \<Rightarrow> 'c thread_state option" where
  "Thread_wait s =
     map_option (\<lambda>n. s\<lparr>obj := (obj s)\<lparr>th_semaphore := n\<rparr>, maker := MReturned\<rparr>)
       (Semaphore_wait (th_semaphore (obj s)))"

text \<open>\<open>join\<close> waits for the end of \<open>run\<close>.\<close>

definition Thread_join :: "int \<Rightarrow> 'c thread_state \<Rightarrow> 'c thread_state res option" where
  "Thread_join ret s =
     (if \<not> th_thread (obj s) then Some (Inr s)
      else if ret \<noteq> 0 then Some (Inl (StdException ''pthread_join error''))
      else if runner s \<noteq> REnd then None
      else Some (Inr (s\<lparr>obj := (obj s)\<lparr>th_thread := False\<rparr>\<rparr>)))"

definition Thread_delete :: "'c thread_state \<Rightarrow> 'c thread_state" where
  "Thread_delete s = s\<lparr>alive := False, maker := MDestroyed\<rparr>"

text \<open>\<open>Thread::run\<close>, one statement at a time.\<close>

definition via :: "'c thread_state \<Rightarrow> 'c thread_state res \<Rightarrow> 'c thread_state res" where
  "via s r = (if alive s then r else Inl (BadAccess ''thread''))"

definition Thread_run_step :: "int \<Rightarrow> 'c thread_state \<Rightarrow> 'c thread_state res" where
  "Thread_run_step tid s =
     (case runner s of
        RNot \<Rightarrow> Inr s
      | REntry \<Rightarrow> Inr (s\<lparr>t_thread := True, runner := RName\<rparr>)
      | RName \<Rightarrow> via s (Inr (s\<lparr>t_thread_name := th_name (obj s), runner := RId\<rparr>))
      | RId \<Rightarrow> via s (Inr (s\<lparr>obj := (obj s)\<lparr>th_id := tid\<rparr>, runner := RKernelName\<rparr>))
      | RKernelName \<Rightarrow> via s (Inr (s\<lparr>kernel_name := take 15 (th_name (obj s)), runner := RSwap\<rparr>))
      | RSwap \<Rightarrow> via s (Inr (s\<lparr>run_cb := th_cb (obj s), obj := (obj s)\<lparr>th_cb := None\<rparr>, runner := RNotify\<rparr>))
      | RNotify \<Rightarrow> via s (rbind (Semaphore_notify (th_semaphore (obj s))) (\<lambda>n.
          Inr (s\<lparr>obj := (obj s)\<lparr>th_semaphore := n\<rparr>, runner := RCall\<rparr>)))
      | RCall \<Rightarrow> (case run_cb s of
            None \<Rightarrow> Inl (StdException ''bad_function_call'')
          | Some cb \<Rightarrow> Inr (s\<lparr>runner := REnd\<rparr>))
      | REnd \<Rightarrow> Inr s)"

text \<open>The static functions, called in the new thread. \<open>getThis\<close> answers the pointer.\<close>

definition Thread_getThis :: "'c thread_state \<Rightarrow> bool" where
  "Thread_getThis s = t_thread s"

definition Thread_GetName :: "'c thread_state \<Rightarrow> string" where
  "Thread_GetName s = t_thread_name s"

definition Thread_setName :: "string \<Rightarrow> 'c thread_state \<Rightarrow> 'c thread_state res" where
  "Thread_setName name s =
     (if t_thread s
      then via s (Inr (s\<lparr>obj := (obj s)\<lparr>th_name := name\<rparr>, t_thread_name := name\<rparr>))
      else Inr (s\<lparr>t_thread_name := name\<rparr>))"

subsection \<open>The handshake\<close>

text \<open>
  The maker destroys the object only after its constructor returned. \<open>setName\<close> is called by the
  callback.
\<close>

inductive thread_reach :: "int \<Rightarrow> 'c \<Rightarrow> 'c thread_state \<Rightarrow> bool" for tid cb where
  start: "thread_reach tid cb (before_new cb name)"
| new: "thread_reach tid cb s \<Longrightarrow> maker s = MBefore \<Longrightarrow> Thread_new ret s = Inr s' \<Longrightarrow> thread_reach tid cb s'"
| wait: "thread_reach tid cb s \<Longrightarrow> maker s = MWaiting \<Longrightarrow> Thread_wait s = Some s' \<Longrightarrow> thread_reach tid cb s'"
| join: "thread_reach tid cb s \<Longrightarrow> maker s = MReturned \<Longrightarrow> Thread_join ret s = Some (Inr s') \<Longrightarrow>
    thread_reach tid cb s'"
| delete: "thread_reach tid cb s \<Longrightarrow> maker s = MReturned \<Longrightarrow> thread_reach tid cb (Thread_delete s)"
| run: "thread_reach tid cb s \<Longrightarrow> Thread_run_step tid s = Inr s' \<Longrightarrow> thread_reach tid cb s'"
| setName: "thread_reach tid cb s \<Longrightarrow> runner s = RCall \<Longrightarrow> Thread_setName name s = Inr s' \<Longrightarrow>
    thread_reach tid cb s'"

fun point :: "run_point \<Rightarrow> nat" where
  "point RNot = 0"
| "point REntry = 1"
| "point RName = 2"
| "point RId = 3"
| "point RKernelName = 4"
| "point RSwap = 5"
| "point RNotify = 6"
| "point RCall = 7"
| "point REnd = 8"

definition thread_inv :: "int \<Rightarrow> 'c \<Rightarrow> 'c thread_state \<Rightarrow> bool" where
  "thread_inv tid cb s \<longleftrightarrow>
     (maker s = MBefore \<longleftrightarrow> runner s = RNot) \<and>
     (alive s \<longleftrightarrow> maker s \<noteq> MDestroyed) \<and>
     th_semaphore (obj s) = (if 7 \<le> point (runner s) \<and> maker s = MWaiting then 1 else 0) \<and>
     (maker s = MReturned \<or> maker s = MDestroyed \<longrightarrow> 7 \<le> point (runner s)) \<and>
     (4 \<le> point (runner s) \<longrightarrow> th_id (obj s) = tid) \<and>
     (3 \<le> point (runner s) \<and> alive s \<longrightarrow> t_thread_name s = th_name (obj s)) \<and>
     (if 6 \<le> point (runner s) then run_cb s = Some cb \<and> th_cb (obj s) = None
      else run_cb s = None \<and> th_cb (obj s) = Some cb) \<and>
     (t_thread s \<longleftrightarrow> 2 \<le> point (runner s))"

lemma Thread_run_step_inv:
  assumes "thread_inv tid cb s"
  shows "\<exists>s'. Thread_run_step tid s = Inr s' \<and> thread_inv tid cb s'"
  using assms
  by (cases "runner s"; cases "maker s")
    (auto simp: thread_inv_def Thread_run_step_def via_def Semaphore_notify_def SEM_VALUE_MAX_def split: if_splits)

lemma thread_reach_inv: "thread_reach tid cb s \<Longrightarrow> thread_inv tid cb s"
proof (induction rule: thread_reach.induct)
  case (start name)
  then show ?case by (simp add: before_new_def thread_inv_def)
next
  case (new s ret s')
  then show ?case by (auto simp: Thread_new_def thread_inv_def Let_def split: if_splits)
next
  case (wait s s')
  then show ?case by (auto simp: Thread_wait_def Semaphore_wait_def thread_inv_def split: if_splits)
next
  case (join s ret s')
  then show ?case by (auto simp: Thread_join_def thread_inv_def split: if_splits)
next
  case (delete s)
  then show ?case by (auto simp: Thread_delete_def thread_inv_def)
next
  case (run s s')
  then show ?case using Thread_run_step_inv by fastforce
next
  case (setName s name s')
  then show ?case by (auto simp: Thread_setName_def via_def thread_inv_def split: if_splits)
qed

text \<open>
  C30. However the new thread and its maker interleave: when the constructor has returned, the kernel
  id is in the object and the callback has been taken out of it, and the thread goes on with that
  callback; and \<open>Thread::run\<close> never fails, in particular it never follows the pointer to the object
  after the maker destroyed it.
\<close>

theorem thread_handshake:
  assumes "thread_reach tid cb s"
  shows "(maker s = MReturned \<or> maker s = MDestroyed \<longrightarrow>
      th_id (obj s) = tid \<and> th_cb (obj s) = None \<and> run_cb s = Some cb \<and> runner s \<in> {RCall, REnd}) \<and>
    is_ok (Thread_run_step tid s)"
proof -
  note inv = thread_reach_inv [OF assms]
  have r: "runner s \<in> {RCall, REnd}" if "7 \<le> point (runner s)" using that by (cases "runner s") auto
  have "is_ok (Thread_run_step tid s)" using Thread_run_step_inv [OF inv] by (auto simp: is_ok_iff)
  moreover have "th_id (obj s) = tid \<and> th_cb (obj s) = None \<and> run_cb s = Some cb \<and> runner s \<in> {RCall, REnd}"
    if m: "maker s = MReturned \<or> maker s = MDestroyed"
  proof -
    from inv m have p: "7 \<le> point (runner s)" by (simp add: thread_inv_def)
    with inv r show ?thesis by (simp add: thread_inv_def)
  qed
  ultimately show ?thesis by blast
qed

text \<open>The maker destroys the object at once, while the callback has not been called yet.\<close>

definition run_on :: "int \<Rightarrow> 'c thread_state \<Rightarrow> 'c thread_state" where
  "run_on tid s = (case Thread_run_step tid s of Inr s' \<Rightarrow> s' | Inl _ \<Rightarrow> s)"

lemma run_on_reach: "thread_reach tid cb s \<Longrightarrow> thread_reach tid cb (run_on tid s)"
  by (auto simp: run_on_def intro: thread_reach.run split: sum.split)

definition demo_started :: "nat thread_state" where
  "demo_started = (before_new 7 [])\<lparr>obj := \<lparr>th_id = -1, th_thread = True, th_cb = Some 7,
     th_name = ''UNKNOWN'', th_semaphore = 0\<rparr>, maker := MWaiting, runner := REntry\<rparr>"

definition demo_running :: "nat thread_state" where
  "demo_running = run_on 42 (run_on 42 (run_on 42 (run_on 42 (run_on 42 (run_on 42 demo_started)))))"

theorem thread_handshake_witness:
  "\<exists>s :: nat thread_state. thread_reach 42 7 s \<and> maker s = MDestroyed \<and> th_id (obj s) = 42 \<and>
    runner s \<in> {RCall, REnd}"
proof -
  have "Thread_new 0 (before_new 7 []) = Inr demo_started"
    by (simp add: Thread_new_def before_new_def demo_started_def)
  from thread_reach.new [OF thread_reach.start _ this] have "thread_reach 42 7 demo_started"
    by (simp add: before_new_def)
  then have 1: "thread_reach 42 7 demo_running" unfolding demo_running_def by (intro run_on_reach)
  have 2: "maker demo_running = MWaiting" "th_semaphore (obj demo_running) = 1"
    by (simp_all add: demo_running_def demo_started_def before_new_def run_on_def Thread_run_step_def via_def
        Semaphore_notify_def SEM_VALUE_MAX_def)
  then have "Thread_wait demo_running =
      Some (demo_running\<lparr>obj := (obj demo_running)\<lparr>th_semaphore := 0\<rparr>, maker := MReturned\<rparr>)"
    by (simp add: Thread_wait_def Semaphore_wait_def)
  from thread_reach.delete [OF thread_reach.wait [OF 1 2(1) this]]
  have r: "thread_reach 42 7 (Thread_delete
      (demo_running\<lparr>obj := (obj demo_running)\<lparr>th_semaphore := 0\<rparr>, maker := MReturned\<rparr>))" (is "thread_reach _ _ ?s")
    by simp
  moreover have "maker ?s = MDestroyed" by (simp add: Thread_delete_def)
  moreover from thread_handshake [OF r] have "th_id (obj ?s) = 42 \<and> runner ?s \<in> {RCall, REnd}"
    by (simp add: Thread_delete_def)
  ultimately show ?thesis by blast
qed

text \<open>
  The pointer \<open>getThis\<close> answers is not reset when the object goes: a callback that renames its thread
  after the maker destroyed the object follows it.
\<close>

lemma setName_dangling:
  "t_thread s \<Longrightarrow> \<not> alive s \<Longrightarrow> Thread_setName name s = Inl (BadAccess ''thread'')"
  by (simp add: Thread_setName_def via_def)

end
