(* ===== verification/Utilities.thy ===== *)
theory Utilities
  imports LoggerRoutes Fibers
begin

section \<open>Utilities and failed assertions (source/util.cpp, source/macro.hpp)\<close>

text \<open>
  What \<open>SERVER_ASSERT\<close> does before it aborts: it logs the condition and a backtrace with the root
  logger. The C library answers a backtrace: \<open>bt_frames size\<close> are the addresses \<open>backtrace\<close> stores
  into an array of that size, \<open>bt_symbols\<close> the texts \<open>backtrace_symbols\<close> makes of them (\<open>None\<close>: it had no
  memory). \<open>blocks\<close> counts the blocks that were allocated and not freed.
\<close>

record backtrace_lib =
  bt_frames :: "int \<Rightarrow> 64 word list"
  bt_symbols :: "64 word list \<Rightarrow> string list option"

text \<open>As documented: at most \<open>size\<close> addresses, an \<open>int\<close> of them, and one text for each.\<close>

definition bt_law :: "backtrace_lib \<Rightarrow> bool" where
  "bt_law B \<longleftrightarrow> (\<forall>n. length (bt_frames B n) \<le> nat n \<and> length (bt_frames B n) < 2 ^ 31) \<and>
     (\<forall>as ss. bt_symbols B as = Some ss \<longrightarrow> length ss = length as)"

record util_state =
  blocks :: nat
  logs :: log_state

text \<open>The id of the fiber, cut to 32 bits; \<open>getThreadId\<close> is a system call.\<close>

definition util_getFiberId :: "tid \<Rightarrow> 'z proc_scheme \<Rightarrow> 32 word res" where
  "util_getFiberId t s = rbind (getFiberId t s) (\<lambda>i. Inr (ucast i))"

subsection \<open>Backtraces\<close>

text \<open>The loop \<open>for (size_t i = skip; i < s; ++i) bt.push_back(strings[i])\<close>.\<close>

function push_frames :: "string list \<Rightarrow> 64 word \<Rightarrow> 64 word \<Rightarrow> string list \<Rightarrow> string list" where
  "push_frames strings i s bt =
     (if i < s then push_frames strings (i + 1) s (bt @ [strings ! unat i]) else bt)"
  by auto

termination
proof (relation "measure (\<lambda>(strings, i, s, bt). unat (s - i))")
  fix i s :: "64 word"
  assume "i < s"
  then show "((strings, i + 1, s, bt @ [strings ! unat i]), (strings, i, s, bt)) \<in> measure (\<lambda>(strings, i, s, bt). unat (s - i))"
    for strings :: "string list" and bt
    by (simp add: diff_diff_eq [symmetric]) (metis diff_0 eq_iff_diff_eq_0 less_irrefl measure_unat)
qed simp

declare push_frames.simps [simp del]

text \<open>\<open>g\<close> is the logger \<open>system\<close> of util.cpp. An error leaves the array allocated.\<close>

definition Backtrace ::
    "backtrace_lib \<Rightarrow> nat \<Rightarrow> (string \<Rightarrow> bool) \<Rightarrow> (string \<Rightarrow> 32 word \<Rightarrow> string) \<Rightarrow> nat \<Rightarrow> log_event
       \<Rightarrow> string list \<Rightarrow> int \<Rightarrow> int \<Rightarrow> util_state \<Rightarrow> (string list \<times> util_state) res option" where
  "Backtrace B n opens tm g e bt n_max skip u =
     (let array = bt_frames B n_max; s = of_nat (length array) in
      case bt_symbols B array of
        None \<Rightarrow>
          map_option (\<lambda>r. rbind r (\<lambda>l. Inr (bt, u\<lparr>blocks := blocks u + 1, logs := l\<rparr>)))
            (log_macro n opens tm g ERROR (e\<lparr>ev_ss := ''backtrace_symbols error''\<rparr>) (logs u))
      | Some strings \<Rightarrow> Some (Inr (push_frames strings (word_of_int skip) s bt, u)))"

definition BacktraceToString ::
    "backtrace_lib \<Rightarrow> nat \<Rightarrow> (string \<Rightarrow> bool) \<Rightarrow> (string \<Rightarrow> 32 word \<Rightarrow> string) \<Rightarrow> nat \<Rightarrow> log_event
       \<Rightarrow> int \<Rightarrow> int \<Rightarrow> string \<Rightarrow> util_state \<Rightarrow> (string \<times> util_state) res option" where
  "BacktraceToString B n opens tm g e n_max skip prefix u =
     map_option (\<lambda>r. rbind r (\<lambda>(bt, u1). Inr (concat (map (\<lambda>x. prefix @ x @ [CHR 0x0A]) bt), u1)))
       (Backtrace B n opens tm g e [] n_max skip u)"

text \<open>
  \<open>SERVER_ASSERT(x)\<close> (\<open>w\<close> is \<open>None\<close>) and \<open>SERVER_ASSERT_INFO(x, w)\<close>; \<open>shown\<close> is the text of the condition.
  The result is the state it leaves and whether the program goes on. The line is composed only if
  the level of the root logger lets it pass.
\<close>

definition SERVER_ASSERT_INFO ::
    "backtrace_lib \<Rightarrow> nat \<Rightarrow> (string \<Rightarrow> bool) \<Rightarrow> (string \<Rightarrow> 32 word \<Rightarrow> string) \<Rightarrow> nat \<Rightarrow> log_event
       \<Rightarrow> bool \<Rightarrow> string \<Rightarrow> string option \<Rightarrow> util_state \<Rightarrow> (util_state \<times> unit res) res option" where
  "SERVER_ASSERT_INFO B n opens tm g e x shown w u =
     (if x then Some (Inr (u, Inr ()))
      else if \<not> lg_level (m_logger_objs (logs u) ! m_root (logs u)) \<le> ERROR
      then Some (Inr (u, Inl (AssertionFailed shown)))
      else case BacktraceToString B n opens tm g e 100 2 [CHR 0x09, CHR 0x09] u of
             None \<Rightarrow> None
           | Some (Inl err) \<Rightarrow> Some (Inl err)
           | Some (Inr (bt, u1)) \<Rightarrow>
               map_option (\<lambda>r. rbind r (\<lambda>l. Inr (u1\<lparr>logs := l\<rparr>, Inl (AssertionFailed shown))))
                 (log_macro n opens tm (m_root (logs u1)) ERROR
                   (e\<lparr>ev_ss := [CHR 0x0A] @ ''ASSERTION FAILED: '' @ shown
                       @ (case w of None \<Rightarrow> [] | Some t \<Rightarrow> [CHR 0x0A] @ t)
                       @ [CHR 0x0A] @ ''backtrace:'' @ [CHR 0x0A] @ bt\<rparr>) (logs u1)))"

subsection \<open>What they do\<close>

lemma push_frames_eq:
  "length strings = unat s \<Longrightarrow> push_frames strings i s bt = bt @ drop (unat i) strings"
proof (induction strings i s bt rule: push_frames.induct)
  case (1 strings i s bt)
  show ?case
  proof (cases "i < s")
    case True
    then have i: "unat i < unat s" by (simp add: word_less_nat_alt)
    moreover have "unat s < 2 ^ 64" using unsigned_less [of s] by simp
    ultimately have "unat (i + 1) = unat i + 1" by (intro unat_plus_one) simp
    with 1 True i show ?thesis
      by (subst push_frames.simps) (simp add: Cons_nth_drop_Suc)
  next
    case False
    then have "unat s \<le> unat i" by (simp add: word_less_nat_alt)
    with 1(2) False show ?thesis by (subst push_frames.simps) simp
  qed
qed

text \<open>The line of a macro in a reachable state.\<close>

definition macro_event :: "Level \<Rightarrow> log_event \<Rightarrow> string \<Rightarrow> log_event" where
  "macro_event level e name = LogEvent_format (Some (ev_ss e))
     (LogEvent_new name level (ev_file e) (ev_line e) 0 (ev_threadId e) (ev_fiberId e) (ev_time e) (ev_threadName e))"

definition logged ::
    "(string \<Rightarrow> bool) \<Rightarrow> (string \<Rightarrow> 32 word \<Rightarrow> string) \<Rightarrow> nat \<Rightarrow> Level \<Rightarrow> log_event \<Rightarrow> log_state \<Rightarrow> log_state \<Rightarrow> bool"
  where
  "logged opens tm l level e s s' \<longleftrightarrow> (\<forall>d. sink s' d = sink s d @ concat (map
     (written opens tm level (macro_event level e (lg_name (m_logger_objs s ! l))))
     (filter (\<lambda>a. place a = d) (map ((!) (m_appenders s)) (route s l level)))))"

lemma log_macro_logged:
  assumes s: "log_ok s" and l: "l < length (m_logger_objs s)"
  shows "\<exists>s'. log_macro (n + 2) opens tm l level e s = Some (Inr s') \<and> logged opens tm l level e s s'"
proof (cases "lg_level (m_logger_objs s ! l) \<le> level")
  case True
  let ?m = "macro_event level e (lg_name (m_logger_objs s ! l))"
  have "\<forall>p \<in> set (route s l level). appender_ok s p" using route_ok [OF s l] by blast
  from appenders_log_spec [OF this, of opens tm level ?m] obtain s' where
    s': "appenders_log opens tm (route s l level) level ?m s = Inr s'" "logged opens tm l level e s s'"
    by (auto simp: logged_def)
  have "log_macro (n + 2) opens tm l level e s = Logger_log (n + 2) opens tm l level ?m s"
    using True by (simp add: log_macro_def LogEventWrap_delete_def macro_event_def)
  with Logger_log_route [OF s l] s' show ?thesis by simp
next
  case False
  then show ?thesis by (simp add: log_macro_def logged_def route_def)
qed

lemma bt_lengths:
  assumes "bt_law B" "bt_symbols B (bt_frames B k) = Some ss"
  shows "length ss = unat (of_nat (length (bt_frames B k)) :: 64 word)"
proof -
  have "length ss = length (bt_frames B k)" "length (bt_frames B k) < 2 ^ 31" using assms by (auto simp: bt_law_def)
  then show ?thesis by (simp add: unat_of_nat)
qed

lemma drop_skip:
  assumes skip: "\<bar>skip\<bar> < 2 ^ 31" and len: "length ss < 2 ^ 31"
  shows "drop (unat (word_of_int skip :: 64 word)) ss = (if skip < 0 then [] else drop (nat skip) ss)"
proof (cases "skip < 0")
  case True
  have "skip mod 2 ^ 64 = (skip + 2 ^ 64) mod 2 ^ 64" by simp
  also have "... = skip + 2 ^ 64" using True skip by (intro mod_pos_pos_trivial) simp_all
  finally have "unat (word_of_int skip :: 64 word) = nat (skip + 2 ^ 64)" by (simp add: uint_word_of_int flip: nat_uint_eq)
  with True skip len show ?thesis by simp
next
  case False
  then have "uint (word_of_int skip :: 64 word) = skip" using skip by (simp add: uint_word_of_int)
  with False show ?thesis by (simp flip: nat_uint_eq)
qed

lemma BacktraceToString_lines:
  assumes B: "bt_law B" and ss: "bt_symbols B (bt_frames B k) = Some ss" and skip: "\<bar>skip\<bar> < 2 ^ 31"
  shows "BacktraceToString B n opens tm g e k skip prefix u =
    Some (Inr (concat (map (\<lambda>x. prefix @ x @ [CHR 0x0A]) (if skip < 0 then [] else drop (nat skip) ss)), u))"
proof -
  have "length ss < 2 ^ 31" using B ss by (auto simp: bt_law_def)
  from drop_skip [OF skip this] have "push_frames ss (word_of_int skip) (of_nat (length (bt_frames B k))) [] =
      (if skip < 0 then [] else drop (nat skip) ss)"
    by (simp only: push_frames_eq [OF bt_lengths [OF B ss]] append_Nil)
  then show ?thesis by (simp only: BacktraceToString_def Backtrace_def Let_def ss) simp
qed

text \<open>
  \<open>BacktraceToString\<close> is one line for each stack frame from \<open>skip\<close> on, each after the prefix, and
  empty when \<open>skip\<close> is negative or there are fewer frames. When the C library has no memory for the
  texts it is empty, an error is logged by the logger of util.cpp, and the array of the frames is
  never freed.
\<close>

theorem BacktraceToString_spec:
  assumes B: "bt_law B" and s: "log_reach (logs u)" and g: "g < length (m_logger_objs (logs u))"
    and skip: "\<bar>skip\<bar> < 2 ^ 31"
  shows "case bt_symbols B (bt_frames B k) of
      Some ss \<Rightarrow> BacktraceToString B (n + 2) opens tm g e k skip prefix u =
        Some (Inr (concat (map (\<lambda>x. prefix @ x @ [CHR 0x0A]) (if skip < 0 then [] else drop (nat skip) ss)), u))
    | None \<Rightarrow> \<exists>l. BacktraceToString B (n + 2) opens tm g e k skip prefix u =
          Some (Inr ([], u\<lparr>blocks := blocks u + 1, logs := l\<rparr>)) \<and>
        logged opens tm g ERROR (e\<lparr>ev_ss := ''backtrace_symbols error''\<rparr>) (logs u) l"
proof (cases "bt_symbols B (bt_frames B k)")
  case None
  from log_macro_logged [OF log_reach_ok [OF s] g, of n opens tm ERROR "e\<lparr>ev_ss := ''backtrace_symbols error''\<rparr>"] None
  show ?thesis by (auto simp: BacktraceToString_def Backtrace_def)
next
  case (Some ss)
  with BacktraceToString_lines [OF B Some skip] show ?thesis by simp
qed

text \<open>A library without memory, and one with four frames; the loggers of the example before.\<close>

definition demo_util :: util_state where
  "demo_util = \<lparr>blocks = 0, logs = demo_log\<rparr>"

definition demo_bt :: "bool \<Rightarrow> backtrace_lib" where
  "demo_bt room = \<lparr>bt_frames = (\<lambda>n. take (nat n) [1, 2, 3, 4]),
     bt_symbols = (\<lambda>as. if room then Some (map (\<lambda>a. if a = 3 then ''run'' else ''main'') as) else None)\<rparr>"

lemma demo_bt_law: "bt_law (demo_bt room)"
  by (simp add: bt_law_def demo_bt_def min_def)

lemma demo_util_reach: "log_reach (logs demo_util)" "1 < length (m_logger_objs (logs demo_util))"
proof -
  show "log_reach (logs demo_util)" unfolding demo_util_def util_state.simps demo_log_def
    by (intro log_reach.getLogger log_reach.setFormatter log_reach.start) (simp add: logger_defs)
  show "1 < length (m_logger_objs (logs demo_util))" using demo_log_eq by (simp add: demo_util_def)
qed

theorem BacktraceToString_spec_witness:
  "\<exists>u. BacktraceToString (demo_bt False) 2 (\<lambda>_. True) (\<lambda>_ _. []) 1 demo_event 64 1 [] demo_util = Some (Inr ([], u)) \<and>
    blocks u = 1 \<and> sink (logs u) None = ''ERROR backtrace_symbols error''"
proof -
  let ?e = "demo_event\<lparr>ev_ss := ''backtrace_symbols error''\<rparr>"
  obtain l where
    l: "BacktraceToString (demo_bt False) (0 + 2) (\<lambda>_. True) (\<lambda>_ _. []) 1 demo_event 64 1 [] demo_util =
      Some (Inr ([], demo_util\<lparr>blocks := blocks demo_util + 1, logs := l\<rparr>))"
    "logged (\<lambda>_. True) (\<lambda>_ _. []) 1 ERROR ?e demo_log l"
    using BacktraceToString_spec [OF demo_bt_law [of False] demo_util_reach, where k = 64 and n = 0 and skip = 1 and prefix = "[]"
        and opens = "\<lambda>_. True" and tm = "\<lambda>_ _. []" and e = demo_event]
    by (fastforce simp: demo_util_def demo_bt_def)
  have route: "route demo_log 1 ERROR = [0]"
    using demo_log_eq by (simp add: route_def new_logger_def less_eq_Level_def)
  have n: "(0::nat) + 2 = 2" by simp
  have "sink l None = ''ERROR backtrace_symbols error''"
    using l(2) route demo_log_eq
    by (simp add: logged_def written_def stream_ok_def place_def demo_pattern LogFormatter_format_def macro_event_def
        LogEvent_new_def LogEvent_format_def demo_event_def less_eq_Level_def)
  with l(1) [unfolded n] show ?thesis by (fastforce simp: demo_util_def)
qed

text \<open>
  C25. \<open>SERVER_ASSERT\<close> of a condition that holds does nothing. Of one that does not hold, it aborts after
  every destination of the root logger has got one line, with the condition, the remark if there is
  one and the stack frames from the third on; unless the level of the root logger is above ERROR.
\<close>

theorem SERVER_ASSERT_INFO_spec:
  assumes B: "bt_law B" and s: "log_reach (logs u)"
    and ss: "bt_symbols B (bt_frames B 100) = Some ss"
  shows "\<exists>l. SERVER_ASSERT_INFO B (n + 2) opens tm g e x shown w u =
      Some (Inr (u\<lparr>logs := l\<rparr>, if x then Inr () else Inl (AssertionFailed shown))) \<and>
    (if x then l = logs u
     else logged opens tm (m_root (logs u)) ERROR
       (e\<lparr>ev_ss := [CHR 0x0A] @ ''ASSERTION FAILED: '' @ shown @ (case w of None \<Rightarrow> [] | Some t \<Rightarrow> [CHR 0x0A] @ t)
          @ [CHR 0x0A] @ ''backtrace:'' @ [CHR 0x0A]
          @ concat (map (\<lambda>f. [CHR 0x09, CHR 0x09] @ f @ [CHR 0x0A]) (drop 2 ss))\<rparr>) (logs u) l)"
proof -
  have ok: "log_ok (logs u)" using log_reach_ok [OF s] .
  then have r: "m_root (logs u) < length (m_logger_objs (logs u))" by (simp add: log_ok_def)
  have bt: "BacktraceToString B (n + 2) opens tm g e 100 2 [CHR 0x09, CHR 0x09] u =
      Some (Inr (concat (map (\<lambda>f. [CHR 0x09, CHR 0x09] @ f @ [CHR 0x0A]) (drop 2 ss)), u))"
    using BacktraceToString_lines [OF B ss, of 2] by simp
  show ?thesis
  proof (cases "x \<or> \<not> lg_level (m_logger_objs (logs u) ! m_root (logs u)) \<le> ERROR")
    case True
    then show ?thesis
      by (intro exI [of _ "logs u"]) (auto simp: SERVER_ASSERT_INFO_def logged_def route_def)
  next
    case False
    let ?e = "e\<lparr>ev_ss := [CHR 0x0A] @ ''ASSERTION FAILED: '' @ shown @ (case w of None \<Rightarrow> [] | Some t \<Rightarrow> [CHR 0x0A] @ t)
          @ [CHR 0x0A] @ ''backtrace:'' @ [CHR 0x0A]
          @ concat (map (\<lambda>f. [CHR 0x09, CHR 0x09] @ f @ [CHR 0x0A]) (drop 2 ss))\<rparr>"
    obtain l where l: "log_macro (n + 2) opens tm (m_root (logs u)) ERROR ?e (logs u) = Some (Inr l)"
      "logged opens tm (m_root (logs u)) ERROR ?e (logs u) l"
      using log_macro_logged [OF ok r] by blast
    from False bt l(1) have "SERVER_ASSERT_INFO B (n + 2) opens tm g e x shown w u =
        Some (Inr (u\<lparr>logs := l\<rparr>, Inl (AssertionFailed shown)))"
      unfolding SERVER_ASSERT_INFO_def by (simp del: append.simps)
    with False l(2) show ?thesis by auto
  qed
qed

theorem SERVER_ASSERT_INFO_spec_witness:
  "\<exists>l. SERVER_ASSERT_INFO (demo_bt True) 2 (\<lambda>_. True) (\<lambda>_ _. []) 1 demo_event False ''x'' None demo_util =
      Some (Inr (demo_util\<lparr>logs := l\<rparr>, Inl (AssertionFailed ''x''))) \<and>
    sink l None = ''ERROR '' @ [CHR 0x0A] @ ''ASSERTION FAILED: x'' @ [CHR 0x0A] @ ''backtrace:'' @ [CHR 0x0A]
      @ [CHR 0x09, CHR 0x09] @ ''run'' @ [CHR 0x0A] @ [CHR 0x09, CHR 0x09] @ ''main'' @ [CHR 0x0A]"
proof -
  have ss: "bt_symbols (demo_bt True) (bt_frames (demo_bt True) 100) = Some [''main'', ''main'', ''run'', ''main'']"
    by (simp add: demo_bt_def)
  have n: "(0::nat) + 2 = 2" by simp
  obtain l where
    l: "SERVER_ASSERT_INFO (demo_bt True) 2 (\<lambda>_. True) (\<lambda>_ _. []) 1 demo_event False ''x'' None demo_util =
      Some (Inr (demo_util\<lparr>logs := l\<rparr>, Inl (AssertionFailed ''x'')))"
    "logged (\<lambda>_. True) (\<lambda>_ _. []) (m_root demo_log) ERROR (demo_event\<lparr>ev_ss := [CHR 0x0A] @ ''ASSERTION FAILED: x''
          @ [CHR 0x0A] @ ''backtrace:'' @ [CHR 0x0A] @ [CHR 0x09, CHR 0x09] @ ''run'' @ [CHR 0x0A]
          @ [CHR 0x09, CHR 0x09] @ ''main'' @ [CHR 0x0A]\<rparr>) demo_log l"
    using SERVER_ASSERT_INFO_spec [OF demo_bt_law demo_util_reach(1) ss, where n = 0 and x = False and g = 1
        and opens = "\<lambda>_. True" and tm = "\<lambda>_ _. []" and e = demo_event and shown = "''x''" and w = None, unfolded n]
    by (auto simp: demo_util_def)
  have root: "m_root demo_log = 0" by (simp add: demo_log_def demo_pattern logger_defs)
  have route: "route demo_log 0 ERROR = [0]"
    using demo_log_eq by (simp add: route_def less_eq_Level_def)
  have "sink l None = ''ERROR '' @ [CHR 0x0A] @ ''ASSERTION FAILED: x'' @ [CHR 0x0A] @ ''backtrace:'' @ [CHR 0x0A]
      @ [CHR 0x09, CHR 0x09] @ ''run'' @ [CHR 0x0A] @ [CHR 0x09, CHR 0x09] @ ''main'' @ [CHR 0x0A]"
    using l(2) route demo_log_eq
    by (simp add: root logged_def written_def stream_ok_def place_def demo_pattern LogFormatter_format_def macro_event_def
        LogEvent_new_def LogEvent_format_def demo_event_def less_eq_Level_def)
  with l(1) show ?thesis by blast
qed

end
