(* ===== verification/Spec2Isabelle.thy ===== *)
theory Spec2Isabelle
  imports PoolStops IOWaits ConfigOverlaps LoggerConfigs LoggerLocks Threads Utilities
begin

text \<open>
  A model of the coroutine-based server framework under src/source, and what holds of it.

  The program. A \<open>Fiber\<close> is a coroutine with a stack of its own; \<open>Fiber::swapIn\<close> and the yields
  switch between it and the main fiber of the thread. A \<open>Scheduler\<close> runs fibers and callbacks from
  a queue on a pool of threads, and on its caller's thread if asked to. An \<open>IOManager\<close> is a scheduler
  whose idle fibers wait in \<open>epoll_wait\<close> and queue what waits for a descriptor. A \<open>Thread\<close> wraps a
  POSIX thread. Loggers format events and write them to appenders. A configuration holds typed
  arguments with listeners and is loaded from YAML; the listener of the argument \<open>logs\<close> sets up the
  loggers. The locks of mutex.hpp guard the shared state of all of these.

  The theories, in the order of the code's dependencies:
  \<^item> \<open>Prelude\<close>: failures as values, results, assertions (macro.hpp), counters without wrap-around.
  \<^item> \<open>Locks\<close> (mutex.hpp, mutex.cpp): each lock's state and operations, the three scoped guards. The
    locale \<open>lockable\<close> is the contract of a lock, interpreted on \<open>Mutex\<close>, \<open>Spinlock\<close>, \<open>CASLock\<close> and
    \<open>RWMutex\<close>; its lemmas say what the guards make of it.
  \<^item> \<open>Threads\<close> (thread.hpp, thread.cpp): the constructor, the destructor, \<open>join\<close> and \<open>run\<close>, one
    statement a step, with every interleaving of the maker and the new thread.
  \<^item> \<open>Fibers\<close> (fiber.hpp, fiber.cpp): the record \<open>proc\<close> is the process: \<open>Fiber\<close> objects by address,
    the static counters, and per thread the thread-local pointers and what its CPU executes. A
    context is an entry point or a saved continuation on a stack. Lemmas: what each operation reads
    and writes, the table of objects stays well formed, a switch forth and back, the life cycle.
  \<^item> \<open>Schedulers\<close>, \<open>SchedulerRun\<close> (scheduler.hpp, scheduler.cpp): the record \<open>sys\<close> adds the members of
    \<open>Scheduler\<close>; \<open>thread_step\<close> is one step of one thread, \<open>sys_step\<close> one step of the system and
    \<open>reachable\<close> its closure. \<open>SchedulerQueue\<close>: the queue as the locale \<open>fifo\<close>, interpreted on
    \<open>schedule\<close> and the search. \<open>SchedulerCounts\<close>: the locale \<open>virtuals\<close> is what the virtual functions
    must keep of the two thread counters, interpreted on the base class and on \<open>IOManager\<close>; from it
    the counters are exact in every reachable state. \<open>SchedulerTraces\<close>: what \<open>run\<close> does with a fiber
    that has switched back, and three interleavings that go wrong, computed from the constructor on.
    \<open>SchedulerLiveness\<close>: an abstract scheduler, a list of programs, is refined by the machine of one
    thread, and so \<open>stop\<close> returns with all work done.
  \<^item> \<open>PoolSpecs\<close>: an abstract pool of threads, with a queue of programs and no fibers, stacks or
    contexts, and a measure of the work left; \<open>PoolProgress\<close>: under a fair schedule it finishes.
    \<open>PoolOwners\<close>: the invariant of a scheduler with a pool, by which every fiber that can still run
    belongs to the queue or to one thread, and the abstraction \<open>pool_of\<close>; \<open>PoolSteps\<close>: each step of
    a thread keeps the one and is a step of the other; \<open>PoolRuns\<close>: so in every reachable state;
    \<open>PoolStops\<close>: runs along a fair schedule, up to the return of \<open>stop\<close>.
  \<^item> \<open>IOManagers\<close> (iomanager.hpp, iomanager.cpp): the record \<open>ios\<close> adds the members of \<open>IOManager\<close>;
    the system calls are the parameter \<open>os\<close>. \<open>IOEvents\<close> abstracts a state to the map \<open>waiters\<close>;
    \<open>IOSpecs\<close> states each operation as a change of that map and of the queue; \<open>IOFaults\<close> has the calls
    on which a guard of the code is wrong. \<open>IORuns\<close> lets the threads and the event operations, cut at
    their critical sections, interleave: \<open>io_step\<close> and \<open>io_reach\<close>. The locale \<open>member_invariant\<close> of
    theory \<open>SchedulerMembers\<close> is what an invariant of a derived class needs to be kept by every step of
    the scheduler; it is interpreted on the well-formed descriptor contexts. \<open>IOWaits\<close>: what follows
    for the count of pending events and for each waiter in every reachable state.
  \<^item> \<open>LogFormatters\<close> (log.hpp, log.cpp): levels, events, format items and the pattern parser;
    \<open>LogPatterns\<close>: its equivalence with a parser without indices, and the round trip.
  \<^item> \<open>YamlCasts\<close> (config.hpp): \<open>LexicalCast\<close> for the containers, with the locale \<open>yaml_codec\<close> for a cast
    and its inverse; \<open>YamlFlow\<close> is a YAML library that satisfies the hypothesis \<open>yaml_law\<close>;
    \<open>LogConfigs\<close> (log.cpp): the casts of logger definitions, on which the locale is interpreted.
  \<^item> \<open>Configs\<close> (config.hpp, config.cpp): \<open>ConfigArg\<close> and \<open>ConfigMgr\<close>; \<open>ConfigSpecs\<close>: what they promise.
    \<open>ConfigThreads\<close>: the same operations cut at their guards and statements, for any number of threads
    and for listeners that call back; \<open>ConfigRaces\<close>: the guards the threads are in agree with every
    lock, by the locale \<open>lockable\<close>, and so which sections exclude each other, when some thread can go
    on and when one never does; \<open>ConfigOverlaps\<close>: a call alone does what its one-step definition does,
    two calls that overlap need not.
  \<^item> \<open>Loggers\<close> (log.hpp, log.cpp): loggers, appenders, \<open>LoggerManager\<close> and the listener of \<open>logs\<close>;
    \<open>LoggerSpecs\<close>, \<open>LoggerRoutes\<close>: well-formed states and where an event goes; \<open>LoggerConfigs\<close>: what a
    changed configuration does. \<open>LockOrder\<close> has the contract of programs that take several spinlocks
    in a fixed order, as the locale \<open>lock_order\<close>; \<open>LoggerLocks\<close> interprets it on the guards of the loggers'
    operations.
  \<^item> \<open>Utilities\<close> (util.cpp, macro.hpp): backtraces, and what a failed assertion writes to the loggers
    before it aborts.

  Conventions. A failed assertion, an exception and undefined behaviour are the values of
  \<open>server_error\<close>; \<open>Inr\<close> is a normal return. Objects that are shared have addresses. Atomic counters and
  bit masks are words of their width. Definitions are named after the function they translate; a
  function that other threads can interrupt is cut there, into one definition for each critical
  section.

  Bounds. \<open>Logger_log\<close> recurses to the root logger, which has none: its fuel counts nested calls, and
  \<open>LoggerRoutes\<close> shows that two are enough in every reachable state. \<open>SchedulerLiveness\<close>
  gives a number of steps for every list of callbacks; the measure is \<open>work\<close>.
  For a pool \<open>PoolStops\<close> shows that some number of steps is enough for every fair schedule; the
  measure is \<open>pool_work\<close>, for clients that schedule callbacks and no fibers. No other definition has
  fuel. The counters of threads are words: that they do not wrap rests on fewer than 2 to the 64
  threads, which the theorems about them assume. The vector of descriptors is
  taken to be shorter than 2 to the 31 where its size is converted to an \<open>int\<close>.

  Parameters. The kernel below \<open>IOManager\<close> is \<open>os\<close>, the YAML library \<open>yaml_lib\<close> (with \<open>yaml_law\<close>, that
  loading what was printed gives the node back), \<open>strftime\<close> with \<open>localtime_r\<close> is \<open>tm\<close>, the casts of
  basic types (boost) are arguments of the casts of containers, whether a file opens is \<open>opens\<close>, and the
  stack frames are \<open>backtrace_lib\<close> (with \<open>bt_law\<close>: as many texts as addresses, no more than asked for).
  Client callbacks are sequences of the calls they make into the framework.

  Not modelled: reference counts of \<open>shared_ptr\<close> (destructors are operations that are called); the
  failures of \<open>malloc\<close>, \<open>getcontext\<close> and \<open>swapcontext\<close>; memory reordering (an interleaving of steps
  is sequentially consistent); the streams by which log lines are composed; \<open>singleton.hpp\<close>, whose
  function-local statics are the states passed here; \<open>Scheduler::schedule(begin, end)\<close>, which does not
  compile when instantiated; main.cpp and the programs under tests. The effect of an operation of the
  loggers is one step, and the order of its locks is modelled apart from it, in \<open>LoggerLocks\<close>; that
  \<open>storeLogger\<close> and \<open>setLevel\<close> take no lock is not followed up. Where the code changes a map under a
  read lock, \<open>ConfigThreads\<close> takes each statement on the map as one step, although C++ leaves the
  behaviour undefined.
\<close>

end
